(* ===== verification/Prelude.thy ===== *)
theory Prelude
  imports Main "HOL-Library.Word"
begin

text \<open>
  Shared vocabulary of the development: the constants of \<^verbatim>\<open>src/src/common/config.h\<close>, the
  exception hierarchy of \<^verbatim>\<open>src/src/errors.h\<close> as one datatype, record and page identifiers,
  the result type of operations that may throw, 32-bit wrap-around, and the list and map lemmas
  that several components use.
\<close>

section \<open>Rule collections\<close>

named_theorems layout_simps \<open>offsets and sizes of the on-disk structures\<close>
named_theorems bytes_simps \<open>reads and writes of byte ranges\<close>
named_theorems pool_simps \<open>field updates of the buffer pool\<close>
named_theorems mvcc_simps \<open>field updates of the version store\<close>

section \<open>Types of common/config.h and defs.h\<close>

type_synonym byte = "8 word"
type_synonym bytes = "byte list"
type_synonym frame_id_t = nat
type_synonym page_id_t = int
type_synonym txn_id_t = int
type_synonym lsn_t = int
type_synonym timestamp_t = int

definition INVALID_PAGE_ID :: page_id_t where "INVALID_PAGE_ID = -1"
definition INVALID_TXN_ID :: txn_id_t where "INVALID_TXN_ID = -1"
definition INVALID_LSN :: lsn_t where "INVALID_LSN = -1"
definition INVALID_TS :: timestamp_t where "INVALID_TS = -1"
definition PAGE_SIZE :: nat where "PAGE_SIZE = 4096"
definition LOG_BUFFER_SIZE :: nat where "LOG_BUFFER_SIZE = 1024 * PAGE_SIZE"

lemmas config_defs =
  INVALID_PAGE_ID_def INVALID_TXN_ID_def INVALID_LSN_def INVALID_TS_def

declare config_defs [simp]
declare PAGE_SIZE_def [layout_simps] LOG_BUFFER_SIZE_def [layout_simps]

datatype ColType = TYPE_INT | TYPE_FLOAT | TYPE_STRING

datatype Rid = Rid (page_no: int) (slot_no: int)

datatype PageId = PageId (pid_fd: int) (pid_page_no: page_id_t)

section \<open>Errors\<close>

datatype AbortReason =
    LOCK_ON_SHIRINKING
  | UPGRADE_CONFLICT
  | DEADLOCK_PREVENTION
  | MVCC_CONFLICT
  | SSI_CONFLICT

datatype rmdb_error =
    RMDBError string
  | InternalError string
  | UnixError
  | FileNotOpenError int
  | FileNotClosedError string
  | FileExistsError string
  | FileNotFoundError string
  | RecordNotFoundError int int
  | InvalidRecordSizeError int
  | InvalidColLengthError int
  | IndexEntryNotFoundError
  | DatabaseNotFoundError string
  | DatabaseExistsError string
  | TableNotFoundError string
  | TableExistsError string
  | ColumnNotFoundError string
  | IndexNotFoundError string "string list"
  | IndexExistsError string "string list"
  | InvalidValueCountError
  | StringOverflowError
  | IncompatibleTypeError string string
  | AmbiguousColumnError string
  | PageNotExistError string int
  | TransactionAbortException txn_id_t AbortReason
  | AssertionFailure
  | NonTermination

text \<open>
  The last two are no exceptions: \<open>AssertionFailure\<close> is a failed \<^verbatim>\<open>assert\<close> or the use of a null pointer,
  which stops the process, and \<open>NonTermination\<close> is a loop that never ends. No handler
  catches them. An operation that may throw returns the new state together with either the error or its
  result: an exception does not undo the writes made before it.
\<close>

fun catchable :: "rmdb_error \<Rightarrow> bool" where
  "catchable AssertionFailure = False"
| "catchable NonTermination = False"
| "catchable _ = True"

type_synonym 'a result = "rmdb_error + 'a"

abbreviation Throw :: "rmdb_error \<Rightarrow> 'a result" where "Throw \<equiv> Inl"
abbreviation Ret :: "'a \<Rightarrow> 'a result" where "Ret \<equiv> Inr"

fun is_ret :: "'a result \<Rightarrow> bool" where
  "is_ret (Inr _) = True"
| "is_ret (Inl _) = False"

text \<open>
  Sequencing of operations on a state: the rest runs only if the first one returned.
\<close>

type_synonym ('s, 'a) op = "'s \<Rightarrow> 'a result \<times> 's"

definition bind_op :: "('s, 'a) op \<Rightarrow> ('a \<Rightarrow> ('s, 'b) op) \<Rightarrow> ('s, 'b) op" where
  "bind_op m f s = (case m s of (Inl e, s') \<Rightarrow> (Throw e, s') | (Inr x, s') \<Rightarrow> f x s')"

definition ret :: "'a \<Rightarrow> ('s, 'a) op" where "ret x s = (Ret x, s)"

definition throw :: "rmdb_error \<Rightarrow> ('s, 'a) op" where "throw e s = (Throw e, s)"

definition gets :: "('s \<Rightarrow> 'a) \<Rightarrow> ('s, 'a) op" where "gets f s = (Ret (f s), s)"

definition modify :: "('s \<Rightarrow> 's) \<Rightarrow> ('s, unit) op" where "modify f s = (Ret (), f s)"

definition lift :: "('s \<Rightarrow> 'a result) \<Rightarrow> ('s, 'a) op" where "lift f s = (f s, s)"

fun mapM_op :: "('x \<Rightarrow> ('s, unit) op) \<Rightarrow> 'x list \<Rightarrow> ('s, unit) op" where
  "mapM_op f [] = ret ()"
| "mapM_op f (x # xs) = bind_op (f x) (\<lambda>_. mapM_op f xs)"

lemma op_simps [simp]:
  "ret x s = (Ret x, s)" "throw e s = (Throw e, s)" "gets f s = (Ret (f s), s)" "modify g s = (Ret (), g s)"
  "lift h s = (h s, s)"
  by (simp_all add: ret_def throw_def gets_def modify_def lift_def)

lemma bind_op_Ret: "m s = (Ret x, s') \<Longrightarrow> bind_op m f s = f x s'"
  by (simp add: bind_op_def)

lemma bind_op_Throw: "m s = (Throw e, s') \<Longrightarrow> bind_op m f s = (Throw e, s')"
  by (simp add: bind_op_def)

lemma bind_op_simps [simp]:
  "bind_op (ret x) f s = f x s" "bind_op (throw e) f s = (Throw e, s)" "bind_op (gets g) f s = f (g s) s"
  "bind_op (modify k) f' s = f' () (k s)"
  by (simp_all add: bind_op_def)

lemma bind_op_eq_Ret:
  "bind_op m f s = (Ret y, s') \<longleftrightarrow> (\<exists>x s1. m s = (Ret x, s1) \<and> f x s1 = (Ret y, s'))"
  by (auto simp: bind_op_def split: prod.splits sum.splits)

lemma bind_op_cases:
  assumes "bind_op m f s = (r, s')"
  obtains (fails) e where "m s = (Throw e, s')" "r = Throw e"
    | (goes) x s1 where "m s = (Ret x, s1)" "f x s1 = (r, s')"
  using assms by (cases "m s"; cases "fst (m s)") (auto simp: bind_op_def)

section \<open>Signed 32-bit wrap-around\<close>

text \<open>The value an \<^verbatim>\<open>int32_t\<close> holds after storing \<open>x\<close> (two's complement).\<close>

definition to_i32 :: "int \<Rightarrow> int" where
  "to_i32 x = (x + 2 ^ 31) mod 2 ^ 32 - 2 ^ 31"

definition in_i32 :: "int \<Rightarrow> bool" where
  "in_i32 x \<longleftrightarrow> - (2 ^ 31) \<le> x \<and> x < 2 ^ 31"

definition in_i64 :: "int \<Rightarrow> bool" where
  "in_i64 x \<longleftrightarrow> - (2 ^ 63) \<le> x \<and> x < 2 ^ 63"

lemma to_i32_id: "in_i32 x \<Longrightarrow> to_i32 x = x"
  by (simp add: to_i32_def in_i32_def)

lemma in_i32_to_i32: "in_i32 (to_i32 x)"
proof -
  have "0 \<le> (x + 2 ^ 31) mod 2 ^ 32" "(x + 2 ^ 31) mod 2 ^ 32 < (2 ^ 32 :: int)"
    by (simp_all add: pos_mod_bound)
  then show ?thesis by (simp add: to_i32_def in_i32_def)
qed

section \<open>Lists and maps\<close>

lemma set_butlast_distinct:
  "distinct xs \<Longrightarrow> xs \<noteq> [] \<Longrightarrow> set (butlast xs) = set xs - {last xs}"
  by (induction xs rule: rev_induct) auto

lemma distinct_butlast_last: "distinct xs \<Longrightarrow> xs \<noteq> [] \<Longrightarrow> last xs \<notin> set (butlast xs)"
  by (simp add: set_butlast_distinct)

lemma map_filter_fst_distinct:
  "distinct (map fst xs) \<Longrightarrow> distinct (map fst (filter P xs))"
  by (induction xs) auto

lemma distinct_map_filter: "distinct (map f xs) \<Longrightarrow> distinct (map f (filter P xs))"
  by (induction xs) auto

lemma nth_list_update_if:
  "i < length xs \<Longrightarrow> xs[i := v] ! j = (if i = j then v else xs ! j)"
  by simp

lemma is_ret_iff: "is_ret r \<longleftrightarrow> (\<exists>x. r = Ret x)"
  by (cases r) auto

end
