(* ===== verification/Watermark.thy ===== *)
theory Watermark
  imports Prelude "HOL-Library.Multiset"
begin

text \<open>
  The watermark of the version store, \<^verbatim>\<open>src/src/transaction/watermark.{h,cpp}\<close>: the smallest read timestamp of
  the running snapshot transactions, below which versions may be collected. Each member function runs under
  the latch of the object and is one step. The map \<^verbatim>\<open>current_reads_\<close> is the list of its entries in key
  order; a counter stays below the number of running transactions, far from the bound of its type.

  The last section shows that the object implements a multiset of read timestamps: after any sequence of
  calls the watermark is the minimum of the multiset, and the last commit timestamp when it is empty.
\<close>

section \<open>State and operations\<close>

record Watermark =
  wm_commit_ts :: timestamp_t
  wm_watermark :: timestamp_t
  current_reads :: "(timestamp_t \<times> int) list"

definition new_Watermark :: "timestamp_t \<Rightarrow> Watermark" where
  "new_Watermark ts = \<lparr>wm_commit_ts = ts, wm_watermark = ts, current_reads = []\<rparr>"

text \<open>\<^verbatim>\<open>current_reads_[ts]++\<close> and the decrement that erases an entry whose counter reaches 0.\<close>

fun incr_read :: "timestamp_t \<Rightarrow> (timestamp_t \<times> int) list \<Rightarrow> (timestamp_t \<times> int) list" where
  "incr_read ts [] = [(ts, 1)]"
| "incr_read ts ((t, n) # rs) =
     (if ts = t then (t, n + 1) # rs
      else if ts < t then (ts, 1) # (t, n) # rs
      else (t, n) # incr_read ts rs)"

fun decr_read :: "timestamp_t \<Rightarrow> (timestamp_t \<times> int) list \<Rightarrow> (timestamp_t \<times> int) list" where
  "decr_read ts [] = []"
| "decr_read ts ((t, n) # rs) =
     (if ts = t then (if n - 1 = 0 then rs else (t, n - 1) # rs) else (t, n) # decr_read ts rs)"

definition AddTxn :: "timestamp_t \<Rightarrow> Watermark \<Rightarrow> Watermark" where
  "AddTxn read_ts w =
     (let w = w\<lparr>current_reads := incr_read read_ts (current_reads w)\<rparr> in
      if length (current_reads w) = 1 \<or> read_ts < wm_watermark w then w\<lparr>wm_watermark := read_ts\<rparr> else w)"

definition RemoveTxn :: "timestamp_t \<Rightarrow> Watermark \<Rightarrow> Watermark" where
  "RemoveTxn read_ts w =
     (if read_ts \<notin> fst ` set (current_reads w) then w
      else
        let w = w\<lparr>current_reads := decr_read read_ts (current_reads w)\<rparr>
        in w\<lparr>wm_watermark := (case current_reads w of [] \<Rightarrow> wm_commit_ts w | (t, _) # _ \<Rightarrow> t)\<rparr>)"

definition UpdateCommitTs :: "timestamp_t \<Rightarrow> Watermark \<Rightarrow> Watermark" where
  "UpdateCommitTs ts w =
     (let w = w\<lparr>wm_commit_ts := ts\<rparr> in if current_reads w = [] then w\<lparr>wm_watermark := ts\<rparr> else w)"

definition GetWatermark :: "Watermark \<Rightarrow> timestamp_t" where
  "GetWatermark w = wm_watermark w"

section \<open>The multiset of running reads\<close>

fun reads_mset :: "(timestamp_t \<times> int) list \<Rightarrow> timestamp_t multiset" where
  "reads_mset [] = {#}"
| "reads_mset ((t, n) # rs) = replicate_mset (nat n) t + reads_mset rs"

definition running_reads :: "Watermark \<Rightarrow> timestamp_t multiset" where
  "running_reads w = reads_mset (current_reads w)"

definition reads_ok :: "(timestamp_t \<times> int) list \<Rightarrow> bool" where
  "reads_ok rs \<longleftrightarrow> sorted (map fst rs) \<and> distinct (map fst rs) \<and> (\<forall>(t, n) \<in> set rs. 0 < n)"

definition low_mark :: "timestamp_t multiset \<Rightarrow> timestamp_t \<Rightarrow> timestamp_t" where
  "low_mark M c = (if M = {#} then c else Min_mset M)"

definition watermark_ok :: "Watermark \<Rightarrow> bool" where
  "watermark_ok w \<longleftrightarrow> reads_ok (current_reads w) \<and> wm_watermark w = low_mark (running_reads w) (wm_commit_ts w)"

lemma reads_ok_Nil [simp]: "reads_ok []"
  by (simp add: reads_ok_def)

lemma reads_ok_Cons:
  "reads_ok ((t, n) # rs) \<longleftrightarrow> reads_ok rs \<and> 0 < n \<and> (\<forall>x \<in> fst ` set rs. t < x)"
  by (auto simp: reads_ok_def order_less_le)

lemma set_mset_reads: "reads_ok rs \<Longrightarrow> set_mset (reads_mset rs) = fst ` set rs"
  by (induction rs rule: reads_mset.induct) (auto simp: reads_ok_Cons)

lemma reads_mset_empty: "reads_ok rs \<Longrightarrow> reads_mset rs = {#} \<longleftrightarrow> rs = []"
  using set_mset_reads [of rs] by (auto simp: set_mset_eq_empty_iff [symmetric] simp del: set_mset_eq_empty_iff)

lemma fst_incr_read: "fst ` set (incr_read ts rs) = insert ts (fst ` set rs)"
  by (induction ts rs rule: incr_read.induct) auto

lemma incr_read_ok: "reads_ok rs \<Longrightarrow> reads_ok (incr_read ts rs)"
  by (induction ts rs rule: incr_read.induct) (auto simp: reads_ok_Cons fst_incr_read)

lemma incr_read_mset: "reads_ok rs \<Longrightarrow> reads_mset (incr_read ts rs) = add_mset ts (reads_mset rs)"
  by (induction ts rs rule: incr_read.induct) (auto simp: reads_ok_Cons nat_add_distrib)

lemma fst_decr_read: "fst ` set (decr_read ts rs) \<subseteq> fst ` set rs"
  by (induction ts rs rule: decr_read.induct) auto

lemma decr_read_ok: "reads_ok rs \<Longrightarrow> reads_ok (decr_read ts rs)"
proof (induction ts rs rule: decr_read.induct)
  case (2 ts t n rs)
  then have ok: "reads_ok rs" "0 < n" "\<forall>x \<in> fst ` set rs. t < x" by (simp_all add: reads_ok_Cons)
  have below: "\<forall>x \<in> fst ` set (decr_read ts rs). t < x"
    using ok(3) by (meson fst_decr_read subsetD)
  show ?case
  proof (cases "ts = t")
    case False
    then show ?thesis using 2(1) [OF False ok(1)] ok(2) below by (simp add: reads_ok_Cons)
  qed (use ok in \<open>simp add: reads_ok_Cons\<close>)
qed simp

lemma decr_read_mset: "reads_ok rs \<Longrightarrow> reads_mset (decr_read ts rs) = reads_mset rs - {#ts#}"
proof (induction ts rs rule: decr_read.induct)
  case (2 ts t n rs)
  show ?case
  proof (cases "ts = t")
    case True
    obtain k where "nat n = Suc k" using 2(2) by (cases "nat n") (auto simp: reads_ok_Cons)
    moreover from this have "nat (n - 1) = k" "n - 1 = 0 \<longleftrightarrow> k = 0" by linarith+
    ultimately show ?thesis using True by simp
  next
    case False
    then show ?thesis using 2 by (simp add: reads_ok_Cons multiset_eq_iff)
  qed
qed simp

lemma hd_read_min: "reads_ok ((t, n) # rs) \<Longrightarrow> Min_mset (reads_mset ((t, n) # rs)) = t"
  by (intro Min_eqI) (auto simp: set_mset_reads reads_ok_Cons order_less_le simp del: reads_mset.simps)

lemma low_mark_reads:
  "reads_ok rs \<Longrightarrow> low_mark (reads_mset rs) c = (case rs of [] \<Rightarrow> c | (t, _) # _ \<Rightarrow> t)"
proof (cases rs)
  case (Cons a list)
  obtain t n where "a = (t, n)" by (cases a)
  then show "reads_ok rs \<Longrightarrow> ?thesis" using Cons reads_mset_empty [of rs] hd_read_min [of t n list]
    by (simp add: low_mark_def del: reads_mset.simps)
qed (simp add: low_mark_def)

lemma incr_read_length1: "length (incr_read ts rs) = 1 \<longleftrightarrow> rs = [] \<or> (\<exists>n. rs = [(ts, n)])"
  by (cases "(ts, rs)" rule: incr_read.cases) (auto, (metis incr_read.elims list.distinct(1))+)

lemma AddTxn_ok:
  assumes "watermark_ok w"
  shows "watermark_ok (AddTxn ts w)" "running_reads (AddTxn ts w) = add_mset ts (running_reads w)"
    "wm_commit_ts (AddTxn ts w) = wm_commit_ts w"
proof -
  let ?rs = "current_reads w" and ?rs' = "incr_read ts (current_reads w)"
  have ok: "reads_ok ?rs" and m: "wm_watermark w = low_mark (reads_mset ?rs) (wm_commit_ts w)"
    using assms by (simp_all add: watermark_ok_def running_reads_def)
  have low: "low_mark (reads_mset ?rs') c =
      (if length ?rs' = 1 \<or> ts < wm_watermark w then ts else wm_watermark w)" for c
  proof (cases "?rs = []")
    case False
    then have n: "reads_mset ?rs \<noteq> {#}" using ok by (simp add: reads_mset_empty)
    then have "low_mark (reads_mset ?rs') c = min ts (wm_watermark w)"
      using ok m by (simp add: low_mark_def incr_read_mset Min_insert)
    moreover have "wm_watermark w = ts" if one: "length ?rs' = 1"
    proof -
      obtain n where "?rs = [(ts, n)]" using False one incr_read_length1 [of ts ?rs] by auto
      then show ?thesis using ok m n set_mset_reads [OF ok] by (simp add: low_mark_def)
    qed
    ultimately show ?thesis by (auto simp: min_def)
  qed (simp add: low_mark_def)
  show "running_reads (AddTxn ts w) = add_mset ts (running_reads w)"
    using ok by (simp add: AddTxn_def Let_def running_reads_def incr_read_mset)
  show "wm_commit_ts (AddTxn ts w) = wm_commit_ts w" by (simp add: AddTxn_def Let_def)
  show "watermark_ok (AddTxn ts w)"
    using low incr_read_ok [OF ok] by (auto simp: AddTxn_def Let_def watermark_ok_def running_reads_def)
qed

lemma RemoveTxn_ok:
  assumes "watermark_ok w"
  shows "watermark_ok (RemoveTxn ts w)" "running_reads (RemoveTxn ts w) = running_reads w - {#ts#}"
    "wm_commit_ts (RemoveTxn ts w) = wm_commit_ts w"
proof -
  have ok: "reads_ok (current_reads w)" using assms by (simp add: watermark_ok_def)
  have "ts \<notin># reads_mset (current_reads w)" if "ts \<notin> fst ` set (current_reads w)"
    using that set_mset_reads [OF ok] by simp
  then show "running_reads (RemoveTxn ts w) = running_reads w - {#ts#}"
    using ok by (auto simp: RemoveTxn_def Let_def running_reads_def decr_read_mset diff_single_trivial)
  show "wm_commit_ts (RemoveTxn ts w) = wm_commit_ts w" by (simp add: RemoveTxn_def Let_def)
  show "watermark_ok (RemoveTxn ts w)"
    using assms low_mark_reads [OF decr_read_ok [OF ok]] decr_read_ok [OF ok]
    by (simp add: RemoveTxn_def Let_def watermark_ok_def running_reads_def split: list.splits)
qed

lemma UpdateCommitTs_ok:
  assumes "watermark_ok w"
  shows "watermark_ok (UpdateCommitTs ts w)" "running_reads (UpdateCommitTs ts w) = running_reads w"
    "wm_commit_ts (UpdateCommitTs ts w) = ts"
  using assms
  by (auto simp: UpdateCommitTs_def Let_def watermark_ok_def running_reads_def low_mark_def reads_mset_empty)

lemma new_Watermark_ok [simp]:
  "watermark_ok (new_Watermark ts)" "running_reads (new_Watermark ts) = {#}" "wm_commit_ts (new_Watermark ts) = ts"
  by (simp_all add: watermark_ok_def new_Watermark_def running_reads_def low_mark_def)

lemma watermark_le: "watermark_ok w \<Longrightarrow> ts \<in># running_reads w \<Longrightarrow> GetWatermark w \<le> ts"
  by (auto simp: watermark_ok_def low_mark_def GetWatermark_def)

section \<open>Sequences of calls\<close>

datatype wm_op = WmAdd timestamp_t | WmRemove timestamp_t | WmCommit timestamp_t

fun wm_step :: "wm_op \<Rightarrow> Watermark \<Rightarrow> Watermark" where
  "wm_step (WmAdd t) = AddTxn t"
| "wm_step (WmRemove t) = RemoveTxn t"
| "wm_step (WmCommit t) = UpdateCommitTs t"

fun spec_wm_step :: "wm_op \<Rightarrow> timestamp_t multiset \<times> timestamp_t \<Rightarrow> timestamp_t multiset \<times> timestamp_t" where
  "spec_wm_step (WmAdd t) (M, c) = (add_mset t M, c)"
| "spec_wm_step (WmRemove t) (M, c) = (M - {#t#}, c)"
| "spec_wm_step (WmCommit t) (M, c) = (M, t)"

definition wm_abs :: "Watermark \<Rightarrow> timestamp_t multiset \<times> timestamp_t" where
  "wm_abs w = (running_reads w, wm_commit_ts w)"

lemma wm_step_refines:
  "watermark_ok w \<Longrightarrow> watermark_ok (wm_step a w) \<and> wm_abs (wm_step a w) = spec_wm_step a (wm_abs w)"
  by (cases a) (simp_all add: wm_abs_def AddTxn_ok RemoveTxn_ok UpdateCommitTs_ok)

lemma wm_steps_refine:
  "watermark_ok w \<Longrightarrow> watermark_ok (fold wm_step as w) \<and> wm_abs (fold wm_step as w) = fold spec_wm_step as (wm_abs w)"
  by (induction as arbitrary: w) (simp_all add: wm_step_refines)

text \<open>
  C24. Whatever sequence of calls has been made, \<^verbatim>\<open>GetWatermark\<close> returns the smallest read timestamp among the
  transactions that were added and not yet removed, and the last commit timestamp when there is none.
\<close>

theorem watermark_exact:
  "GetWatermark (fold wm_step as (new_Watermark ts)) = case_prod low_mark (fold spec_wm_step as ({#}, ts))"
proof -
  let ?w = "fold wm_step as (new_Watermark ts)"
  have ok: "watermark_ok ?w" and "fold spec_wm_step as ({#}, ts) = (running_reads ?w, wm_commit_ts ?w)"
    using wm_steps_refine [of "new_Watermark ts" as] by (simp_all add: wm_abs_def)
  then show ?thesis by (simp add: watermark_ok_def GetWatermark_def)
qed

end
