(* ===== verification/Txn_Defs.thy ===== *)
theory Txn_Defs
  imports Prelude
begin

text \<open>
  The vocabulary of transactions: \<^verbatim>\<open>src/src/transaction/txn_defs.h\<close> (states, isolation levels, write
  records, lock identifiers, abort messages) and the \<^verbatim>\<open>Transaction\<close> object of
  \<^verbatim>\<open>src/src/transaction/transaction.h\<close>.

  The write set is the deque of write records in the order they were appended. The two unordered sets,
  \<^verbatim>\<open>lock_set_\<close> and \<^verbatim>\<open>mvcc_write_keys_\<close>, are lists without duplicates in insertion order; no result
  depends on the order in which they are traversed. The thread identifier, which is only compared with
  itself, and the page deques of the index latch protocol, of which only emptiness is read, stay as the
  flags the code reads.
\<close>

unbundle bit_operations_syntax

section \<open>txn\_defs.h\<close>

datatype TransactionState = DEFAULT | GROWING | SHRINKING | COMMITTED | ABORTED

datatype IsolationLevel =
    READ_UNCOMMITTED
  | REPEATABLE_READ
  | READ_COMMITTED
  | SNAPSHOT_ISOLATION
  | SERIALIZABLE

datatype WType = INSERT_TUPLE | DELETE_TUPLE | UPDATE_TUPLE

record WriteRecord =
  wtype :: WType
  wr_tab_name :: string
  wr_fd :: int
  wr_rid :: Rid
  wr_record :: bytes

definition new_WriteRecord :: "WType \<Rightarrow> string \<Rightarrow> int \<Rightarrow> Rid \<Rightarrow> WriteRecord" where
  "new_WriteRecord wt tab_name fd rid =
     \<lparr>wtype = wt, wr_tab_name = tab_name, wr_fd = fd, wr_rid = rid, wr_record = []\<rparr>"

definition new_WriteRecord_with :: "WType \<Rightarrow> string \<Rightarrow> int \<Rightarrow> Rid \<Rightarrow> bytes \<Rightarrow> WriteRecord" where
  "new_WriteRecord_with wt tab_name fd rid rec =
     \<lparr>wtype = wt, wr_tab_name = tab_name, wr_fd = fd, wr_rid = rid, wr_record = rec\<rparr>"

datatype LockDataType = TABLE | RECORD

datatype LockDataId = LockDataId (lid_fd: int) (lid_rid: Rid) (lid_type: LockDataType)

definition LockDataId_table :: "int \<Rightarrow> LockDataId" where
  "LockDataId_table fd = LockDataId fd (Rid (-1) (-1)) TABLE"

definition LockDataId_record :: "int \<Rightarrow> Rid \<Rightarrow> LockDataId" where
  "LockDataId_record fd rid = LockDataId fd rid RECORD"

text \<open>The value an \<^verbatim>\<open>int64_t\<close> holds after storing \<open>x\<close>.\<close>

definition to_i64 :: "int \<Rightarrow> int" where
  "to_i64 x = (x + 2 ^ 63) mod 2 ^ 64 - 2 ^ 63"

definition Get :: "LockDataId \<Rightarrow> int" where
  "Get l =
     (if lid_type l = TABLE then lid_fd l
      else (to_i64 (1 * 2 ^ 63)
        OR to_i64 (lid_fd l * 2 ^ 31)
        OR to_i64 (page_no (lid_rid l) * 2 ^ 16)
        OR slot_no (lid_rid l)))"

text \<open>\<^verbatim>\<open>std::hash<int64_t>\<close> is the identity into \<^verbatim>\<open>size_t\<close>.\<close>

definition hash_LockDataId :: "LockDataId \<Rightarrow> nat" where
  "hash_LockDataId l = nat (Get l mod 2 ^ 64)"

section \<open>Decimal numerals\<close>

text \<open>\<^verbatim>\<open>std::to_string\<close> on integers.\<close>

fun nat_to_string :: "nat \<Rightarrow> string" where
  "nat_to_string n =
     (if n < 10 then [char_of (48 + n)] else nat_to_string (n div 10) @ [char_of (48 + n mod 10)])"

declare nat_to_string.simps [simp del]

definition int_to_string :: "int \<Rightarrow> string" where
  "int_to_string i = (if i < 0 then CHR ''-'' # nat_to_string (nat (- i)) else nat_to_string (nat i))"

fun GetInfo :: "txn_id_t \<Rightarrow> AbortReason \<Rightarrow> string" where
  "GetInfo t LOCK_ON_SHIRINKING =
     ''Transaction '' @ int_to_string t @ '' aborted because it cannot request locks on SHRINKING phase'' @ [CHR 0x0A]"
| "GetInfo t UPGRADE_CONFLICT =
     ''Transaction '' @ int_to_string t @ '' aborted because another transaction is waiting for upgrading'' @ [CHR 0x0A]"
| "GetInfo t DEADLOCK_PREVENTION =
     ''Transaction '' @ int_to_string t @ '' aborted for deadlock prevention'' @ [CHR 0x0A]"
| "GetInfo t MVCC_CONFLICT =
     ''Transaction '' @ int_to_string t @ '' aborted for MVCC write conflict'' @ [CHR 0x0A]"
| "GetInfo t SSI_CONFLICT =
     ''Transaction '' @ int_to_string t @ '' aborted for SSI conflict'' @ [CHR 0x0A]"

section \<open>transaction.h\<close>

record Transaction =
  txn_mode :: bool
  txn_state :: TransactionState
  isolation_level :: IsolationLevel
  mvcc_enabled :: bool
  has_writes :: bool
  tracked_in_map :: bool
  prev_lsn :: lsn_t
  txn_id :: txn_id_t
  start_ts :: timestamp_t
  write_set :: "WriteRecord list"
  lock_set :: "LockDataId list"
  index_latch_pages :: "PageId list"
  index_deleted_pages :: "PageId list"
  read_ts :: timestamp_t
  commit_ts :: timestamp_t
  mvcc_write_keys :: "string list"

definition new_Transaction :: "txn_id_t \<Rightarrow> IsolationLevel \<Rightarrow> Transaction" where
  "new_Transaction i lvl =
     \<lparr>txn_mode = False, txn_state = DEFAULT, isolation_level = lvl, mvcc_enabled = False, has_writes = False,
      tracked_in_map = True, prev_lsn = INVALID_LSN, txn_id = i, start_ts = 0, write_set = [], lock_set = [],
      index_latch_pages = [], index_deleted_pages = [], read_ts = 0, commit_ts = INVALID_TS, mvcc_write_keys = []\<rparr>"

definition ResetForReuse :: "txn_id_t \<Rightarrow> IsolationLevel \<Rightarrow> Transaction \<Rightarrow> Transaction" where
  "ResetForReuse i lvl t =
     t\<lparr>txn_mode := False, txn_state := DEFAULT, isolation_level := lvl, mvcc_enabled := False, has_writes := False,
       tracked_in_map := True, prev_lsn := INVALID_LSN, txn_id := i, start_ts := 0, read_ts := 0, commit_ts := INVALID_TS,
       write_set := [], lock_set := [], index_latch_pages := [], index_deleted_pages := [], mvcc_write_keys := []\<rparr>"

definition append_write_record :: "WriteRecord \<Rightarrow> Transaction \<Rightarrow> Transaction" where
  "append_write_record w t = t\<lparr>has_writes := True, write_set := write_set t @ [w]\<rparr>"

definition add_mvcc_write_key :: "string \<Rightarrow> Transaction \<Rightarrow> bool \<times> Transaction" where
  "add_mvcc_write_key k t =
     (if k \<in> set (mvcc_write_keys t) then (False, t) else (True, t\<lparr>mvcc_write_keys := mvcc_write_keys t @ [k]\<rparr>))"

definition ClearCompletedState :: "Transaction \<Rightarrow> Transaction" where
  "ClearCompletedState t =
     t\<lparr>write_set := [], index_latch_pages := [], index_deleted_pages := [], mvcc_write_keys := [], has_writes := False\<rparr>"

section \<open>Numerals are injective\<close>

lemma digit_inj: "m < 10 \<Longrightarrow> n < 10 \<Longrightarrow> char_of (48 + m) = (char_of (48 + n) :: char) \<Longrightarrow> m = (n :: nat)"
  by (simp add: char_of_eq_iff of_char_of take_bit_nat_eq_self)

lemma nat_to_string_nonempty [simp]: "nat_to_string n \<noteq> []" "[] \<noteq> nat_to_string n"
  by (subst nat_to_string.simps; simp)+

lemma nat_to_string_inj: "nat_to_string m = nat_to_string n \<Longrightarrow> m = n"
proof (induction m arbitrary: n rule: less_induct)
  case (less m)
  note m = nat_to_string.simps [of m] and n = nat_to_string.simps [of n]
  show ?case
  proof (cases "m < 10")
    case True
    then show ?thesis using less.prems m n digit_inj [of m n] by (auto split: if_splits)
  next
    case False
    with less.prems m n have "\<not> n < 10" by (auto split: if_splits)
    with False less.prems m n have e: "nat_to_string (m div 10) = nat_to_string (n div 10)"
        "(char_of (48 + m mod 10) :: char) = char_of (48 + n mod 10)" by auto
    have "m div 10 = n div 10" using less.IH [OF _ e(1)] False by simp
    moreover have "m mod 10 = n mod 10" using digit_inj [OF _ _ e(2)] by simp
    ultimately show ?thesis by (metis div_mult_mod_eq)
  qed
qed

lemma digit_char: "m < 10 \<Longrightarrow> of_char (char_of (48 + m) :: char) = (48 + m :: nat)"
  by (simp add: of_char_of)

lemma nat_to_string_digits: "c \<in> set (nat_to_string n) \<Longrightarrow> 48 \<le> (of_char c :: nat) \<and> of_char c < (58 :: nat)"
proof (induction n rule: less_induct)
  case (less n)
  show ?case
  proof (cases "n < 10")
    case True
    then show ?thesis using less.prems nat_to_string.simps [of n] digit_char [of n] by simp
  next
    case False
    then have "c \<in> set (nat_to_string (n div 10)) \<or> c = char_of (48 + n mod 10)"
      using less.prems nat_to_string.simps [of n] by auto
    then show ?thesis
      using less.IH [of "n div 10"] False digit_char [of "n mod 10"] by auto
  qed
qed

lemma int_to_string_inj: "int_to_string i = int_to_string j \<Longrightarrow> i = j"
proof -
  have n: "CHR ''-'' \<notin> set (nat_to_string k)" for k using nat_to_string_digits [of "CHR ''-''" k] by auto
  assume e: "int_to_string i = int_to_string j"
  consider "i < 0" "j < 0" | "i < 0" "0 \<le> j" | "0 \<le> i" "j < 0" | "0 \<le> i" "0 \<le> j" by linarith
  then show "i = j"
  proof cases
    case 2
    then have "CHR ''-'' \<in> set (nat_to_string (nat j))"
      using e by (metis int_to_string_def leD list.set_intros(1))
    then show ?thesis using n by simp
  next
    case 3
    then have "CHR ''-'' \<in> set (nat_to_string (nat i))"
      using e by (metis int_to_string_def leD list.set_intros(1))
    then show ?thesis using n by simp
  qed (use e nat_to_string_inj in \<open>force simp: int_to_string_def\<close>)+
qed

lemma int_to_string_no_hash: "CHR ''#'' \<notin> set (int_to_string i)"
  using nat_to_string_digits [of "CHR ''#''"] by (auto simp: int_to_string_def)

lemma hash_append_inj:
  "CHR ''#'' \<notin> set x \<Longrightarrow> CHR ''#'' \<notin> set y \<Longrightarrow>
   x @ CHR ''#'' # u = y @ CHR ''#'' # v \<longleftrightarrow> x = y \<and> u = v"
  by (induction x arbitrary: y; case_tac y) auto

end
