(* ===== verification/Sm_Meta.thy ===== *)
theory Sm_Meta
  imports Txn_Defs "HOL-Library.Char_ord" "HOL-Library.List_Lexorder"
begin

text \<open>
  The catalogue, \<^verbatim>\<open>src/src/system/sm_meta.h\<close>: metadata of columns, indexes, tables and databases, the
  lookups, and the text format of the file \<^verbatim>\<open>db.meta\<close>, written and read by the stream operators.

  An output stream is the string written so far. Reading takes the rest of the input and returns the
  value with what is left, or \<open>None\<close> when the extraction fails. A \<^verbatim>\<open>std::map\<close> is the list of its entries in key
  order.
\<close>

section \<open>Streams\<close>

definition is_ws :: "char \<Rightarrow> bool" where
  "is_ws c \<longleftrightarrow> c \<in> {CHR '' '', CHR 0x09, CHR 0x0A, CHR 0x0B, CHR 0x0C, CHR 0x0D}"

definition is_digit :: "char \<Rightarrow> bool" where
  "is_digit c \<longleftrightarrow> 48 \<le> (of_char c :: nat) \<and> (of_char c :: nat) < 58"

text \<open>\<^verbatim>\<open>is >> s\<close> for a string, an \<^verbatim>\<open>int\<close>, a \<^verbatim>\<open>size_t\<close> and a \<^verbatim>\<open>bool\<close>.\<close>

definition read_string :: "string \<Rightarrow> (string \<times> string) option" where
  "read_string is =
     (let r = dropWhile is_ws is; w = takeWhile (\<lambda>c. \<not> is_ws c) r in
      if w = [] then None else Some (w, dropWhile (\<lambda>c. \<not> is_ws c) r))"

definition digits_value :: "string \<Rightarrow> nat" where
  "digits_value ds = foldl (\<lambda>n c. 10 * n + (of_char c - 48)) 0 ds"

definition read_number :: "string \<Rightarrow> (int \<times> string) option" where
  "read_number is =
     (let r = dropWhile is_ws is;
          neg = (r \<noteq> [] \<and> hd r = CHR ''-'');
          r1 = (if r \<noteq> [] \<and> (hd r = CHR ''-'' \<or> hd r = CHR ''+'') then tl r else r);
          ds = takeWhile is_digit r1
      in if ds = [] then None
         else Some (if neg then - int (digits_value ds) else int (digits_value ds), dropWhile is_digit r1))"

definition read_int :: "string \<Rightarrow> (int \<times> string) option" where
  "read_int is = (case read_number is of Some (n, r) \<Rightarrow> if in_i32 n then Some (n, r) else None | None \<Rightarrow> None)"

definition read_size :: "string \<Rightarrow> (nat \<times> string) option" where
  "read_size is = (case read_number is of Some (n, r) \<Rightarrow> if 0 \<le> n \<and> n < 2 ^ 64 then Some (nat n, r) else None | None \<Rightarrow> None)"

definition read_bool :: "string \<Rightarrow> (bool \<times> string) option" where
  "read_bool is = (case read_number is of Some (n, r) \<Rightarrow> if n = 0 \<or> n = 1 then Some (n = 1, r) else None | None \<Rightarrow> None)"

text \<open>The enumeration operators of \<^verbatim>\<open>defs.h\<close>, on column types.\<close>

fun coltype_code :: "ColType \<Rightarrow> int" where
  "coltype_code TYPE_INT = 0"
| "coltype_code TYPE_FLOAT = 1"
| "coltype_code TYPE_STRING = 2"

definition print_enum :: "ColType \<Rightarrow> string" where
  "print_enum t = int_to_string (coltype_code t)"

definition read_enum :: "string \<Rightarrow> (ColType \<times> string) option" where
  "read_enum is =
     (case read_int is of
        Some (n, r) \<Rightarrow>
          (if n = 0 then Some (TYPE_INT, r) else if n = 1 then Some (TYPE_FLOAT, r)
           else if n = 2 then Some (TYPE_STRING, r) else None)
      | None \<Rightarrow> None)"

fun coltype2str :: "ColType \<Rightarrow> string" where
  "coltype2str TYPE_INT = ''INT''"
| "coltype2str TYPE_FLOAT = ''FLOAT''"
| "coltype2str TYPE_STRING = ''STRING''"

section \<open>Metadata\<close>

record ColMeta =
  col_tab_name :: string
  col_name :: string
  col_type :: ColType
  col_len :: int
  col_offset :: int
  col_index :: bool

record IndexMeta =
  ix_tab_name :: string
  col_tot_len :: int
  col_num :: int
  ix_cols :: "ColMeta list"

record TabMeta =
  tab_name :: string
  cols :: "ColMeta list"
  indexes :: "IndexMeta list"

record DbMeta =
  db_name :: string
  tabs :: "(string \<times> TabMeta) list"

definition TabMeta_copy :: "TabMeta \<Rightarrow> TabMeta" where
  "TabMeta_copy other = \<lparr>tab_name = tab_name other, cols = cols other, indexes = []\<rparr>"

definition is_col :: "TabMeta \<Rightarrow> string \<Rightarrow> bool" where
  "is_col tab name \<longleftrightarrow> find (\<lambda>c. col_name c = name) (cols tab) \<noteq> None"

definition same_index :: "IndexMeta \<Rightarrow> string list \<Rightarrow> bool" where
  "same_index ix names \<longleftrightarrow>
     col_num ix = int (length names) \<and> list_all (\<lambda>i. col_name (ix_cols ix ! i) = names ! i) [0 ..< length names]"

definition is_index :: "TabMeta \<Rightarrow> string list \<Rightarrow> bool" where
  "is_index tab names \<longleftrightarrow> list_ex (\<lambda>ix. same_index ix names) (indexes tab)"

definition get_index_meta :: "TabMeta \<Rightarrow> string list \<Rightarrow> IndexMeta result" where
  "get_index_meta tab names =
     (case find (\<lambda>ix. same_index ix names) (indexes tab) of
        Some ix \<Rightarrow> Ret ix
      | None \<Rightarrow> Throw (IndexNotFoundError (tab_name tab) names))"

definition get_col :: "TabMeta \<Rightarrow> string \<Rightarrow> ColMeta result" where
  "get_col tab name =
     (case find (\<lambda>c. col_name c = name) (cols tab) of
        Some c \<Rightarrow> Ret c
      | None \<Rightarrow> Throw (ColumnNotFoundError name))"

text \<open>\<^verbatim>\<open>tabs_[name] = meta\<close> on the ordered map.\<close>

fun map_put :: "string \<Rightarrow> 'v \<Rightarrow> (string \<times> 'v) list \<Rightarrow> (string \<times> 'v) list" where
  "map_put k v [] = [(k, v)]"
| "map_put k v ((k', v') # m) =
     (if k < k' then (k, v) # (k', v') # m else if k = k' then (k, v) # m else (k', v') # map_put k v m)"

definition is_table :: "DbMeta \<Rightarrow> string \<Rightarrow> bool" where
  "is_table db name \<longleftrightarrow> map_of (tabs db) name \<noteq> None"

definition SetTabMeta :: "string \<Rightarrow> TabMeta \<Rightarrow> DbMeta \<Rightarrow> DbMeta" where
  "SetTabMeta name meta db = db\<lparr>tabs := map_put name meta (tabs db)\<rparr>"

definition get_table :: "DbMeta \<Rightarrow> string \<Rightarrow> TabMeta result" where
  "get_table db name =
     (case map_of (tabs db) name of Some t \<Rightarrow> Ret t | None \<Rightarrow> Throw (TableNotFoundError name))"

section \<open>The text format\<close>

abbreviation NL :: string where "NL \<equiv> [CHR 0x0A]"

definition print_ColMeta :: "ColMeta \<Rightarrow> string" where
  "print_ColMeta c =
     col_tab_name c @ '' '' @ col_name c @ '' '' @ print_enum (col_type c) @ '' '' @ int_to_string (col_len c) @ '' '' @
     int_to_string (col_offset c) @ '' '' @ (if col_index c then ''1'' else ''0'')"

definition read_ColMeta :: "string \<Rightarrow> (ColMeta \<times> string) option" where
  "read_ColMeta is0 =
     (case read_string is0 of None \<Rightarrow> None | Some (tn, is1) \<Rightarrow>
     (case read_string is1 of None \<Rightarrow> None | Some (n, is2) \<Rightarrow>
     (case read_enum is2 of None \<Rightarrow> None | Some (t, is3) \<Rightarrow>
     (case read_int is3 of None \<Rightarrow> None | Some (l, is4) \<Rightarrow>
     (case read_int is4 of None \<Rightarrow> None | Some (off, is5) \<Rightarrow>
     (case read_bool is5 of None \<Rightarrow> None | Some (b, is6) \<Rightarrow>
        Some (\<lparr>col_tab_name = tn, col_name = n, col_type = t, col_len = l, col_offset = off, col_index = b\<rparr>, is6)))))))"

text \<open>The counted loops of the readers: \<open>n\<close> items, each appended.\<close>

fun read_many :: "(string \<Rightarrow> ('a \<times> string) option) \<Rightarrow> nat \<Rightarrow> string \<Rightarrow> ('a list \<times> string) option" where
  "read_many rd 0 is = Some ([], is)"
| "read_many rd (Suc n) is =
     (case rd is of None \<Rightarrow> None
      | Some (x, is1) \<Rightarrow> (case read_many rd n is1 of None \<Rightarrow> None | Some (xs, is2) \<Rightarrow> Some (x # xs, is2)))"

definition print_IndexMeta :: "IndexMeta \<Rightarrow> string" where
  "print_IndexMeta ix =
     ix_tab_name ix @ '' '' @ int_to_string (col_tot_len ix) @ '' '' @ int_to_string (col_num ix) @
     concat (map (\<lambda>c. NL @ print_ColMeta c) (ix_cols ix))"

definition read_IndexMeta :: "string \<Rightarrow> (IndexMeta \<times> string) option" where
  "read_IndexMeta is0 =
     (case read_string is0 of None \<Rightarrow> None | Some (tn, is1) \<Rightarrow>
     (case read_int is1 of None \<Rightarrow> None | Some (l, is2) \<Rightarrow>
     (case read_int is2 of None \<Rightarrow> None | Some (n, is3) \<Rightarrow>
     (case read_many read_ColMeta (nat n) is3 of None \<Rightarrow> None | Some (cs, is4) \<Rightarrow>
        Some (\<lparr>ix_tab_name = tn, col_tot_len = l, col_num = n, ix_cols = cs\<rparr>, is4)))))"

definition print_TabMeta :: "TabMeta \<Rightarrow> string" where
  "print_TabMeta tab =
     tab_name tab @ NL @ int_to_string (int (length (cols tab))) @ NL @
     concat (map (\<lambda>c. print_ColMeta c @ NL) (cols tab)) @
     int_to_string (int (length (indexes tab))) @ NL @
     concat (map (\<lambda>ix. print_IndexMeta ix @ NL) (indexes tab))"

definition read_TabMeta :: "string \<Rightarrow> (TabMeta \<times> string) option" where
  "read_TabMeta is0 =
     (case read_string is0 of None \<Rightarrow> None | Some (name, is1) \<Rightarrow>
     (case read_size is1 of None \<Rightarrow> None | Some (n, is2) \<Rightarrow>
     (case read_many read_ColMeta n is2 of None \<Rightarrow> None | Some (cs, is3) \<Rightarrow>
     (case read_size is3 of None \<Rightarrow> None | Some (k, is4) \<Rightarrow>
     (case read_many read_IndexMeta k is4 of None \<Rightarrow> None | Some (xs, is5) \<Rightarrow>
        Some (\<lparr>tab_name = name, cols = cs, indexes = xs\<rparr>, is5))))))"

definition print_DbMeta :: "DbMeta \<Rightarrow> string" where
  "print_DbMeta db =
     db_name db @ NL @ int_to_string (int (length (tabs db))) @ NL @
     concat (map (\<lambda>e. print_TabMeta (snd e) @ NL) (tabs db))"

text \<open>\<^verbatim>\<open>is >> db_meta\<close> adds the tables it reads to those the object already has.\<close>

definition read_DbMeta :: "DbMeta \<Rightarrow> string \<Rightarrow> (DbMeta \<times> string) option" where
  "read_DbMeta db is0 =
     (case read_string is0 of None \<Rightarrow> None | Some (name, is1) \<Rightarrow>
     (case read_size is1 of None \<Rightarrow> None | Some (n, is2) \<Rightarrow>
     (case read_many read_TabMeta n is2 of None \<Rightarrow> None | Some (ts, is3) \<Rightarrow>
        Some (\<lparr>db_name = name, tabs = foldl (\<lambda>m t. map_put (tab_name t) t m) (tabs db) ts\<rparr>, is3))))"

section \<open>Reading back what was written\<close>

text \<open>A name survives the format when it is not empty and has no white space.\<close>

definition word_ok :: "string \<Rightarrow> bool" where
  "word_ok w \<longleftrightarrow> w \<noteq> [] \<and> (\<forall>c \<in> set w. \<not> is_ws c)"

definition ColMeta_ok :: "ColMeta \<Rightarrow> bool" where
  "ColMeta_ok c \<longleftrightarrow> word_ok (col_tab_name c) \<and> word_ok (col_name c) \<and> in_i32 (col_len c) \<and> in_i32 (col_offset c)"

definition IndexMeta_ok :: "IndexMeta \<Rightarrow> bool" where
  "IndexMeta_ok ix \<longleftrightarrow> word_ok (ix_tab_name ix) \<and> in_i32 (col_tot_len ix) \<and> in_i32 (col_num ix) \<and>
     col_num ix = int (length (ix_cols ix)) \<and> list_all ColMeta_ok (ix_cols ix)"

definition TabMeta_ok :: "TabMeta \<Rightarrow> bool" where
  "TabMeta_ok t \<longleftrightarrow> word_ok (tab_name t) \<and> list_all ColMeta_ok (cols t) \<and> list_all IndexMeta_ok (indexes t) \<and>
     length (cols t) < 2 ^ 64 \<and> length (indexes t) < 2 ^ 64"

definition DbMeta_ok :: "DbMeta \<Rightarrow> bool" where
  "DbMeta_ok db \<longleftrightarrow> word_ok (db_name db) \<and> list_all (\<lambda>e. TabMeta_ok (snd e) \<and> fst e = tab_name (snd e)) (tabs db) \<and>
     length (tabs db) < 2 ^ 64 \<and> sorted_wrt (<) (map fst (tabs db))"

text \<open>What follows an item on the stream: the end, or white space.\<close>

definition at_ws :: "string \<Rightarrow> bool" where
  "at_ws r \<longleftrightarrow> (r = [] \<or> is_ws (hd r))"

lemma at_ws_simps [simp]: "at_ws []" "at_ws (CHR 0x0A # r)" "at_ws (CHR '' '' # r)"
  by (simp_all add: at_ws_def is_ws_def)

lemma takeWhile_ws: "\<forall>c \<in> set w. P c \<Longrightarrow> r = [] \<or> \<not> P (hd r) \<Longrightarrow> takeWhile P (w @ r) = w \<and> dropWhile P (w @ r) = r"
  by (induction w) (cases r; auto)+

lemma dropWhile_ws_word: "w \<noteq> [] \<Longrightarrow> \<not> is_ws (hd w) \<Longrightarrow> dropWhile is_ws (w @ r) = w @ r"
  by (cases w) auto

lemma read_string_word: "word_ok w \<Longrightarrow> at_ws r \<Longrightarrow> read_string (w @ r) = Some (w, r)"
  using takeWhile_ws [of w "\<lambda>c. \<not> is_ws c" r] dropWhile_ws_word [of w r]
  by (auto simp: read_string_def word_ok_def at_ws_def Let_def)

lemma skip_ws [simp]:
  "is_ws c \<Longrightarrow> read_string (c # r) = read_string r" "is_ws c \<Longrightarrow> read_number (c # r) = read_number r"
  by (simp_all add: read_string_def read_number_def)

lemma ws_chars [simp]: "is_ws (CHR 0x0A)" "is_ws (CHR '' '')"
  by (simp_all add: is_ws_def)

lemma digits_value_snoc: "digits_value (ds @ [c]) = 10 * digits_value ds + (of_char c - 48)"
  by (simp add: digits_value_def)

lemma digits_value_nat: "digits_value (nat_to_string n) = n"
proof (induction n rule: less_induct)
  case (less n)
  show ?case
  proof (cases "n < 10")
    case True
    then show ?thesis using digit_char [of n] by (simp add: nat_to_string.simps [of n] digits_value_def)
  next
    case False
    then have "digits_value (nat_to_string (n div 10)) = n div 10" using less by simp
    then show ?thesis
      using False digit_char [of "n mod 10"] by (subst nat_to_string.simps) (simp add: digits_value_snoc)
  qed
qed

lemma nat_to_string_is_digit: "\<forall>c \<in> set (nat_to_string n). is_digit c"
  using nat_to_string_digits by (auto simp: is_digit_def)

lemma not_ws_digit: "is_digit c \<Longrightarrow> \<not> is_ws c"
  by (auto simp: is_digit_def is_ws_def)

lemma ws_not_digit: "at_ws r \<Longrightarrow> r = [] \<or> \<not> is_digit (hd r)"
  using not_ws_digit by (auto simp: at_ws_def)

lemma read_number_int: "at_ws r \<Longrightarrow> read_number (int_to_string i @ r) = Some (i, r)"
proof -
  assume r: "at_ws r"
  have n: "takeWhile is_digit (nat_to_string k @ r) = nat_to_string k \<and> dropWhile is_digit (nat_to_string k @ r) = r" for k
    by (rule takeWhile_ws [OF nat_to_string_is_digit ws_not_digit [OF r]])
  have h: "is_digit (hd (nat_to_string k @ r))" for k using nat_to_string_is_digit [of k] by (cases "nat_to_string k") auto
  show ?thesis
  proof (cases "i < 0")
    case True
    then show ?thesis
      using n [of "nat (- i)"] by (simp add: read_number_def int_to_string_def is_ws_def digits_value_nat Let_def)
  next
    case False
    have c: "hd (nat_to_string (nat i) @ r) \<noteq> CHR ''-''" "hd (nat_to_string (nat i) @ r) \<noteq> CHR ''+''"
      using h [of "nat i"] by (auto simp: is_digit_def)
    have "dropWhile is_ws (nat_to_string (nat i) @ r) = nat_to_string (nat i) @ r"
      using not_ws_digit [OF h [of "nat i"]] by (cases "nat_to_string (nat i)") auto
    then show ?thesis
      using False n [of "nat i"] c by (simp add: read_number_def int_to_string_def digits_value_nat Let_def)
  qed
qed

lemma read_int_of: "in_i32 i \<Longrightarrow> at_ws r \<Longrightarrow> read_int (int_to_string i @ r) = Some (i, r)"
  by (simp add: read_int_def read_number_int)

lemma read_size_of: "n < 2 ^ 64 \<Longrightarrow> at_ws r \<Longrightarrow> read_size (int_to_string (int n) @ r) = Some (n, r)"
  by (simp add: read_size_def read_number_int)

lemma read_enum_of: "at_ws r \<Longrightarrow> read_enum (print_enum t @ r) = Some (t, r)"
  by (cases t) (simp_all add: print_enum_def read_enum_def read_int_of in_i32_def)

lemma bit_strings: "int_to_string 1 = ''1''" "int_to_string 0 = ''0''"
  by code_simp+

lemma read_bool_of: "at_ws r \<Longrightarrow> read_bool ((if b then ''1'' else ''0'') @ r) = Some (b, r)"
  using read_number_int [of r 1] read_number_int [of r 0]
  by (cases b) (simp_all add: read_bool_def bit_strings)

lemma skip_ws_more [simp]:
  assumes "is_ws c"
  shows "read_int (c # r) = read_int r" "read_size (c # r) = read_size r" "read_bool (c # r) = read_bool r"
    "read_enum (c # r) = read_enum r" "read_ColMeta (c # r) = read_ColMeta r" "read_IndexMeta (c # r) = read_IndexMeta r"
    "read_TabMeta (c # r) = read_TabMeta r"
  using assms
  by (simp_all add: read_int_def read_size_def read_bool_def read_enum_def read_ColMeta_def read_IndexMeta_def read_TabMeta_def)

lemma read_print_ColMeta:
  assumes "ColMeta_ok c" "at_ws r" shows "read_ColMeta (print_ColMeta c @ r) = Some (c, r)"
  using assms read_bool_of [OF assms(2), of "col_index c"]
  by (simp add: read_ColMeta_def print_ColMeta_def ColMeta_ok_def read_string_word read_enum_of read_int_of)

text \<open>Reading a list whose items are each followed by a newline, and one whose items follow a newline.\<close>

lemma read_many_after:
  assumes "\<And>x r. x \<in> set xs \<Longrightarrow> at_ws r \<Longrightarrow> rd (pr x @ r) = Some (x, r)"
    and "\<And>c r. is_ws c \<Longrightarrow> rd (c # r) = rd r"
  shows "\<exists>r'. read_many rd (length xs) (concat (map (\<lambda>x. pr x @ NL) xs) @ r) = Some (xs, r') \<and>
    (if xs = [] then r' = r else r' = CHR 0x0A # r)"
  using assms(1)
proof (induction xs)
  case (Cons x xs)
  then obtain r' where r': "read_many rd (length xs) (concat (map (\<lambda>x. pr x @ NL) xs) @ r) = Some (xs, r')"
      "if xs = [] then r' = r else r' = CHR 0x0A # r" by auto
  have x: "rd (pr x @ CHR 0x0A # concat (map (\<lambda>x. pr x @ NL) xs) @ r) =
      Some (x, CHR 0x0A # concat (map (\<lambda>x. pr x @ NL) xs) @ r)"
    using Cons.prems by simp
  show ?case
  proof (cases xs)
    case Nil
    then show ?thesis using x by simp
  next
    case (Cons y ys)
    then have "read_many rd (length xs) (CHR 0x0A # concat (map (\<lambda>x. pr x @ NL) xs) @ r) = Some (xs, CHR 0x0A # r)"
      using r' assms(2) by simp
    then show ?thesis using x by simp
  qed
qed simp

lemma read_many_before:
  assumes "\<And>x r. x \<in> set xs \<Longrightarrow> at_ws r \<Longrightarrow> rd (pr x @ r) = Some (x, r)"
    and "\<And>c r. is_ws c \<Longrightarrow> rd (c # r) = rd r" and "at_ws r"
  shows "read_many rd (length xs) (concat (map (\<lambda>x. NL @ pr x) xs) @ r) = Some (xs, r)"
  using assms(1)
proof (induction xs)
  case (Cons x xs)
  have "at_ws (concat (map (\<lambda>x. NL @ pr x) xs) @ r)" using assms(3) by (cases xs) auto
  then have "rd (pr x @ concat (map (\<lambda>x. NL @ pr x) xs) @ r) = Some (x, concat (map (\<lambda>x. NL @ pr x) xs) @ r)"
    using Cons.prems by simp
  then show ?case using Cons assms(2) by simp
qed simp

lemma read_print_IndexMeta:
  assumes "IndexMeta_ok ix" "at_ws r" shows "read_IndexMeta (print_IndexMeta ix @ r) = Some (ix, r)"
proof -
  have m: "read_many read_ColMeta (length (ix_cols ix)) (concat (map (\<lambda>c. NL @ print_ColMeta c) (ix_cols ix)) @ r) =
      Some (ix_cols ix, r)"
    by (rule read_many_before) (use assms in \<open>auto simp: IndexMeta_ok_def list_all_iff read_print_ColMeta\<close>)
  have w: "at_ws (concat (map (\<lambda>c. NL @ print_ColMeta c) (ix_cols ix)) @ r)" using assms(2) by (cases "ix_cols ix") auto
  have n: "in_i32 (int (length (ix_cols ix)))" "col_num ix = int (length (ix_cols ix))"
    using assms(1) by (auto simp: IndexMeta_ok_def)
  show ?thesis
    using assms(1) m w n
    by (simp add: read_IndexMeta_def print_IndexMeta_def IndexMeta_ok_def read_string_word read_int_of)
qed

lemma read_print_TabMeta:
  assumes "TabMeta_ok t"
  shows "\<exists>r'. read_TabMeta (print_TabMeta t @ r) = Some (t, r') \<and> (r' = r \<or> r' = CHR 0x0A # r)"
proof -
  let ?ci = "concat (map (\<lambda>ix. print_IndexMeta ix @ NL) (indexes t)) @ r"
  let ?n = "int_to_string (int (length (indexes t))) @ NL @ ?ci"
  obtain r1 where r1: "read_many read_ColMeta (length (cols t)) (concat (map (\<lambda>c. print_ColMeta c @ NL) (cols t)) @ ?n) =
      Some (cols t, r1)" "r1 = ?n \<or> r1 = CHR 0x0A # ?n"
    using read_many_after [of "cols t" read_ColMeta print_ColMeta ?n] assms
    by (auto simp: TabMeta_ok_def list_all_iff read_print_ColMeta split: if_splits)
  obtain r2 where r2: "read_many read_IndexMeta (length (indexes t)) ?ci = Some (indexes t, r2)" "r2 = r \<or> r2 = CHR 0x0A # r"
    using read_many_after [of "indexes t" read_IndexMeta print_IndexMeta r] assms
    by (auto simp: TabMeta_ok_def list_all_iff read_print_IndexMeta split: if_splits)
  have k: "read_size r1 = Some (length (indexes t), NL @ ?ci)"
    using r1(2) assms read_size_of [of "length (indexes t)" "NL @ ?ci"] by (auto simp: TabMeta_ok_def)
  have r2': "\<exists>r'. read_many read_IndexMeta (length (indexes t)) (NL @ ?ci) = Some (indexes t, r') \<and> (r' = r \<or> r' = CHR 0x0A # r)"
    using r2 by (cases "indexes t") auto
  have "read_size (NL @ int_to_string (int (length (cols t))) @ NL @ concat (map (\<lambda>c. print_ColMeta c @ NL) (cols t)) @ ?n) =
      Some (length (cols t), NL @ concat (map (\<lambda>c. print_ColMeta c @ NL) (cols t)) @ ?n)"
    using assms by (simp add: TabMeta_ok_def read_size_of)
  moreover have "\<exists>r'. read_many read_ColMeta (length (cols t)) (NL @ concat (map (\<lambda>c. print_ColMeta c @ NL) (cols t)) @ ?n) =
      Some (cols t, r') \<and> read_size r' = Some (length (indexes t), NL @ ?ci)"
    using r1 k by (cases "cols t") auto
  ultimately show ?thesis
    using r2' assms by (auto simp: read_TabMeta_def print_TabMeta_def TabMeta_ok_def read_string_word)
qed

lemma read_many_tables:
  assumes "list_all TabMeta_ok ts"
  shows "\<exists>r'. read_many read_TabMeta (length ts) (concat (map (\<lambda>t. print_TabMeta t @ NL) ts) @ r) = Some (ts, r')"
  using assms
proof (induction ts arbitrary: r)
  case (Cons t ts)
  let ?rest = "concat (map (\<lambda>t. print_TabMeta t @ NL) ts) @ r"
  obtain r1 where r1: "read_TabMeta (print_TabMeta t @ NL @ ?rest) = Some (t, r1)"
      "r1 = NL @ ?rest \<or> r1 = CHR 0x0A # NL @ ?rest"
    using read_print_TabMeta [of t "NL @ ?rest"] Cons.prems by auto
  obtain r' where r': "read_many read_TabMeta (length ts) ?rest = Some (ts, r')" using Cons by auto
  have "\<exists>r'. read_many read_TabMeta (length ts) r1 = Some (ts, r')" using r1(2) r' by (cases ts) auto
  then show ?case using r1(1) by auto
qed simp

lemma map_put_last:
  "(\<And>x. x \<in> fst ` set m \<Longrightarrow> x < k) \<Longrightarrow> map_put k v m = m @ [(k, v)]"
proof (induction m)
  case (Cons e m)
  have "fst e < k" using Cons.prems by simp
  then have "\<not> k < fst e" "k \<noteq> fst e" by auto
  then show ?case using Cons by (cases e) simp
qed simp

lemma rebuild_map:
  assumes "sorted_wrt (<) (map tab_name (us @ ts))"
  shows "foldl (\<lambda>m t. map_put (tab_name t) t m) (map (\<lambda>t. (tab_name t, t)) us) ts = map (\<lambda>t. (tab_name t, t)) (us @ ts)"
  using assms
proof (induction ts arbitrary: us)
  case (Cons t ts)
  have "map_put (tab_name t) t (map (\<lambda>t. (tab_name t, t)) us) = map (\<lambda>t. (tab_name t, t)) us @ [(tab_name t, t)]"
    by (rule map_put_last) (use Cons.prems in \<open>auto simp: sorted_wrt_append\<close>)
  then show ?case using Cons.IH [of "us @ [t]"] Cons.prems by simp
qed simp

text \<open>
  C25. The catalogue file round-trips: reading what was written for a database gives the database back,
  tables, columns and indexes included, whenever its names are not empty and without white space and its
  numbers fit their types.
\<close>

theorem db_meta_roundtrip:
  assumes "DbMeta_ok db"
  shows "\<exists>r. read_DbMeta \<lparr>db_name = [], tabs = []\<rparr> (print_DbMeta db) = Some (db, r)"
proof -
  let ?ts = "map snd (tabs db)"
  have ok: "list_all TabMeta_ok ?ts" and ks: "tabs db = map (\<lambda>t. (tab_name t, t)) ?ts"
    using assms by (auto simp: DbMeta_ok_def list_all_iff intro!: map_idI [symmetric] prod_eqI)
  then have "map fst (tabs db) = map tab_name ?ts" using assms by (auto simp: DbMeta_ok_def list_all_iff)
  then have "sorted_wrt (<) (map tab_name ([] @ ?ts))" using assms by (simp only: DbMeta_ok_def append_Nil)
  from rebuild_map [OF this] have b: "foldl (\<lambda>m t. map_put (tab_name t) t m) [] ?ts = tabs db"
    unfolding append_Nil list.map(1) ks [symmetric] .
  obtain r where r: "read_many read_TabMeta (length ?ts) (concat (map (\<lambda>t. print_TabMeta t @ NL) ?ts) @ []) = Some (?ts, r)"
    using read_many_tables [OF ok] by blast
  let ?c = "concat (map (\<lambda>e. print_TabMeta (snd e) @ NL) (tabs db))"
  have c: "\<exists>r. read_many read_TabMeta (length (tabs db)) (NL @ ?c) = Some (?ts, r)"
    using r by (cases "tabs db") (auto simp: comp_def)
  have "read_size (NL @ int_to_string (int (length (tabs db))) @ NL @ ?c) = Some (length (tabs db), NL @ ?c)"
    using assms by (simp add: DbMeta_ok_def read_size_of)
  then show ?thesis
    using c b assms by (auto simp: read_DbMeta_def print_DbMeta_def DbMeta_ok_def read_string_word)
qed

definition sample_db :: DbMeta where
  "sample_db =
     (let a = \<lparr>col_tab_name = ''t'', col_name = ''a'', col_type = TYPE_INT, col_len = 4, col_offset = 0, col_index = True\<rparr>;
          b = \<lparr>col_tab_name = ''t'', col_name = ''b'', col_type = TYPE_STRING, col_len = 8, col_offset = 4, col_index = False\<rparr>
      in \<lparr>db_name = ''d'',
          tabs = [(''t'', \<lparr>tab_name = ''t'', cols = [a, b],
                           indexes = [\<lparr>ix_tab_name = ''t'', col_tot_len = 4, col_num = 1, ix_cols = [a]\<rparr>]\<rparr>)]\<rparr>)"

theorem db_meta_roundtrip_witness:
  "\<exists>r. read_DbMeta \<lparr>db_name = [], tabs = []\<rparr> (print_DbMeta sample_db) = Some (sample_db, r)"
  by (rule db_meta_roundtrip)
    (simp add: sample_db_def Let_def DbMeta_ok_def TabMeta_ok_def IndexMeta_ok_def ColMeta_ok_def word_ok_def is_ws_def in_i32_def)

end
