(* ===== verification/Bytes.thy ===== *)
theory Bytes
  imports Prelude
begin

text \<open>
  Byte ranges and little-endian integers: the effect of \<^verbatim>\<open>memcpy\<close> into a buffer at an offset, of
  reading a range of a buffer, and of storing and loading an \<^verbatim>\<open>int\<close>, \<^verbatim>\<open>uint32_t\<close>, \<^verbatim>\<open>int64_t\<close> or
  \<^verbatim>\<open>size_t\<close> through a reinterpreted pointer on a little-endian machine. The lemmas give the
  store/load laws that the page layouts and the log records rest on.
\<close>

section \<open>Definitions\<close>

text \<open>\<^verbatim>\<open>memcpy(dest + off, src, src_len)\<close>; in C the range must lie inside \<open>dest\<close>.\<close>

definition put_bytes :: "bytes \<Rightarrow> nat \<Rightarrow> bytes \<Rightarrow> bytes" where
  "put_bytes dest off src = take off dest @ src @ drop (off + length src) dest"

definition get_bytes :: "bytes \<Rightarrow> nat \<Rightarrow> nat \<Rightarrow> bytes" where
  "get_bytes src off n = take n (drop off src)"

primrec le_bytes :: "nat \<Rightarrow> int \<Rightarrow> bytes" where
  "le_bytes 0 x = []"
| "le_bytes (Suc n) x = word_of_int (x mod 256) # le_bytes n (x div 256)"

primrec le_uint :: "bytes \<Rightarrow> int" where
  "le_uint [] = 0"
| "le_uint (b # bs) = uint b + 256 * le_uint bs"

definition le_sint :: "bytes \<Rightarrow> int" where
  "le_sint bs = (if le_uint bs < 2 ^ (8 * length bs - 1) then le_uint bs
                 else le_uint bs - 2 ^ (8 * length bs))"

definition get_i32 :: "bytes \<Rightarrow> nat \<Rightarrow> int" where
  "get_i32 src off = le_sint (get_bytes src off 4)"

definition put_i32 :: "bytes \<Rightarrow> nat \<Rightarrow> int \<Rightarrow> bytes" where
  "put_i32 dest off x = put_bytes dest off (le_bytes 4 x)"

section \<open>Ranges\<close>

lemma length_put_bytes [simp]:
  "off + length src \<le> length dest \<Longrightarrow> length (put_bytes dest off src) = length dest"
  by (simp add: put_bytes_def)

lemma length_get_bytes [simp]:
  "off + n \<le> length src \<Longrightarrow> length (get_bytes src off n) = n"
  by (simp add: get_bytes_def)

lemma get_put_same [bytes_simps]:
  "off \<le> length dest \<Longrightarrow> get_bytes (put_bytes dest off src) off (length src) = src"
  by (simp add: get_bytes_def put_bytes_def)

lemma get_put_same_len:
  "off \<le> length dest \<Longrightarrow> n = length src \<Longrightarrow> get_bytes (put_bytes dest off src) off n = src"
  by (simp add: get_put_same)

lemma get_put_before:
  "a + n \<le> off \<Longrightarrow> off \<le> length dest \<Longrightarrow> get_bytes (put_bytes dest off src) a n = get_bytes dest a n"
  by (simp add: get_bytes_def put_bytes_def drop_take min_absorb1 min_absorb2)

lemma get_put_after:
  "off + length src \<le> a \<Longrightarrow> off + length src \<le> length dest \<Longrightarrow>
   get_bytes (put_bytes dest off src) a n = get_bytes dest a n"
  by (simp add: get_bytes_def put_bytes_def)

lemma get_put_disjoint:
  assumes "a + n \<le> off \<or> off + length src \<le> a" and "off + length src \<le> length dest"
  shows "get_bytes (put_bytes dest off src) a n = get_bytes dest a n"
  using assms get_put_before get_put_after by (metis add_leD1)

lemma put_put_adjacent:
  assumes "off + length a \<le> length d"
  shows "put_bytes (put_bytes d off a) (off + length a) b = put_bytes d off (a @ b)"
  using assms by (simp add: put_bytes_def add.assoc add.commute add.left_commute)

lemma put_bytes_nth_out:
  assumes "i < off \<or> off + length src \<le> i" and "off + length src \<le> length dest" and "i < length dest"
  shows "put_bytes dest off src ! i = dest ! i"
  using assms by (auto simp: put_bytes_def nth_append min_def)

lemma put_bytes_full: "length src = length dest \<Longrightarrow> put_bytes dest 0 src = src"
  by (simp add: put_bytes_def)

lemma get_bytes_append1: "off + n \<le> length xs \<Longrightarrow> get_bytes (xs @ ys) off n = get_bytes xs off n"
  by (simp add: get_bytes_def)

lemma get_bytes_append2:
  "length xs \<le> off \<Longrightarrow> get_bytes (xs @ ys) off n = get_bytes ys (off - length xs) n"
  by (simp add: get_bytes_def)

lemma get_bytes_0_all: "n = length xs \<Longrightarrow> get_bytes xs 0 n = xs"
  by (simp add: get_bytes_def)

lemma get_bytes_drop: "get_bytes (drop k xs) off n = get_bytes xs (k + off) n"
  by (simp add: get_bytes_def add.commute)

lemma get_bytes_take: "off + n \<le> k \<Longrightarrow> get_bytes (take k xs) off n = get_bytes xs off n"
  by (simp add: get_bytes_def drop_take min_absorb1)

section \<open>Little-endian integers\<close>

lemma length_le_bytes [simp]: "length (le_bytes n x) = n"
  by (induction n arbitrary: x) auto

lemma uint_byte_mod: "uint (word_of_int (x mod 256) :: byte) = x mod 256"
  by (simp add: uint_word_of_int)

lemma le_uint_nonneg: "0 \<le> le_uint bs"
  by (induction bs) auto

lemma le_uint_bound: "le_uint bs < 2 ^ (8 * length bs)"
proof (induction bs)
  case Nil
  show ?case by simp
next
  case (Cons b bs)
  have "uint b < 256" using uint_lt2p [of b] by simp
  moreover have "le_uint bs + 1 \<le> 2 ^ (8 * length bs)" using Cons.IH by simp
  ultimately have "uint b + 256 * le_uint bs < 256 * 2 ^ (8 * length bs)" by linarith
  then show ?case by (simp add: power_add)
qed

lemma le_uint_le_bytes: "le_uint (le_bytes n x) = x mod 2 ^ (8 * n)"
proof (induction n arbitrary: x)
  case 0
  show ?case by simp
next
  case (Suc n)
  have "le_uint (le_bytes (Suc n) x) = x mod 256 + 256 * (x div 256 mod 2 ^ (8 * n))"
    by (simp add: Suc.IH uint_byte_mod)
  also have "\<dots> = x mod (256 * 2 ^ (8 * n))"
    by (simp add: zmod_zmult2_eq)
  finally show ?case by (simp add: power_add)
qed

lemma le_uint_le_bytes_id: "0 \<le> x \<Longrightarrow> x < 2 ^ (8 * n) \<Longrightarrow> le_uint (le_bytes n x) = x"
  by (simp add: le_uint_le_bytes)

lemma le_sint_le_bytes:
  assumes "0 < n" and "- (2 ^ (8 * n - 1)) \<le> x" and "x < 2 ^ (8 * n - 1)"
  shows "le_sint (le_bytes n x) = x"
proof -
  have p: "(2::int) ^ (8 * n) = 2 * 2 ^ (8 * n - 1)"
    using assms(1) by (metis nat_0_less_mult_iff power_eq_if zero_less_numeral neq0_conv)
  show ?thesis
  proof (cases "0 \<le> x")
    case True
    then have "x mod 2 ^ (8 * n) = x" using assms(3) p by simp
    then show ?thesis using assms(3) by (simp add: le_sint_def le_uint_le_bytes)
  next
    case False
    then have "x mod 2 ^ (8 * n) = x + 2 ^ (8 * n)"
      using assms(2) p by (subst mod_add_self2 [symmetric]) (rule mod_pos_pos_trivial, auto)
    then show ?thesis using assms(2) p by (simp add: le_sint_def le_uint_le_bytes)
  qed
qed

lemma le_sint4: "in_i32 x \<Longrightarrow> le_sint (le_bytes 4 x) = x"
  by (rule le_sint_le_bytes) (auto simp: in_i32_def)

lemma le_sint8: "in_i64 x \<Longrightarrow> le_sint (le_bytes 8 x) = x"
  by (rule le_sint_le_bytes) (auto simp: in_i64_def)

lemma get_put_i32 [bytes_simps]:
  "in_i32 x \<Longrightarrow> off + 4 \<le> length d \<Longrightarrow> get_i32 (put_i32 d off x) off = x"
  by (simp add: get_i32_def put_i32_def get_put_same_len le_sint4)

lemma length_put_i32 [simp]: "off + 4 \<le> length d \<Longrightarrow> length (put_i32 d off x) = length d"
  by (simp add: put_i32_def)

lemma get_i32_put_disjoint:
  assumes "a + 4 \<le> off \<or> off + length src \<le> a" and "off + length src \<le> length d"
  shows "get_i32 (put_bytes d off src) a = get_i32 d a"
  using get_put_disjoint [OF assms] by (simp add: get_i32_def)

lemma get_i32_put_i32_disjoint:
  assumes "a + 4 \<le> off \<or> off + 4 \<le> a" and "off + 4 \<le> length d"
  shows "get_i32 (put_i32 d off x) a = get_i32 d a"
  using get_i32_put_disjoint [of a off "le_bytes 4 x" d] assms by (simp add: put_i32_def)

lemma get_bytes_put_i32_disjoint:
  assumes "a + n \<le> off \<or> off + 4 \<le> a" and "off + 4 \<le> length d"
  shows "get_bytes (put_i32 d off x) a n = get_bytes d a n"
  using get_put_disjoint [of a n off "le_bytes 4 x" d] assms by (simp add: put_i32_def)

end
