(* ===== verification/Conditions.thy ===== *)
theory Conditions
  imports Sm_Meta Bytes
begin

text \<open>
  Values and conditions of SQL statements: \<^verbatim>\<open>src/src/common/common.h\<close>, and the two functions that decide
  whether a record satisfies a list of conditions, \<^verbatim>\<open>eval_conds\<close> of
  \<^verbatim>\<open>src/src/execution/execution_common.h\<close> for the executors and \<^verbatim>\<open>eval_txn_conds\<close> of
  \<^verbatim>\<open>src/src/transaction/transaction_manager.cpp\<close> for conflict detection.

  The union of \<^verbatim>\<open>int_val\<close> and \<^verbatim>\<open>float_val\<close> is its 32 bits, read as a signed integer or as an IEEE
  single-precision number; strings are bytes, compared as \<^verbatim>\<open>std::string\<close> does. A record is the bytes of its
  columns, and a column lies inside the record.
\<close>

unbundle bit_operations_syntax

section \<open>Floating point numbers\<close>

text \<open>
  Comparisons of IEEE 754 single-precision numbers: a number that is not a NaN is compared by sign and
  magnitude, both zeros being equal; every comparison with a NaN but \<^verbatim>\<open>!=\<close> is false.
\<close>

type_synonym float32 = "32 word"

definition float_key :: "float32 \<Rightarrow> int option" where
  "float_key x =
     (let mag = uint (take_bit 31 x) in
      if mag > 0x7F800000 then None else Some (if bit x 31 then - mag else mag))"

definition float_rel :: "(int \<Rightarrow> int \<Rightarrow> bool) \<Rightarrow> float32 \<Rightarrow> float32 \<Rightarrow> bool" where
  "float_rel R x y = (case (float_key x, float_key y) of (Some a, Some b) \<Rightarrow> R a b | _ \<Rightarrow> False)"

definition float_eq :: "float32 \<Rightarrow> float32 \<Rightarrow> bool" where "float_eq = float_rel (=)"
definition float_lt :: "float32 \<Rightarrow> float32 \<Rightarrow> bool" where "float_lt = float_rel (<)"
definition float_le :: "float32 \<Rightarrow> float32 \<Rightarrow> bool" where "float_le = float_rel (\<le>)"

section \<open>common.h\<close>

record TabCol =
  tc_tab_name :: string
  tc_col_name :: string
  tab_alias :: string

definition get_disp_tab :: "TabCol \<Rightarrow> string" where
  "get_disp_tab c = (if tab_alias c = [] then tc_tab_name c else tab_alias c)"

definition TabCol_to_string :: "TabCol \<Rightarrow> string" where
  "TabCol_to_string c = get_disp_tab c @ ''.'' @ tc_col_name c"

record Value =
  val_type :: ColType
  num_bits :: "32 word"
  str_val :: bytes
  raw :: "bytes option"

definition int_val :: "Value \<Rightarrow> int" where "int_val v = sint (num_bits v)"
definition float_val :: "Value \<Rightarrow> float32" where "float_val v = num_bits v"

definition set_int :: "int \<Rightarrow> Value \<Rightarrow> Value" where
  "set_int i v = v\<lparr>val_type := TYPE_INT, num_bits := word_of_int i\<rparr>"

definition set_float :: "float32 \<Rightarrow> Value \<Rightarrow> Value" where
  "set_float x v = v\<lparr>val_type := TYPE_FLOAT, num_bits := x\<rparr>"

definition set_str :: "bytes \<Rightarrow> Value \<Rightarrow> Value" where
  "set_str x v = v\<lparr>val_type := TYPE_STRING, str_val := x\<rparr>"

definition init_raw :: "nat \<Rightarrow> Value \<Rightarrow> Value result" where
  "init_raw n v =
     (if raw v \<noteq> None then Throw AssertionFailure
      else case val_type v of
          TYPE_INT \<Rightarrow> (if n = 4 then Ret (v\<lparr>raw := Some (le_bytes 4 (int_val v))\<rparr>) else Throw AssertionFailure)
        | TYPE_FLOAT \<Rightarrow> (if n = 4 then Ret (v\<lparr>raw := Some (le_bytes 4 (uint (float_val v)))\<rparr>) else Throw AssertionFailure)
        | TYPE_STRING \<Rightarrow>
            (if n < length (str_val v) then Throw StringOverflowError
             else Ret (v\<lparr>raw := Some (put_bytes (replicate n 0) 0 (str_val v))\<rparr>)))"

datatype CompOp = OP_EQ | OP_NE | OP_LT | OP_GT | OP_LE | OP_GE

fun op_to_string :: "CompOp \<Rightarrow> string" where
  "op_to_string OP_EQ = ''=''"
| "op_to_string OP_NE = ''!=''"
| "op_to_string OP_LT = ''<''"
| "op_to_string OP_GT = ''>''"
| "op_to_string OP_LE = ''<=''"
| "op_to_string OP_GE = ''>=''"

record Condition =
  lhs_col :: TabCol
  cond_op :: CompOp
  is_rhs_val :: bool
  rhs_col :: TabCol
  rhs_val :: Value
  rhs_raw :: string

section \<open>execution\_common.h\<close>

text \<open>Reading a column: \<^verbatim>\<open>*(const int *)p\<close>, \<^verbatim>\<open>*(const float *)p\<close>, and a string cut at its first zero byte.\<close>

definition read_float :: "bytes \<Rightarrow> nat \<Rightarrow> float32" where
  "read_float d off = word_of_int (le_uint (get_bytes d off 4))"

definition c_str :: "bytes \<Rightarrow> bytes" where
  "c_str b = takeWhile (\<lambda>x. x \<noteq> 0) b"

definition find_meta :: "ColMeta list \<Rightarrow> TabCol \<Rightarrow> ColMeta option" where
  "find_meta cs c = find (\<lambda>m. col_tab_name m = tc_tab_name c \<and> col_name m = tc_col_name c) cs"

definition off_of :: "ColMeta \<Rightarrow> nat" where "off_of m = nat (col_offset m)"
definition len_of :: "ColMeta \<Rightarrow> nat" where "len_of m = nat (col_len m)"

fun holds_int :: "CompOp \<Rightarrow> int \<Rightarrow> int \<Rightarrow> bool" where
  "holds_int OP_EQ x y = (x = y)"
| "holds_int OP_NE x y = (x \<noteq> y)"
| "holds_int OP_LT x y = (x < y)"
| "holds_int OP_GT x y = (x > y)"
| "holds_int OP_LE x y = (x \<le> y)"
| "holds_int OP_GE x y = (x \<ge> y)"

fun holds_float :: "CompOp \<Rightarrow> float32 \<Rightarrow> float32 \<Rightarrow> bool" where
  "holds_float OP_EQ x y = float_eq x y"
| "holds_float OP_NE x y = (\<not> float_eq x y)"
| "holds_float OP_LT x y = float_lt x y"
| "holds_float OP_GT x y = float_lt y x"
| "holds_float OP_LE x y = float_le x y"
| "holds_float OP_GE x y = float_le y x"

fun holds_str :: "CompOp \<Rightarrow> bytes \<Rightarrow> bytes \<Rightarrow> bool" where
  "holds_str OP_EQ x y = (x = y)"
| "holds_str OP_NE x y = (x \<noteq> y)"
| "holds_str OP_LT x y = (x < y)"
| "holds_str OP_GT x y = (x > y)"
| "holds_str OP_LE x y = (x \<le> y)"
| "holds_str OP_GE x y = (x \<ge> y)"

fun eval_conds :: "bytes \<Rightarrow> ColMeta list \<Rightarrow> Condition list \<Rightarrow> bool" where
  "eval_conds rec_data cs [] = True"
| "eval_conds rec_data cs (cond # conds) =
     (case find_meta cs (lhs_col cond) of
        None \<Rightarrow> False
      | Some lhs_meta \<Rightarrow>
          if is_rhs_val cond then
            (case col_type lhs_meta of
               TYPE_INT \<Rightarrow>
                 if \<not> holds_int (cond_op cond) (get_i32 rec_data (off_of lhs_meta)) (int_val (rhs_val cond)) then False
                 else eval_conds rec_data cs conds
             | TYPE_FLOAT \<Rightarrow>
                 if \<not> holds_float (cond_op cond) (read_float rec_data (off_of lhs_meta)) (float_val (rhs_val cond)) then False
                 else eval_conds rec_data cs conds
             | TYPE_STRING \<Rightarrow>
                 if \<not> holds_str (cond_op cond) (c_str (get_bytes rec_data (off_of lhs_meta) (len_of lhs_meta)))
                       (str_val (rhs_val cond)) then False
                 else eval_conds rec_data cs conds)
          else
            (case find_meta cs (rhs_col cond) of
               None \<Rightarrow> False
             | Some rhs_meta \<Rightarrow>
                 (case col_type lhs_meta of
                    TYPE_INT \<Rightarrow>
                      if \<not> holds_int (cond_op cond) (get_i32 rec_data (off_of lhs_meta)) (get_i32 rec_data (off_of rhs_meta))
                      then False else eval_conds rec_data cs conds
                  | TYPE_FLOAT \<Rightarrow>
                      if \<not> holds_float (cond_op cond) (read_float rec_data (off_of lhs_meta))
                            (read_float rec_data (off_of rhs_meta))
                      then False else eval_conds rec_data cs conds
                  | TYPE_STRING \<Rightarrow>
                      if \<not> holds_str (cond_op cond) (c_str (get_bytes rec_data (off_of lhs_meta) (len_of lhs_meta)))
                            (c_str (get_bytes rec_data (off_of rhs_meta) (len_of rhs_meta)))
                      then False else eval_conds rec_data cs conds)))"

section \<open>transaction\_manager.cpp\<close>

text \<open>The three comparison functions of \<open>eval_txn_conds\<close> and its loop.\<close>

definition compare_int :: "CompOp \<Rightarrow> int \<Rightarrow> int \<Rightarrow> bool" where
  "compare_int op lhs rhs =
     (case op of OP_EQ \<Rightarrow> lhs = rhs | OP_NE \<Rightarrow> lhs \<noteq> rhs | OP_LT \<Rightarrow> lhs < rhs | OP_GT \<Rightarrow> lhs > rhs
      | OP_LE \<Rightarrow> lhs \<le> rhs | OP_GE \<Rightarrow> lhs \<ge> rhs)"

definition compare_float :: "CompOp \<Rightarrow> float32 \<Rightarrow> float32 \<Rightarrow> bool" where
  "compare_float op lhs rhs =
     (case op of OP_EQ \<Rightarrow> float_eq lhs rhs | OP_NE \<Rightarrow> \<not> float_eq lhs rhs | OP_LT \<Rightarrow> float_lt lhs rhs
      | OP_GT \<Rightarrow> float_lt rhs lhs | OP_LE \<Rightarrow> float_le lhs rhs | OP_GE \<Rightarrow> float_le rhs lhs)"

definition compare_string :: "CompOp \<Rightarrow> bytes \<Rightarrow> bytes \<Rightarrow> bool" where
  "compare_string op lhs rhs =
     (case op of OP_EQ \<Rightarrow> lhs = rhs | OP_NE \<Rightarrow> lhs \<noteq> rhs | OP_LT \<Rightarrow> lhs < rhs | OP_GT \<Rightarrow> lhs > rhs
      | OP_LE \<Rightarrow> lhs \<le> rhs | OP_GE \<Rightarrow> lhs \<ge> rhs)"

definition txn_cond :: "bytes \<Rightarrow> ColMeta list \<Rightarrow> Condition \<Rightarrow> bool" where
  "txn_cond rec_data cs cond =
     (case find_meta cs (lhs_col cond) of
        None \<Rightarrow> False
      | Some lhs_meta \<Rightarrow>
          if is_rhs_val cond then
            (if col_type lhs_meta = TYPE_INT
             then compare_int (cond_op cond) (get_i32 rec_data (off_of lhs_meta)) (int_val (rhs_val cond))
             else if col_type lhs_meta = TYPE_FLOAT
             then compare_float (cond_op cond) (read_float rec_data (off_of lhs_meta)) (float_val (rhs_val cond))
             else compare_string (cond_op cond) (c_str (get_bytes rec_data (off_of lhs_meta) (len_of lhs_meta)))
                    (str_val (rhs_val cond)))
          else
            (case find_meta cs (rhs_col cond) of
               None \<Rightarrow> False
             | Some rhs_meta \<Rightarrow>
                 if col_type lhs_meta = TYPE_INT
                 then compare_int (cond_op cond) (get_i32 rec_data (off_of lhs_meta)) (get_i32 rec_data (off_of rhs_meta))
                 else if col_type lhs_meta = TYPE_FLOAT
                 then compare_float (cond_op cond) (read_float rec_data (off_of lhs_meta)) (read_float rec_data (off_of rhs_meta))
                 else compare_string (cond_op cond) (c_str (get_bytes rec_data (off_of lhs_meta) (len_of lhs_meta)))
                        (c_str (get_bytes rec_data (off_of rhs_meta) (len_of rhs_meta)))))"

definition eval_txn_conds :: "bytes \<Rightarrow> ColMeta list \<Rightarrow> Condition list \<Rightarrow> bool" where
  "eval_txn_conds rec_data cs conds = list_all (txn_cond rec_data cs) conds"

section \<open>Properties\<close>

lemma compare_eq:
  "compare_int op x y = holds_int op x y" "compare_float op u v = holds_float op u v"
  "compare_string op a b = holds_str op a b"
  by (cases op; simp add: compare_int_def compare_float_def compare_string_def)+

lemma eval_conds_Cons: "eval_conds d cs (c # conds) \<longleftrightarrow> txn_cond d cs c \<and> eval_conds d cs conds"
proof (cases "find_meta cs (lhs_col c)")
  case (Some m)
  then show ?thesis
    by (cases "col_type m"; cases "find_meta cs (rhs_col c)") (simp_all add: txn_cond_def compare_eq)
qed (simp add: txn_cond_def)

text \<open>
  C36. The executors and the conflict detection evaluate predicates alike: \<open>eval_txn_conds\<close> accepts
  exactly the records that \<open>eval_conds\<close> accepts, for all columns, conditions and record contents.
\<close>

theorem eval_txn_conds_eq: "eval_txn_conds rec_data cs conds = eval_conds rec_data cs conds"
proof (induction conds)
  case (Cons c conds)
  then show ?case unfolding eval_conds_Cons by (simp add: eval_txn_conds_def)
qed (simp add: eval_txn_conds_def)

text \<open>Reading back the bytes of an initialised value.\<close>

lemma get_i32_raw: "get_i32 (le_bytes 4 (sint (w :: 32 word))) 0 = sint w"
proof -
  have "in_i32 (sint w)" using sint_lt [of w] sint_ge [of w] by (simp add: in_i32_def)
  then show ?thesis by (simp add: get_i32_def get_bytes_def le_sint4)
qed

lemma read_float_raw: "read_float (le_bytes 4 (uint (w :: 32 word))) 0 = w"
proof -
  have "uint w < 2 ^ (8 * 4)" "0 \<le> uint w" using uint_lt2p [of w] by simp_all
  then have "le_uint (le_bytes 4 (uint w)) = uint w" using le_uint_le_bytes_id by blast
  then show ?thesis by (simp add: read_float_def get_bytes_def)
qed

lemma c_str_pad: "\<forall>x \<in> set s. x \<noteq> 0 \<Longrightarrow> c_str (s @ replicate n 0) = s"
  by (induction s) (auto simp: c_str_def takeWhile_eq_Nil_iff)

definition nan :: "float32 \<Rightarrow> bool" where "nan x \<longleftrightarrow> float_key x = None"

text \<open>
  C37. A value stored into a column satisfies the equality condition on that value: for a value of the
  type of the column that is no NaN and, if a string, has no zero byte and fits, a record with
  the bytes of \<open>init_raw\<close> at the offset of the column passes \<open>col = value\<close>.
\<close>

theorem stored_value_equal:
  assumes "init_raw (len_of m) v = Ret v'" and "raw v' = Some b" and "val_type v = col_type m"
    and "find_meta cs c = Some m" and "off_of m + len_of m \<le> length d"
    and "\<not> (col_type m = TYPE_FLOAT \<and> nan (float_val v))" and "\<not> (col_type m = TYPE_STRING \<and> 0 \<in> set (str_val v))"
  shows "eval_conds (put_bytes d (off_of m) b) cs
    [\<lparr>lhs_col = c, cond_op = OP_EQ, is_rhs_val = True, rhs_col = c, rhs_val = v, rhs_raw = w\<rparr>]"
proof -
  have n: "raw v = None" using assms(1) by (auto simp: init_raw_def split: if_splits)
  have len: "length b = len_of m"
    using assms(1,2) n by (auto simp: init_raw_def put_bytes_def split: ColType.splits if_splits)
  have g: "get_bytes (put_bytes d (off_of m) b) (off_of m) (len_of m) = b"
    by (rule get_put_same_len) (use assms(5) len in simp_all)
  show ?thesis
  proof (cases "col_type m")
    case TYPE_INT
    then have "len_of m = 4" "b = le_bytes 4 (int_val v)"
      using assms(1-3) n by (auto simp: init_raw_def split: if_splits)
    with g have "get_i32 (put_bytes d (off_of m) b) (off_of m) = int_val v"
      using get_i32_raw [of "num_bits v"] by (simp add: get_i32_def int_val_def get_bytes_def)
    then show ?thesis using assms(4) TYPE_INT by simp
  next
    case TYPE_FLOAT
    then have "len_of m = 4" "b = le_bytes 4 (uint (float_val v))"
      using assms(1-3) n by (auto simp: init_raw_def split: if_splits)
    with g have "read_float (put_bytes d (off_of m) b) (off_of m) = float_val v"
      using read_float_raw [of "float_val v"] by (simp add: read_float_def get_bytes_def)
    then show ?thesis using assms(4,6) TYPE_FLOAT by (auto simp: float_eq_def float_rel_def nan_def)
  next
    case TYPE_STRING
    then have "length (str_val v) \<le> len_of m" "b = str_val v @ replicate (len_of m - length (str_val v)) 0"
      using assms(1-3) n by (auto simp: init_raw_def put_bytes_def split: if_splits)
    with g have "c_str (get_bytes (put_bytes d (off_of m) b) (off_of m) (len_of m)) = str_val v"
      using c_str_pad [of "str_val v"] assms(7) TYPE_STRING by fastforce
    then show ?thesis using assms(4) TYPE_STRING by simp
  qed
qed

theorem stored_value_equal_witness:
  "eval_conds (put_bytes (replicate 8 0) 4 (le_bytes 4 (-5)))
     [\<lparr>col_tab_name = ''t'', col_name = ''a'', col_type = TYPE_INT, col_len = 4, col_offset = 4, col_index = False\<rparr>]
     [\<lparr>lhs_col = \<lparr>tc_tab_name = ''t'', tc_col_name = ''a'', tab_alias = []\<rparr>, cond_op = OP_EQ, is_rhs_val = True,
       rhs_col = \<lparr>tc_tab_name = ''t'', tc_col_name = ''a'', tab_alias = []\<rparr>,
       rhs_val = \<lparr>val_type = TYPE_INT, num_bits = -5, str_val = [], raw = None\<rparr>, rhs_raw = ''-5''\<rparr>]"
  using stored_value_equal
    [of "\<lparr>col_tab_name = ''t'', col_name = ''a'', col_type = TYPE_INT, col_len = 4, col_offset = 4, col_index = False\<rparr>"
        "\<lparr>val_type = TYPE_INT, num_bits = -5, str_val = [], raw = None\<rparr>"
        "\<lparr>val_type = TYPE_INT, num_bits = -5, str_val = [], raw = Some (le_bytes 4 (-5))\<rparr>" "le_bytes 4 (-5)"
        "[\<lparr>col_tab_name = ''t'', col_name = ''a'', col_type = TYPE_INT, col_len = 4, col_offset = 4, col_index = False\<rparr>]"
        "\<lparr>tc_tab_name = ''t'', tc_col_name = ''a'', tab_alias = []\<rparr>" "replicate 8 0" "''-5''"]
  by (simp add: init_raw_def int_val_def len_of_def off_of_def find_meta_def)

end
