(* ===== verification/Log_Record.thy ===== *)
theory Log_Record
  imports Bytes "HOL-Library.Monad_Syntax"
begin

text \<open>
  Log records and their byte format: the classes of \<^verbatim>\<open>src/src/recovery/log_manager.h\<close>, the offsets of
  \<^verbatim>\<open>src/src/recovery/log_defs.h\<close> and \<^verbatim>\<open>deserialize_log_record\<close> with its validation from
  \<^verbatim>\<open>src/src/recovery/log_manager.cpp\<close>. A record value (\<^verbatim>\<open>RmRecord\<close>) is its byte string. Reads go
  through \<open>rd\<close>, whose value \<open>None\<close> stands for a read outside the buffer (undefined behaviour of
  the source); that it never occurs is a theorem, not a convention.
\<close>

section \<open>Data\<close>

datatype LogType = UPDATE | INSERT | DELETE | BEGIN | COMMIT | ABORT | CHECKPOINT

primrec log_type_code :: "LogType \<Rightarrow> int" where
  "log_type_code UPDATE = 0"
| "log_type_code INSERT = 1"
| "log_type_code DELETE = 2"
| "log_type_code BEGIN = 3"
| "log_type_code COMMIT = 4"
| "log_type_code ABORT = 5"
| "log_type_code CHECKPOINT = 6"

text \<open>The header fields besides the type, which is the class of the record.\<close>

record LogHeader =
  hdr_lsn :: lsn_t
  hdr_tot_len :: int
  hdr_tid :: txn_id_t
  hdr_prev_lsn :: lsn_t

datatype LogRecord =
    BeginLogRecord (hdr: LogHeader)
  | CommitLogRecord (hdr: LogHeader)
  | AbortLogRecord (hdr: LogHeader)
  | InsertLogRecord (hdr: LogHeader) (insert_value: bytes) (log_rid: Rid) (log_table: string)
  | DeleteLogRecord (hdr: LogHeader) (delete_value: bytes) (log_rid: Rid) (log_table: string)
  | UpdateLogRecord (hdr: LogHeader) (old_value: bytes) (new_value: bytes) (log_rid: Rid) (log_table: string)
  | CheckpointLogRecord (hdr: LogHeader)

fun log_type :: "LogRecord \<Rightarrow> LogType" where
  "log_type (BeginLogRecord _) = BEGIN"
| "log_type (CommitLogRecord _) = COMMIT"
| "log_type (AbortLogRecord _) = ABORT"
| "log_type (InsertLogRecord _ _ _ _) = INSERT"
| "log_type (DeleteLogRecord _ _ _ _) = DELETE"
| "log_type (UpdateLogRecord _ _ _ _ _) = UPDATE"
| "log_type (CheckpointLogRecord _) = CHECKPOINT"

abbreviation log_lsn :: "LogRecord \<Rightarrow> lsn_t" where "log_lsn r \<equiv> hdr_lsn (hdr r)"
abbreviation log_tid :: "LogRecord \<Rightarrow> txn_id_t" where "log_tid r \<equiv> hdr_tid (hdr r)"
abbreviation log_tot_len :: "LogRecord \<Rightarrow> int" where "log_tot_len r \<equiv> hdr_tot_len (hdr r)"

section \<open>Offsets of the header\<close>

definition OFFSET_LOG_TYPE :: nat where "OFFSET_LOG_TYPE = 0"
definition OFFSET_LSN :: nat where "OFFSET_LSN = 4"
definition OFFSET_LOG_TOT_LEN :: nat where "OFFSET_LOG_TOT_LEN = OFFSET_LSN + 4"
definition OFFSET_LOG_TID :: nat where "OFFSET_LOG_TID = OFFSET_LOG_TOT_LEN + 4"
definition OFFSET_PREV_LSN :: nat where "OFFSET_PREV_LSN = OFFSET_LOG_TID + 8"
definition OFFSET_LOG_DATA :: nat where "OFFSET_LOG_DATA = OFFSET_PREV_LSN + 4"
definition LOG_HEADER_SIZE :: nat where "LOG_HEADER_SIZE = OFFSET_LOG_DATA"

lemmas log_offsets [layout_simps] =
  OFFSET_LOG_TYPE_def OFFSET_LSN_def OFFSET_LOG_TOT_LEN_def OFFSET_LOG_TID_def OFFSET_PREV_LSN_def
  OFFSET_LOG_DATA_def LOG_HEADER_SIZE_def

section \<open>Constructors\<close>

definition new_header :: "txn_id_t \<Rightarrow> lsn_t \<Rightarrow> nat \<Rightarrow> LogHeader" where
  "new_header tid prev extra =
     \<lparr>hdr_lsn = INVALID_LSN, hdr_tot_len = (int LOG_HEADER_SIZE + int extra) mod 2 ^ 32,
      hdr_tid = tid, hdr_prev_lsn = prev\<rparr>"

definition new_BeginLogRecord :: "txn_id_t \<Rightarrow> LogRecord" where
  "new_BeginLogRecord txn_id = BeginLogRecord (new_header txn_id INVALID_LSN 0)"

definition new_CommitLogRecord :: "txn_id_t \<Rightarrow> lsn_t \<Rightarrow> LogRecord" where
  "new_CommitLogRecord txn_id prev_lsn = CommitLogRecord (new_header txn_id prev_lsn 0)"

definition new_AbortLogRecord :: "txn_id_t \<Rightarrow> lsn_t \<Rightarrow> LogRecord" where
  "new_AbortLogRecord txn_id prev_lsn = AbortLogRecord (new_header txn_id prev_lsn 0)"

definition new_InsertLogRecord :: "txn_id_t \<Rightarrow> bytes \<Rightarrow> Rid \<Rightarrow> string \<Rightarrow> LogRecord" where
  "new_InsertLogRecord txn_id insert_val rid table_name =
     InsertLogRecord (new_header txn_id INVALID_LSN (4 + length insert_val + 8 + (8 + length table_name)))
       insert_val rid table_name"

definition new_DeleteLogRecord :: "txn_id_t \<Rightarrow> lsn_t \<Rightarrow> bytes \<Rightarrow> Rid \<Rightarrow> string \<Rightarrow> LogRecord" where
  "new_DeleteLogRecord txn_id prev_lsn delete_val rid table_name =
     DeleteLogRecord (new_header txn_id prev_lsn (4 + length delete_val + 8 + 8 + length table_name))
       delete_val rid table_name"

definition new_UpdateLogRecord :: "txn_id_t \<Rightarrow> lsn_t \<Rightarrow> bytes \<Rightarrow> bytes \<Rightarrow> Rid \<Rightarrow> string \<Rightarrow> LogRecord" where
  "new_UpdateLogRecord txn_id prev_lsn old_val new_val rid table_name =
     UpdateLogRecord
       (new_header txn_id prev_lsn (4 + length old_val + 4 + length new_val + 8 + 8 + length table_name))
       old_val new_val rid table_name"

definition new_CheckpointLogRecord :: LogRecord where
  "new_CheckpointLogRecord = CheckpointLogRecord (new_header INVALID_TXN_ID INVALID_LSN 0)"

text \<open>\<^verbatim>\<open>log_record->lsn_ = ...\<close> and \<^verbatim>\<open>log_record->prev_lsn_ = ...\<close>.\<close>

fun map_hdr :: "(LogHeader \<Rightarrow> LogHeader) \<Rightarrow> LogRecord \<Rightarrow> LogRecord" where
  "map_hdr f (BeginLogRecord h) = BeginLogRecord (f h)"
| "map_hdr f (CommitLogRecord h) = CommitLogRecord (f h)"
| "map_hdr f (AbortLogRecord h) = AbortLogRecord (f h)"
| "map_hdr f (InsertLogRecord h v r t) = InsertLogRecord (f h) v r t"
| "map_hdr f (DeleteLogRecord h v r t) = DeleteLogRecord (f h) v r t"
| "map_hdr f (UpdateLogRecord h v w r t) = UpdateLogRecord (f h) v w r t"
| "map_hdr f (CheckpointLogRecord h) = CheckpointLogRecord (f h)"

definition set_lsn :: "lsn_t \<Rightarrow> LogRecord \<Rightarrow> LogRecord" where
  "set_lsn l = map_hdr (\<lambda>h. h\<lparr>hdr_lsn := l\<rparr>)"

definition set_prev_lsn :: "lsn_t \<Rightarrow> LogRecord \<Rightarrow> LogRecord" where
  "set_prev_lsn l = map_hdr (\<lambda>h. h\<lparr>hdr_prev_lsn := l\<rparr>)"

section \<open>Serialisation\<close>

definition str_bytes :: "string \<Rightarrow> bytes" where
  "str_bytes s = map of_char s"

definition bytes_str :: "bytes \<Rightarrow> string" where
  "bytes_str bs = map (\<lambda>b. char_of (unat b)) bs"

definition rid_bytes :: "Rid \<Rightarrow> bytes" where
  "rid_bytes rid = le_bytes 4 (page_no rid) @ le_bytes 4 (slot_no rid)"

definition serialize_header :: "LogRecord \<Rightarrow> bytes" where
  "serialize_header r =
     le_bytes 4 (log_type_code (log_type r)) @ le_bytes 4 (log_lsn r) @ le_bytes 4 (log_tot_len r) @
     le_bytes 8 (log_tid r) @ le_bytes 4 (hdr_prev_lsn (hdr r))"

definition value_bytes :: "bytes \<Rightarrow> bytes" where
  "value_bytes v = le_bytes 4 (int (length v)) @ v"

definition place_bytes :: "Rid \<Rightarrow> string \<Rightarrow> bytes" where
  "place_bytes rid table_name =
     rid_bytes rid @ le_bytes 8 (int (length table_name)) @ str_bytes table_name"

fun serialize_body :: "LogRecord \<Rightarrow> bytes" where
  "serialize_body (InsertLogRecord _ v rid table_name) = value_bytes v @ place_bytes rid table_name"
| "serialize_body (DeleteLogRecord _ v rid table_name) = value_bytes v @ place_bytes rid table_name"
| "serialize_body (UpdateLogRecord _ v w rid table_name) =
     value_bytes v @ value_bytes w @ place_bytes rid table_name"
| "serialize_body _ = []"

definition serialize :: "LogRecord \<Rightarrow> bytes" where
  "serialize r = serialize_header r @ serialize_body r"

section \<open>Deserialisation\<close>

definition rd :: "bytes \<Rightarrow> nat \<Rightarrow> nat \<Rightarrow> bytes option" where
  "rd src off n = (if off + n \<le> length src then Some (get_bytes src off n) else None)"

definition advance_checked :: "nat \<Rightarrow> nat \<Rightarrow> nat \<Rightarrow> nat option" where
  "advance_checked offset amount total_len =
     (if amount > total_len \<or> offset > total_len - amount then None else Some (offset + amount))"

text \<open>The loop over the record values; \<open>Some None\<close> is the early \<^verbatim>\<open>return false\<close>.\<close>

fun validate_values :: "bytes \<Rightarrow> nat \<Rightarrow> nat \<Rightarrow> nat \<Rightarrow> nat option option" where
  "validate_values src total_len 0 offset = Some (Some offset)"
| "validate_values src total_len (Suc k) offset =
     (case advance_checked offset 4 total_len of
        None \<Rightarrow> Some None
      | Some offset1 \<Rightarrow> do {
          b \<leftarrow> rd src (offset1 - 4) 4;
          if le_sint b < 0 then Some None
          else (case advance_checked offset1 (nat (le_sint b)) total_len of
                  None \<Rightarrow> Some None
                | Some offset2 \<Rightarrow> validate_values src total_len k offset2)
        })"

text \<open>What follows the loop: the record id and the table name.\<close>

definition validate_place :: "bytes \<Rightarrow> nat \<Rightarrow> nat \<Rightarrow> bool option" where
  "validate_place src total_len offset =
     (case advance_checked offset 8 total_len of
        None \<Rightarrow> Some False
      | Some offset1 \<Rightarrow>
          (case advance_checked offset1 8 total_len of
             None \<Rightarrow> Some False
           | Some offset2 \<Rightarrow> do {
               b \<leftarrow> rd src (offset2 - 8) 8;
               (case advance_checked offset2 (nat (le_uint b)) total_len of
                  None \<Rightarrow> Some False
                | Some offset3 \<Rightarrow> Some (offset3 = total_len))
             }))"

definition validate_record_with_table_name :: "bytes \<Rightarrow> nat \<Rightarrow> bool \<Rightarrow> bool option" where
  "validate_record_with_table_name src total_len has_two_records = do {
     r \<leftarrow> validate_values src total_len (if has_two_records then 2 else 1) OFFSET_LOG_DATA;
     (case r of
        None \<Rightarrow> Some False
      | Some offset \<Rightarrow> validate_place src total_len offset)
   }"

definition log_type_of :: "int \<Rightarrow> LogType option" where
  "log_type_of c =
     (if c = 0 then Some UPDATE else if c = 1 then Some INSERT else if c = 2 then Some DELETE
      else if c = 3 then Some BEGIN else if c = 4 then Some COMMIT else if c = 5 then Some ABORT
      else if c = 6 then Some CHECKPOINT else None)"

definition deserialize_header :: "bytes \<Rightarrow> LogHeader option" where
  "deserialize_header src = do {
     l \<leftarrow> rd src OFFSET_LSN 4;
     t \<leftarrow> rd src OFFSET_LOG_TOT_LEN 4;
     i \<leftarrow> rd src OFFSET_LOG_TID 8;
     p \<leftarrow> rd src OFFSET_PREV_LSN 4;
     Some \<lparr>hdr_lsn = le_sint l, hdr_tot_len = le_uint t, hdr_tid = le_sint i, hdr_prev_lsn = le_sint p\<rparr>
   }"

text \<open>\<^verbatim>\<open>RmRecord::Deserialize\<close>; allocating a negative size fails.\<close>

definition value_Deserialize :: "bytes \<Rightarrow> nat \<Rightarrow> bytes option" where
  "value_Deserialize src offset = do {
     b \<leftarrow> rd src offset 4;
     if le_sint b < 0 then None else rd src (offset + 4) (nat (le_sint b))
   }"

definition place_deserialize :: "bytes \<Rightarrow> nat \<Rightarrow> (Rid \<times> string) option" where
  "place_deserialize src offset = do {
     p \<leftarrow> rd src offset 4;
     s \<leftarrow> rd src (offset + 4) 4;
     n \<leftarrow> rd src (offset + 8) 8;
     t \<leftarrow> rd src (offset + 16) (nat (le_uint n));
     Some (Rid (le_sint p) (le_sint s), bytes_str t)
   }"

definition deserialize :: "LogType \<Rightarrow> bytes \<Rightarrow> LogRecord option" where
  "deserialize ty src = do {
     h \<leftarrow> deserialize_header src;
     case ty of
       BEGIN \<Rightarrow> Some (BeginLogRecord h)
     | COMMIT \<Rightarrow> Some (CommitLogRecord h)
     | ABORT \<Rightarrow> Some (AbortLogRecord h)
     | CHECKPOINT \<Rightarrow> Some (CheckpointLogRecord h)
     | INSERT \<Rightarrow> do {
         v \<leftarrow> value_Deserialize src OFFSET_LOG_DATA;
         (rid, t) \<leftarrow> place_deserialize src (OFFSET_LOG_DATA + length v + 4);
         Some (InsertLogRecord h v rid t)
       }
     | DELETE \<Rightarrow> do {
         v \<leftarrow> value_Deserialize src OFFSET_LOG_DATA;
         (rid, t) \<leftarrow> place_deserialize src (OFFSET_LOG_DATA + 4 + length v);
         Some (DeleteLogRecord h v rid t)
       }
     | UPDATE \<Rightarrow> do {
         v \<leftarrow> value_Deserialize src OFFSET_LOG_DATA;
         w \<leftarrow> value_Deserialize src (OFFSET_LOG_DATA + (4 + length v));
         (rid, t) \<leftarrow> place_deserialize src (OFFSET_LOG_DATA + (4 + length v) + (4 + length w));
         Some (UpdateLogRecord h v w rid t)
       }
   }"

text \<open>
  \<open>None\<close> is a read out of bounds, \<open>Some None\<close> the null pointer, \<open>Some (Some r)\<close> a record.
\<close>

definition deserialize_log_record :: "bytes \<Rightarrow> int \<Rightarrow> LogRecord option option" where
  "deserialize_log_record src len =
     (if len < int LOG_HEADER_SIZE then Some None
      else do {
        ty \<leftarrow> rd src OFFSET_LOG_TYPE 4;
        tl \<leftarrow> rd src OFFSET_LOG_TOT_LEN 4;
        let total_len = le_uint tl in
        if total_len < int LOG_HEADER_SIZE \<or> total_len > len then Some None
        else case log_type_of (le_sint ty) of
            None \<Rightarrow> Some None
          | Some type \<Rightarrow> do {
              valid \<leftarrow> (case type of
                          UPDATE \<Rightarrow> validate_record_with_table_name src (nat total_len) True
                        | INSERT \<Rightarrow> validate_record_with_table_name src (nat total_len) False
                        | DELETE \<Rightarrow> validate_record_with_table_name src (nat total_len) False
                        | _ \<Rightarrow> Some True);
              if \<not> valid then Some None
              else do { r \<leftarrow> deserialize type src; Some (Some r) }
            }
      })"

section \<open>Reading what was written\<close>

lemma rd_here: "n = length b \<Longrightarrow> rd (b @ c) 0 n = Some b"
  by (simp add: rd_def get_bytes_append1 get_bytes_0_all)

lemma rd_skip: "length a \<le> off \<Longrightarrow> rd (a @ b) off n = rd b (off - length a) n"
  by (auto simp: rd_def get_bytes_append2)

lemma rd_in_range: "off + n \<le> length src \<Longrightarrow> rd src off n = Some (get_bytes src off n)"
  by (simp add: rd_def)

lemma rd_append: "rd src off n = Some b \<Longrightarrow> rd (src @ rest) off n = Some b"
  by (auto simp: rd_def get_bytes_append1 split: if_splits)

lemma length_str_bytes [simp]: "length (str_bytes s) = length s"
  by (simp add: str_bytes_def)

lemma unat_of_char: "unat (of_char c :: byte) = of_char c"
  by (cases c) (simp add: unsigned_of_nat)

lemma bytes_str_str_bytes [simp]: "bytes_str (str_bytes s) = s"
  by (induction s) (simp_all add: bytes_str_def str_bytes_def unat_of_char)

lemma le_sint_size: "length v < 2 ^ 31 \<Longrightarrow> le_sint (le_bytes 4 (int (length v))) = int (length v)"
  by (rule le_sint4) (simp add: in_i32_def)

lemma le_uint_size: "length v < 2 ^ 31 \<Longrightarrow> le_uint (le_bytes 8 (int (length v))) = int (length v)"
  by (rule le_uint_le_bytes_id) simp_all

lemma length_serialize_header [simp]: "length (serialize_header r) = LOG_HEADER_SIZE"
  by (simp add: serialize_header_def log_offsets)

lemma length_value_bytes [simp]: "length (value_bytes v) = 4 + length v"
  by (simp add: value_bytes_def)

lemma length_place_bytes [simp]: "length (place_bytes rid t) = 16 + length t"
  by (simp add: place_bytes_def rid_bytes_def)

definition rid_ok :: "Rid \<Rightarrow> bool" where
  "rid_ok rid \<longleftrightarrow> in_i32 (page_no rid) \<and> in_i32 (slot_no rid)"

text \<open>
  The records the program builds: fields within their C types, and the stored total length is the
  length of the serialised form.
\<close>

fun body_ok :: "LogRecord \<Rightarrow> bool" where
  "body_ok (InsertLogRecord _ _ rid _) \<longleftrightarrow> rid_ok rid"
| "body_ok (DeleteLogRecord _ _ rid _) \<longleftrightarrow> rid_ok rid"
| "body_ok (UpdateLogRecord _ _ _ rid _) \<longleftrightarrow> rid_ok rid"
| "body_ok _ \<longleftrightarrow> True"

definition log_wf :: "LogRecord \<Rightarrow> bool" where
  "log_wf r \<longleftrightarrow> in_i32 (log_lsn r) \<and> in_i64 (log_tid r) \<and> in_i32 (hdr_prev_lsn (hdr r)) \<and>
     log_tot_len r = int (length (serialize r)) \<and> length (serialize r) < 2 ^ 31 \<and> body_ok r"

lemma deserialize_header_serialize:
  assumes "in_i32 (log_lsn r)" and "in_i64 (log_tid r)" and "in_i32 (hdr_prev_lsn (hdr r))"
    and "0 \<le> log_tot_len r" and "log_tot_len r < 2 ^ 32"
  shows "deserialize_header (serialize_header r @ rest) = Some (hdr r)"
  using assms le_uint_le_bytes_id [of "log_tot_len r" 4]
  by (simp add: deserialize_header_def serialize_header_def log_offsets rd_skip rd_here le_sint4 le_sint8)

lemma value_Deserialize_at:
  assumes "length v < 2 ^ 31" and "off = length pre"
  shows "value_Deserialize (pre @ value_bytes v @ rest) off = Some v"
  using assms by (simp add: value_Deserialize_def value_bytes_def rd_skip rd_here le_sint_size)

lemma place_deserialize_at:
  assumes "rid_ok rid" and "length t < 2 ^ 31" and "off = length pre"
  shows "place_deserialize (pre @ place_bytes rid t @ rest) off = Some (rid, t)"
  using assms
  by (simp add: place_deserialize_def place_bytes_def rid_bytes_def rd_skip rd_here rid_ok_def le_sint4 le_uint_size)

lemma advance_checked_Some:
  "advance_checked offset amount total_len = Some o' \<longleftrightarrow> o' = offset + amount \<and> offset + amount \<le> total_len"
  by (auto simp: advance_checked_def)

lemma advance_checked_None:
  "advance_checked offset amount total_len = None \<longleftrightarrow> total_len < offset + amount"
  by (auto simp: advance_checked_def)

text \<open>The validation follows the same offsets as the deserialisation.\<close>

lemma validate_values_Suc:
  assumes "total_len \<le> length src"
  shows "validate_values src total_len (Suc k) offset =
    (case value_Deserialize src offset of
       Some v \<Rightarrow> if offset + 4 + length v \<le> total_len
                 then validate_values src total_len k (offset + 4 + length v) else Some None
     | None \<Rightarrow> Some None)"
proof (cases "offset + 4 \<le> total_len")
  case True
  then have a: "advance_checked offset 4 total_len = Some (offset + 4)"
    by (simp add: advance_checked_Some)
  have r: "rd src offset 4 = Some (get_bytes src offset 4)"
    using True assms by (simp add: rd_in_range)
  show ?thesis
    using assms a r
    by (auto simp: value_Deserialize_def rd_def advance_checked_def not_le split: option.split if_splits)
next
  case False
  then have "advance_checked offset 4 total_len = None"
    by (simp add: advance_checked_None)
  with False show ?thesis by (simp split: option.split)
qed

lemma validate_place_Some:
  assumes "total_len \<le> length src"
  shows "validate_place src total_len offset = Some (case place_deserialize src offset of
           Some (rid, t) \<Rightarrow> offset + 16 + length t = total_len | None \<Rightarrow> False)"
proof (cases "offset + 16 \<le> total_len")
  case True
  then have a: "advance_checked offset 8 total_len = Some (offset + 8)"
      "advance_checked (offset + 8) 8 total_len = Some (offset + 16)"
    by (simp_all add: advance_checked_Some)
  have r: "rd src offset 4 = Some (get_bytes src offset 4)"
      "rd src (offset + 4) 4 = Some (get_bytes src (offset + 4) 4)"
      "rd src (offset + 8) 8 = Some (get_bytes src (offset + 8) 8)"
    using True assms by (simp_all add: rd_in_range)
  show ?thesis
    using assms a r
    by (auto simp: validate_place_def place_deserialize_def rd_def advance_checked_def not_le bytes_str_def
        add.commute [of 8 offset]
        split: option.split if_splits)
next
  case False
  then have "advance_checked offset 8 total_len = None \<or>
      (advance_checked offset 8 total_len = Some (offset + 8) \<and> advance_checked (offset + 8) 8 total_len = None)"
    by (auto simp: advance_checked_Some advance_checked_None)
  with False show ?thesis by (auto simp: validate_place_def split: option.split)
qed

lemma validate_one:
  assumes "total_len \<le> length src"
  shows "validate_record_with_table_name src total_len False = Some
    (case value_Deserialize src OFFSET_LOG_DATA of
       None \<Rightarrow> False
     | Some v \<Rightarrow> OFFSET_LOG_DATA + 4 + length v \<le> total_len \<and>
         (case place_deserialize src (OFFSET_LOG_DATA + 4 + length v) of
            Some (rid, t) \<Rightarrow> OFFSET_LOG_DATA + 4 + length v + 16 + length t = total_len | None \<Rightarrow> False))"
  by (simp add: validate_record_with_table_name_def validate_values_Suc [OF assms] validate_place_Some [OF assms]
      del: validate_values.simps(2) split: option.split)

lemma validate_two:
  assumes "total_len \<le> length src"
  shows "validate_record_with_table_name src total_len True = Some
    (case value_Deserialize src OFFSET_LOG_DATA of
       None \<Rightarrow> False
     | Some v \<Rightarrow> OFFSET_LOG_DATA + 4 + length v \<le> total_len \<and>
        (case value_Deserialize src (OFFSET_LOG_DATA + 4 + length v) of
          None \<Rightarrow> False
        | Some w \<Rightarrow> OFFSET_LOG_DATA + 4 + length v + 4 + length w \<le> total_len \<and>
         (case place_deserialize src (OFFSET_LOG_DATA + 4 + length v + 4 + length w) of
            Some (rid, t) \<Rightarrow> OFFSET_LOG_DATA + 4 + length v + 4 + length w + 16 + length t = total_len
          | None \<Rightarrow> False)))"
  by (simp add: validate_record_with_table_name_def numeral_2_eq_2 validate_values_Suc [OF assms]
      validate_place_Some [OF assms] del: validate_values.simps(2) split: option.split)

lemma log_type_of_code [simp]: "log_type_of (log_type_code ty) = Some ty"
  by (cases ty) (simp_all add: log_type_of_def)

lemma deserialize_header_total:
  "LOG_HEADER_SIZE \<le> length src \<Longrightarrow> \<exists>h. deserialize_header src = Some h"
  by (simp add: deserialize_header_def rd_def log_offsets)

lemma deserialize_total:
  assumes "LOG_HEADER_SIZE \<le> length src" and "total_len \<le> length src"
    and "ty \<in> {INSERT, DELETE} \<Longrightarrow> validate_record_with_table_name src total_len False = Some True"
    and "ty = UPDATE \<Longrightarrow> validate_record_with_table_name src total_len True = Some True"
  shows "\<exists>r. deserialize ty src = Some r"
proof -
  obtain h where h: "deserialize_header src = Some h"
    using deserialize_header_total assms(1) by blast
  show ?thesis
    using assms(3,4) h validate_one [OF assms(2)] validate_two [OF assms(2)]
    by (cases ty) (auto simp: deserialize_def ac_simps split: option.splits)
qed

text \<open>The steps of the deserialisation on a serialised record.\<close>

lemma deserialize_serialize:
  assumes "log_wf r"
  shows "deserialize (log_type r) (serialize r @ rest) = Some r"
proof -
  have w: "in_i32 (log_lsn r)" "in_i64 (log_tid r)" "in_i32 (hdr_prev_lsn (hdr r))" "body_ok r"
      "0 \<le> log_tot_len r" "log_tot_len r < 2 ^ 32" "length (serialize_body r) < 2 ^ 31"
    using assms by (auto simp: log_wf_def serialize_def)
  have h: "deserialize_header (serialize r @ rest) = Some (hdr r)"
    unfolding serialize_def append_assoc by (rule deserialize_header_serialize) (use w in auto)
  let ?pre = "serialize_header r"
  have p: "OFFSET_LOG_DATA = length ?pre" by (simp add: log_offsets)
  show ?thesis
  proof (cases r)
    case (InsertLogRecord g v rid t)
    then have "value_Deserialize (serialize r @ rest) OFFSET_LOG_DATA = Some v"
      using w value_Deserialize_at [OF _ p, of v "place_bytes rid t @ rest"] by (simp add: serialize_def)
    moreover have "place_deserialize (serialize r @ rest) (OFFSET_LOG_DATA + length v + 4) = Some (rid, t)"
      using w InsertLogRecord place_deserialize_at [of rid t _ "?pre @ value_bytes v" rest] p
      by (simp add: serialize_def ac_simps)
    ultimately show ?thesis using InsertLogRecord h by (simp add: deserialize_def)
  next
    case (DeleteLogRecord g v rid t)
    then have "value_Deserialize (serialize r @ rest) OFFSET_LOG_DATA = Some v"
      using w value_Deserialize_at [OF _ p, of v "place_bytes rid t @ rest"] by (simp add: serialize_def)
    moreover have "place_deserialize (serialize r @ rest) (OFFSET_LOG_DATA + 4 + length v) = Some (rid, t)"
      using w DeleteLogRecord place_deserialize_at [of rid t _ "?pre @ value_bytes v" rest] p
      by (simp add: serialize_def ac_simps)
    ultimately show ?thesis using DeleteLogRecord h by (simp add: deserialize_def)
  next
    case (UpdateLogRecord g v u rid t)
    then have "value_Deserialize (serialize r @ rest) OFFSET_LOG_DATA = Some v"
      using w value_Deserialize_at [OF _ p, of v "value_bytes u @ place_bytes rid t @ rest"] by (simp add: serialize_def)
    moreover have "value_Deserialize (serialize r @ rest) (OFFSET_LOG_DATA + (4 + length v)) = Some u"
      using w UpdateLogRecord value_Deserialize_at [of u _ "?pre @ value_bytes v" "place_bytes rid t @ rest"] p
      by (simp add: serialize_def ac_simps)
    moreover have "place_deserialize (serialize r @ rest)
        (OFFSET_LOG_DATA + (4 + length v) + (4 + length u)) = Some (rid, t)"
      using w UpdateLogRecord place_deserialize_at [of rid t _ "?pre @ value_bytes v @ value_bytes u" rest] p
      by (simp add: serialize_def ac_simps)
    ultimately show ?thesis using UpdateLogRecord h by (simp add: deserialize_def)
  qed (use h in \<open>simp_all add: deserialize_def\<close>)
qed

lemma validate_serialize:
  assumes "log_wf r"
  shows "log_type r = INSERT \<or> log_type r = DELETE \<Longrightarrow>
           validate_record_with_table_name (serialize r @ rest) (length (serialize r)) False = Some True"
    and "log_type r = UPDATE \<Longrightarrow>
           validate_record_with_table_name (serialize r @ rest) (length (serialize r)) True = Some True"
proof -
  have p: "OFFSET_LOG_DATA = length (serialize_header r)" by (simp add: log_offsets)
  have w: "body_ok r" "length (serialize_body r) < 2 ^ 31"
    using assms by (auto simp: log_wf_def serialize_def)
  show "validate_record_with_table_name (serialize r @ rest) (length (serialize r)) False = Some True"
    if "log_type r = INSERT \<or> log_type r = DELETE"
  proof -
    obtain h v rid t where r: "r = InsertLogRecord h v rid t \<or> r = DeleteLogRecord h v rid t"
      using \<open>log_type r = INSERT \<or> log_type r = DELETE\<close> by (cases r) auto
    have "value_Deserialize (serialize r @ rest) OFFSET_LOG_DATA = Some v"
      using w r value_Deserialize_at [OF _ p, of v "place_bytes rid t @ rest"] by (auto simp: serialize_def)
    moreover have "place_deserialize (serialize r @ rest) (OFFSET_LOG_DATA + 4 + length v) = Some (rid, t)"
      using w r place_deserialize_at [of rid t _ "serialize_header r @ value_bytes v" rest] p
      by (auto simp: serialize_def ac_simps)
    ultimately show ?thesis
      using r p by (subst validate_one) (auto simp: serialize_def)
  qed
  show "validate_record_with_table_name (serialize r @ rest) (length (serialize r)) True = Some True"
    if "log_type r = UPDATE"
  proof -
    obtain h v u rid t where r: "r = UpdateLogRecord h v u rid t"
      using \<open>log_type r = UPDATE\<close> by (cases r) auto
    have "value_Deserialize (serialize r @ rest) OFFSET_LOG_DATA = Some v"
      using w r value_Deserialize_at [OF _ p, of v "value_bytes u @ place_bytes rid t @ rest"]
      by (simp add: serialize_def)
    moreover have "value_Deserialize (serialize r @ rest) (OFFSET_LOG_DATA + 4 + length v) = Some u"
      using w r value_Deserialize_at [of u _ "serialize_header r @ value_bytes v" "place_bytes rid t @ rest"] p
      by (simp add: serialize_def ac_simps)
    moreover have "place_deserialize (serialize r @ rest)
        (OFFSET_LOG_DATA + 4 + length v + 4 + length u) = Some (rid, t)"
      using w r place_deserialize_at [of rid t _ "serialize_header r @ value_bytes v @ value_bytes u" rest] p
      by (simp add: serialize_def ac_simps)
    ultimately show ?thesis
      using r p by (subst validate_two) (auto simp: serialize_def)
  qed
qed

lemma header_reads:
  assumes "log_wf r"
  shows "rd (serialize r @ rest) OFFSET_LOG_TYPE 4 = Some (le_bytes 4 (log_type_code (log_type r)))"
    and "rd (serialize r @ rest) OFFSET_LOG_TOT_LEN 4 = Some (le_bytes 4 (log_tot_len r))"
    and "le_uint (le_bytes 4 (log_tot_len r)) = log_tot_len r"
    and "le_sint (le_bytes 4 (log_type_code (log_type r))) = log_type_code (log_type r)"
proof -
  show "le_uint (le_bytes 4 (log_tot_len r)) = log_tot_len r"
    using assms by (intro le_uint_le_bytes_id) (auto simp: log_wf_def)
  show "le_sint (le_bytes 4 (log_type_code (log_type r))) = log_type_code (log_type r)"
    by (rule le_sint4) (cases r; simp add: in_i32_def)
qed (simp_all add: serialize_def serialize_header_def log_offsets rd_skip rd_here)

lemma deserialize_log_record_serialize:
  assumes wf: "log_wf r" and len: "log_tot_len r \<le> len"
  shows "deserialize_log_record (serialize r @ rest) len = Some (Some r)"
proof -
  have tot: "log_tot_len r = int (length (serialize r))" "int LOG_HEADER_SIZE \<le> log_tot_len r"
    using wf by (auto simp: log_wf_def serialize_def)
  note v = validate_serialize [OF wf, of rest]
  show ?thesis
    using header_reads(1,2) [OF wf, of rest] header_reads(3,4) [OF wf] deserialize_serialize [OF wf, of rest] tot len v
    by (cases "log_type r") (simp_all add: deserialize_log_record_def Let_def log_type_of_def)
qed

section \<open>Properties\<close>

text \<open>
  C22. Round trip of the log format: for every well-formed record of any of the seven kinds,
  deserialising its serialised bytes, followed by arbitrary other bytes, gives back the record.
\<close>

theorem log_record_roundtrip:
  assumes "log_wf r" and "int (length (serialize r)) \<le> len"
  shows "deserialize_log_record (serialize r @ rest) len = Some (Some r)"
  using assms by (intro deserialize_log_record_serialize) (simp_all add: log_wf_def)

theorem log_record_roundtrip_witness:
  "deserialize_log_record
     (serialize (new_UpdateLogRecord 7 3 [1, 2] [9, 8, 7] (Rid 1 5) ''t'') @ [255, 255]) 100 =
   Some (Some (new_UpdateLogRecord 7 3 [1, 2] [9, 8, 7] (Rid 1 5) ''t''))"
  by (rule log_record_roundtrip)
    (simp_all add: log_wf_def new_UpdateLogRecord_def new_header_def serialize_def log_offsets
       in_i32_def in_i64_def rid_ok_def)

text \<open>
  C26. Memory safety of log parsing: on any bytes whatsoever, however corrupt, deserialising a
  buffer of the given length never reads outside it; it returns a record or the null pointer.
\<close>

theorem deserialize_never_out_of_bounds:
  assumes "len \<le> int (length src)"
  shows "deserialize_log_record src len \<noteq> None"
proof (cases "len < int LOG_HEADER_SIZE")
  case True
  then show ?thesis by (simp add: deserialize_log_record_def)
next
  case False
  then have l: "LOG_HEADER_SIZE \<le> length src" using assms by simp
  let ?t = "le_uint (get_bytes src OFFSET_LOG_TOT_LEN 4)"
  have r: "rd src OFFSET_LOG_TYPE 4 = Some (get_bytes src OFFSET_LOG_TYPE 4)"
      "rd src OFFSET_LOG_TOT_LEN 4 = Some (get_bytes src OFFSET_LOG_TOT_LEN 4)"
    using l by (simp_all add: rd_def log_offsets)
  have v: "\<exists>b. validate_record_with_table_name src (nat ?t) two = Some b" if "?t \<le> len" for two
    using that assms validate_one [of "nat ?t" src] validate_two [of "nat ?t" src] by (cases two) auto
  have d: "\<exists>x. deserialize ty src = Some x" if "?t \<le> len"
      and "ty \<in> {INSERT, DELETE} \<Longrightarrow> validate_record_with_table_name src (nat ?t) False = Some True"
      and "ty = UPDATE \<Longrightarrow> validate_record_with_table_name src (nat ?t) True = Some True" for ty
    by (rule deserialize_total [OF l, of "nat ?t"]) (use that assms in auto)
  show ?thesis
  proof (cases "?t < int LOG_HEADER_SIZE \<or> len < ?t \<or> log_type_of (le_sint (get_bytes src OFFSET_LOG_TYPE 4)) = None")
    case True
    with False r show ?thesis by (auto simp: deserialize_log_record_def Let_def)
  next
    case t: False
    then obtain ty where ty: "log_type_of (le_sint (get_bytes src OFFSET_LOG_TYPE 4)) = Some ty" by auto
    obtain b1 b2 where b: "validate_record_with_table_name src (nat ?t) False = Some b1"
        "validate_record_with_table_name src (nat ?t) True = Some b2"
      using v t by (meson not_le_imp_less)
    obtain x where "(ty \<in> {INSERT, DELETE} \<longrightarrow> b1) \<Longrightarrow> (ty = UPDATE \<longrightarrow> b2) \<Longrightarrow> deserialize ty src = Some x"
      using d [of ty] t b by (cases "(ty \<in> {INSERT, DELETE} \<longrightarrow> b1) \<and> (ty = UPDATE \<longrightarrow> b2)") auto
    then show ?thesis
      using False r t ty b by (cases ty; cases b1; cases b2) (simp_all add: deserialize_log_record_def Let_def)
  qed
qed

theorem deserialize_never_out_of_bounds_witness:
  "deserialize_log_record (replicate 30 255) 30 \<noteq> None"
  by (rule deserialize_never_out_of_bounds) simp

end
