(* ===== verification/Mvcc.thy ===== *)
theory Mvcc
  imports Watermark Txn_Defs Conditions Log_Record "HOL-Library.AList"
begin

text \<open>
  The version store of \<^verbatim>\<open>src/src/transaction/transaction_manager.{h,cpp}\<close>: versions and entries, visibility,
  write conflicts, the read-write dependency graph of serializable transactions, and the steps of commit, abort and garbage
  collection that change it. The operations that also touch files, indexes, locks and the log are in theory
  \<^verbatim>\<open>Txn_Manager\<close>.

  The members run under \<^verbatim>\<open>mvcc_latch_\<close> or \<^verbatim>\<open>physical_insert_latch_\<close>, so each is one step. Unordered maps
  are association lists and unordered sets lists without duplicates; the order of the lists is arbitrary, as
  that of the containers is. A \<^verbatim>\<open>Transaction *\<close> that may be null is an option. An operation that changes the
  transaction object passes and returns it. Timestamps and transaction identifiers are 64-bit counters that
  start at 0 and grow by 1; they are integers.
\<close>

section \<open>State\<close>

record MvccVersion =
  v_record :: bytes
  v_is_deleted :: bool
  v_commit_ts :: timestamp_t
  v_writer_txn :: txn_id_t

text \<open>
  The snapshot an entry keeps for an abort has no snapshot of its own: the code clears the pointer before it
  stores the copy. So the type of entries without that field is enough for it.
\<close>

record MvccEntryBase =
  e_exists :: bool
  e_is_deleted :: bool
  e_commit_ts :: timestamp_t
  writer_txn :: txn_id_t
  last_writer_txn :: txn_id_t
  e_tab_name :: string
  e_rid :: Rid
  has_head_record :: bool
  head_record :: bytes
  undo_versions :: "MvccVersion list"
  rollback_delete_physical :: bool
  rollback_restore_physical :: bool
  rollback_record :: bytes
  had_entry_on_abort :: bool

record MvccEntry = MvccEntryBase +
  restore_snapshot :: "MvccEntryBase option"

definition new_MvccEntry :: MvccEntry where
  "new_MvccEntry =
     \<lparr>e_exists = False, e_is_deleted = False, e_commit_ts = 0, writer_txn = INVALID_TXN_ID, last_writer_txn = INVALID_TXN_ID,
      e_tab_name = [], e_rid = Rid (-1) (-1), has_head_record = False, head_record = [], undo_versions = [],
      rollback_delete_physical = False, rollback_restore_physical = False, rollback_record = [],
      had_entry_on_abort = False, restore_snapshot = None\<rparr>"

record PredicateRead =
  pr_txn_id :: txn_id_t
  pr_tab_name :: string
  pr_cols :: "ColMeta list"
  pr_conds :: "Condition list"
  record_keys :: "string list"

datatype PhysicalInsertKey = PhysicalInsertKey (pk_fd: int) (pk_page_no: int) (pk_slot_no: int)

record TransactionManager =
  last_commit_ts :: timestamp_t
  active_mvcc_txn_count :: int
  mvcc_entry_count :: int
  gc_commit_counter :: "64 word"
  running_txns :: Watermark
  physical_insert_owners :: "(PhysicalInsertKey \<times> txn_id_t) list"
  mvcc_versions :: "(string \<times> MvccEntry) list"
  mvcc_table_keys :: "(string \<times> string list) list"
  mvcc_index_compensation_keys :: "(string \<times> string list) list"
  serializable_reads :: "(txn_id_t \<times> PredicateRead list) list"
  rw_edges :: "(txn_id_t \<times> txn_id_t) list"
  rw_in :: "(txn_id_t \<times> txn_id_t list) list"
  rw_out :: "(txn_id_t \<times> txn_id_t list) list"
  ser_txn_start_ts :: "(txn_id_t \<times> timestamp_t) list"
  ser_txn_finish_ts :: "(txn_id_t \<times> timestamp_t) list"

definition new_TransactionManager :: TransactionManager where
  "new_TransactionManager =
     \<lparr>last_commit_ts = 0, active_mvcc_txn_count = 0, mvcc_entry_count = 0, gc_commit_counter = 0,
      running_txns = new_Watermark 0, physical_insert_owners = [], mvcc_versions = [], mvcc_table_keys = [],
      mvcc_index_compensation_keys = [], serializable_reads = [], rw_edges = [], rw_in = [], rw_out = [],
      ser_txn_start_ts = [], ser_txn_finish_ts = []\<rparr>"

text \<open>Maps whose values are sets: \<^verbatim>\<open>m[k].insert(x)\<close>, and erasing an element and then an empty set.\<close>

definition set_of :: "'k \<Rightarrow> ('k \<times> 'x list) list \<Rightarrow> 'x list" where
  "set_of k m = (case map_of m k of None \<Rightarrow> [] | Some xs \<Rightarrow> xs)"

definition set_insert :: "'k \<Rightarrow> 'x \<Rightarrow> ('k \<times> 'x list) list \<Rightarrow> ('k \<times> 'x list) list" where
  "set_insert k x m = AList.update k (List.insert x (set_of k m)) m"

definition set_erase :: "'k \<Rightarrow> 'x \<Rightarrow> ('k \<times> 'x list) list \<Rightarrow> ('k \<times> 'x list) list" where
  "set_erase k x m =
     (case map_of m k of
        None \<Rightarrow> m
      | Some xs \<Rightarrow> (let xs = removeAll x xs in if xs = [] then AList.delete k m else AList.update k xs m))"

section \<open>Index keys\<close>

definition index_cols_of :: "IndexMeta \<Rightarrow> ColMeta list" where
  "index_cols_of index = take (nat (col_num index)) (ix_cols index)"

definition make_index_key :: "bytes \<Rightarrow> IndexMeta \<Rightarrow> bytes" where
  "make_index_key rec index =
     fst (foldl (\<lambda>(key, offset) col.
            (put_bytes key offset (get_bytes rec (off_of col) (len_of col)), offset + len_of col))
          (replicate (nat (col_tot_len index)) 0, 0) (index_cols_of index))"

definition index_keys_changed :: "TabMeta \<Rightarrow> bytes \<Rightarrow> bytes \<Rightarrow> bool" where
  "index_keys_changed tab old_rec new_rec =
     list_ex (\<lambda>index. list_ex (\<lambda>col. get_bytes old_rec (off_of col) (len_of col) \<noteq> get_bytes new_rec (off_of col) (len_of col))
                (index_cols_of index)) (indexes tab)"

section \<open>Transactions and keys\<close>

definition IsMvccTxn :: "Transaction option \<Rightarrow> bool" where
  "IsMvccTxn txn = (case txn of None \<Rightarrow> False | Some t \<Rightarrow> mvcc_enabled t)"

definition ShouldVersionWrites :: "Transaction option \<Rightarrow> TransactionManager \<Rightarrow> bool" where
  "ShouldVersionWrites txn tm = (case txn of None \<Rightarrow> False | Some t \<Rightarrow> mvcc_enabled t \<or> active_mvcc_txn_count tm > 0)"

definition HasActiveMvccTransactions :: "TransactionManager \<Rightarrow> bool" where
  "HasActiveMvccTransactions tm \<longleftrightarrow> active_mvcc_txn_count tm > 0"

definition HasMvccState :: "TransactionManager \<Rightarrow> bool" where
  "HasMvccState tm \<longleftrightarrow> active_mvcc_txn_count tm > 0 \<or> mvcc_entry_count tm > 0"

definition MvccKey :: "string \<Rightarrow> Rid \<Rightarrow> string" where
  "MvccKey tab rid = tab @ ''#'' @ int_to_string (page_no rid) @ ''#'' @ int_to_string (slot_no rid)"

section \<open>Entries and visibility\<close>

definition EnsureMvccEntryLocked :: "string \<Rightarrow> Rid \<Rightarrow> bytes option \<Rightarrow> TransactionManager \<Rightarrow> TransactionManager" where
  "EnsureMvccEntryLocked tab rid physical tm =
     (let key = MvccKey tab rid in
      if map_of (mvcc_versions tm) key \<noteq> None then tm
      else
        let entry =
              (case physical of
                 Some r \<Rightarrow>
                   new_MvccEntry\<lparr>e_exists := True, e_is_deleted := False, e_commit_ts := 0, writer_txn := INVALID_TXN_ID,
                     last_writer_txn := INVALID_TXN_ID, e_tab_name := tab, e_rid := rid, has_head_record := True,
                     head_record := r\<rparr>
               | None \<Rightarrow> new_MvccEntry\<lparr>e_tab_name := tab, e_rid := rid\<rparr>)
        in tm\<lparr>mvcc_entry_count := mvcc_entry_count tm + 1,
              mvcc_table_keys := set_insert tab key (mvcc_table_keys tm),
              mvcc_versions := AList.update key entry (mvcc_versions tm)\<rparr>)"

definition version_record :: "MvccVersion option \<Rightarrow> bytes option" where
  "version_record v = (case v of None \<Rightarrow> None | Some v \<Rightarrow> if v_is_deleted v then None else Some (v_record v))"

text \<open>The backward loops over \<^verbatim>\<open>undo_versions\<close>: the newest committed version, with a bound on its timestamp or without.\<close>

definition newest_committed :: "MvccVersion list \<Rightarrow> MvccVersion option" where
  "newest_committed vs = find (\<lambda>v. v_writer_txn v = INVALID_TXN_ID) (rev vs)"

definition newest_before :: "timestamp_t \<Rightarrow> MvccVersion list \<Rightarrow> MvccVersion option" where
  "newest_before ts vs = find (\<lambda>v. v_writer_txn v = INVALID_TXN_ID \<and> v_commit_ts v \<le> ts) (rev vs)"

definition VisibleRecordLocked :: "string \<Rightarrow> MvccEntry \<Rightarrow> bytes \<Rightarrow> Transaction option \<Rightarrow> bytes option" where
  "VisibleRecordLocked key entry physical txn =
     (let head = (if \<not> e_exists entry \<or> e_is_deleted entry then None else Some physical) in
      if \<not> IsMvccTxn txn then
        if txn \<noteq> None \<and> writer_txn entry = txn_id (the txn) then head
        else if writer_txn entry \<noteq> INVALID_TXN_ID then version_record (newest_committed (undo_versions entry))
        else head
      else if writer_txn entry = txn_id (the txn) then head
      else if writer_txn entry = INVALID_TXN_ID \<and> e_exists entry \<and> e_commit_ts entry \<le> start_ts (the txn)
      then (if e_is_deleted entry then None else Some physical)
      else version_record (newest_before (start_ts (the txn)) (undo_versions entry)))"

definition GetVisibleRecord :: "string \<Rightarrow> Rid \<Rightarrow> bytes \<Rightarrow> Transaction option \<Rightarrow> TransactionManager \<Rightarrow> bytes option" where
  "GetVisibleRecord tab rid physical txn tm =
     (if \<not> IsMvccTxn txn \<and> \<not> HasMvccState tm then Some physical
      else
        let key = MvccKey tab rid in
        case map_of (mvcc_versions tm) key of
          None \<Rightarrow> Some physical
        | Some entry \<Rightarrow> VisibleRecordLocked key entry physical txn)"

text \<open>The variant that fetches the physical record under the latch; \<open>fetched\<close> is what the fetch returned or threw.\<close>

definition GetVisibleRecord_fetch ::
  "string \<Rightarrow> Rid \<Rightarrow> Transaction option \<Rightarrow> bytes result \<Rightarrow> TransactionManager \<Rightarrow> bytes option result" where
  "GetVisibleRecord_fetch tab rid txn fetched tm =
     (case fetched of Inl e \<Rightarrow> Throw e | Inr physical \<Rightarrow> Ret (GetVisibleRecord tab rid physical txn tm))"

definition IsVisible :: "string \<Rightarrow> Rid \<Rightarrow> bytes \<Rightarrow> Transaction option \<Rightarrow> TransactionManager \<Rightarrow> bool" where
  "IsVisible tab rid physical txn tm \<longleftrightarrow> GetVisibleRecord tab rid physical txn tm \<noteq> None"

definition CollectVisibleVersionRecords ::
  "string \<Rightarrow> ColMeta list \<Rightarrow> Condition list \<Rightarrow> (int \<times> int) list \<Rightarrow> Transaction option \<Rightarrow> TransactionManager \<Rightarrow> (Rid \<times> bytes) list" where
  "CollectVisibleVersionRecords tab cs conds seen_rids txn tm =
     (if \<not> IsMvccTxn txn then []
      else
        List.map_filter (\<lambda>key.
          case map_of (mvcc_versions tm) key of
            None \<Rightarrow> None
          | Some entry \<Rightarrow>
              if \<not> has_head_record entry then None
              else if (page_no (e_rid entry), slot_no (e_rid entry)) \<in> set seen_rids then None
              else
                (case VisibleRecordLocked key entry (head_record entry) txn of
                   None \<Rightarrow> None
                 | Some r \<Rightarrow> if eval_txn_conds r cs conds then Some (e_rid entry, r) else None))
          (set_of tab (mvcc_index_compensation_keys tm)))"

section \<open>Owners of physical inserts\<close>

text \<open>\<open>fds\<close> gives the file descriptor of a table's open file, \<^verbatim>\<open>sm_manager_->fhs_\<close>.\<close>

definition MakePhysicalInsertKey_fd :: "int \<Rightarrow> Rid \<Rightarrow> PhysicalInsertKey" where
  "MakePhysicalInsertKey_fd fd rid = PhysicalInsertKey fd (page_no rid) (slot_no rid)"

definition MakePhysicalInsertKey :: "(string \<Rightarrow> int option) \<Rightarrow> string \<Rightarrow> Rid \<Rightarrow> PhysicalInsertKey result" where
  "MakePhysicalInsertKey fds tab rid =
     (case fds tab of None \<Rightarrow> Throw (TableNotFoundError tab) | Some fd \<Rightarrow> Ret (MakePhysicalInsertKey_fd fd rid))"

definition RegisterPhysicalInsert_fd :: "int \<Rightarrow> Rid \<Rightarrow> Transaction option \<Rightarrow> TransactionManager \<Rightarrow> TransactionManager" where
  "RegisterPhysicalInsert_fd fd rid txn tm =
     (case txn of
        None \<Rightarrow> tm
      | Some t \<Rightarrow> tm\<lparr>physical_insert_owners :=
                     AList.update (MakePhysicalInsertKey_fd fd rid) (txn_id t) (physical_insert_owners tm)\<rparr>)"

definition RegisterPhysicalInsert ::
  "(string \<Rightarrow> int option) \<Rightarrow> string \<Rightarrow> Rid \<Rightarrow> Transaction option \<Rightarrow> (TransactionManager, unit) op" where
  "RegisterPhysicalInsert fds tab rid txn tm =
     (if txn = None then (Ret (), tm)
      else case MakePhysicalInsertKey fds tab rid of
        Inl e \<Rightarrow> (Throw e, tm)
      | Inr key \<Rightarrow> (Ret (), RegisterPhysicalInsert_fd (pk_fd key) rid txn tm))"

definition UnregisterPhysicalInsert_fd :: "int \<Rightarrow> Rid \<Rightarrow> Transaction option \<Rightarrow> TransactionManager \<Rightarrow> TransactionManager" where
  "UnregisterPhysicalInsert_fd fd rid txn tm =
     (let key = MakePhysicalInsertKey_fd fd rid in
      case map_of (physical_insert_owners tm) key of
        None \<Rightarrow> tm
      | Some owner \<Rightarrow>
          if txn = None \<or> owner = txn_id (the txn)
          then tm\<lparr>physical_insert_owners := AList.delete key (physical_insert_owners tm)\<rparr> else tm)"

definition UnregisterPhysicalInsert ::
  "(string \<Rightarrow> int option) \<Rightarrow> string \<Rightarrow> Rid \<Rightarrow> Transaction option \<Rightarrow> (TransactionManager, unit) op" where
  "UnregisterPhysicalInsert fds tab rid txn tm =
     (case MakePhysicalInsertKey fds tab rid of
        Inl e \<Rightarrow> (Throw e, tm)
      | Inr key \<Rightarrow> (Ret (), UnregisterPhysicalInsert_fd (pk_fd key) rid txn tm))"

definition OwnsPhysicalInsert_fd :: "int \<Rightarrow> Rid \<Rightarrow> Transaction option \<Rightarrow> TransactionManager \<Rightarrow> bool" where
  "OwnsPhysicalInsert_fd fd rid txn tm =
     (case txn of
        None \<Rightarrow> False
      | Some t \<Rightarrow> map_of (physical_insert_owners tm) (MakePhysicalInsertKey_fd fd rid) = Some (txn_id t))"

definition OwnsPhysicalInsert ::
  "(string \<Rightarrow> int option) \<Rightarrow> string \<Rightarrow> Rid \<Rightarrow> Transaction option \<Rightarrow> (TransactionManager, bool) op" where
  "OwnsPhysicalInsert fds tab rid txn tm =
     (if txn = None then (Ret False, tm)
      else case MakePhysicalInsertKey fds tab rid of
        Inl e \<Rightarrow> (Throw e, tm)
      | Inr key \<Rightarrow> (Ret (OwnsPhysicalInsert_fd (pk_fd key) rid txn tm), tm))"

section \<open>Write conflicts\<close>

text \<open>The test that rejects a snapshot writer: another transaction is writing, or has committed since the snapshot.\<close>

definition mvcc_conflict :: "Transaction \<Rightarrow> MvccEntry \<Rightarrow> bool" where
  "mvcc_conflict t entry \<longleftrightarrow>
     (writer_txn entry \<noteq> INVALID_TXN_ID \<and> writer_txn entry \<noteq> txn_id t) \<or>
     (writer_txn entry \<noteq> txn_id t \<and> e_commit_ts entry > start_ts t)"

definition CheckMvccWriteConflict :: "string \<Rightarrow> Rid \<Rightarrow> bytes \<Rightarrow> Transaction option \<Rightarrow> TransactionManager \<Rightarrow> unit result" where
  "CheckMvccWriteConflict tab rid old_rec txn tm =
     (if \<not> IsMvccTxn txn then Ret ()
      else case map_of (mvcc_versions tm) (MvccKey tab rid) of
        None \<Rightarrow> Ret ()
      | Some entry \<Rightarrow>
          if mvcc_conflict (the txn) entry then Throw (TransactionAbortException (txn_id (the txn)) MVCC_CONFLICT)
          else Ret ())"

text \<open>Operations of a transaction on the store.\<close>

type_synonym 'a txn_op = "(Transaction \<times> TransactionManager, 'a) op"

definition on_tm :: "(Transaction \<Rightarrow> (TransactionManager, 'a) op) \<Rightarrow> 'a txn_op" where
  "on_tm f s = (case s of (t, tm) \<Rightarrow> case f t tm of (r, tm') \<Rightarrow> (r, t, tm'))"

definition upd_entry :: "string \<Rightarrow> (MvccEntry \<Rightarrow> MvccEntry) \<Rightarrow> TransactionManager \<Rightarrow> TransactionManager" where
  "upd_entry key f tm =
     tm\<lparr>mvcc_versions :=
          AList.update key (f (case map_of (mvcc_versions tm) key of None \<Rightarrow> new_MvccEntry | Some e \<Rightarrow> e)) (mvcc_versions tm)\<rparr>"

text \<open>What the first write of a transaction to a row leaves for its abort.\<close>

definition save_for_abort :: "bool \<Rightarrow> bytes \<Rightarrow> bool \<Rightarrow> MvccEntry \<Rightarrow> MvccEntry" where
  "save_for_abort had_entry old_rec inserted_record entry =
     (let entry = entry\<lparr>had_entry_on_abort := had_entry\<rparr>;
          entry =
            (if had_entry
             then entry\<lparr>restore_snapshot :=
                    Some (MvccEntryBase.truncate
                      (entry\<lparr>rollback_delete_physical := False, rollback_restore_physical := False, had_entry_on_abort := False\<rparr>))\<rparr>
             else entry\<lparr>restore_snapshot := None\<rparr>);
          entry = entry\<lparr>rollback_delete_physical := inserted_record, rollback_restore_physical := \<not> inserted_record\<rparr>
      in
      if inserted_record then entry
      else entry\<lparr>rollback_record := old_rec,
                 undo_versions := undo_versions entry @
                   [\<lparr>v_record = old_rec, v_is_deleted = e_is_deleted entry, v_commit_ts = e_commit_ts entry,
                     v_writer_txn = writer_txn entry\<rparr>]\<rparr>)"

definition PrepareWriteLocked :: "string \<Rightarrow> Rid \<Rightarrow> bytes \<Rightarrow> bool \<Rightarrow> unit txn_op" where
  "PrepareWriteLocked tab rid old_rec inserted_record s =
     (case s of (t, tm) \<Rightarrow>
        let key = MvccKey tab rid;
            had_entry = (map_of (mvcc_versions tm) key \<noteq> None);
            tm = EnsureMvccEntryLocked tab rid (if inserted_record then None else Some old_rec) tm;
            entry = the (map_of (mvcc_versions tm) key)
        in
        if IsMvccTxn (Some t) \<and> mvcc_conflict t entry
        then (Throw (TransactionAbortException (txn_id t) MVCC_CONFLICT), t, tm)
        else
          case add_mvcc_write_key key t of
            (True, t) \<Rightarrow> (Ret (), t, upd_entry key (save_for_abort had_entry old_rec inserted_record) tm)
          | (False, t) \<Rightarrow> (Ret (), t, tm))"

section \<open>Dependencies of serializable transactions\<close>

definition HasDangerousStructureLocked :: "txn_id_t \<Rightarrow> TransactionManager \<Rightarrow> bool" where
  "HasDangerousStructureLocked pivot tm =
     (case (map_of (rw_in tm) pivot, map_of (rw_out tm) pivot) of
        (Some ins, Some outs) \<Rightarrow>
          list_ex (\<lambda>tin. list_ex (\<lambda>tout.
            tin = tout \<or>
            (case map_of (ser_txn_finish_ts tm) tout of
               None \<Rightarrow> False
             | Some tout_finish \<Rightarrow>
                 (case map_of (ser_txn_finish_ts tm) tin of None \<Rightarrow> True | Some tin_finish \<Rightarrow> tout_finish < tin_finish))) outs) ins
      | _ \<Rightarrow> False)"

definition RememberSerializableTxnLocked :: "Transaction option \<Rightarrow> TransactionManager \<Rightarrow> TransactionManager" where
  "RememberSerializableTxnLocked txn tm =
     (case txn of
        None \<Rightarrow> tm
      | Some t \<Rightarrow>
          if isolation_level t \<noteq> SERIALIZABLE \<or> map_of (ser_txn_start_ts tm) (txn_id t) \<noteq> None then tm
          else tm\<lparr>ser_txn_start_ts := AList.update (txn_id t) (start_ts t) (ser_txn_start_ts tm)\<rparr>)"

definition AddRwEdgeLocked :: "txn_id_t \<Rightarrow> txn_id_t \<Rightarrow> Transaction \<Rightarrow> (TransactionManager, unit) op" where
  "AddRwEdgeLocked reader writer current_txn tm =
     (if reader = INVALID_TXN_ID \<or> writer = INVALID_TXN_ID \<or> reader = writer then (Ret (), tm)
      else if (reader, writer) \<in> set (rw_edges tm) then (Ret (), tm)
      else
        let tm = tm\<lparr>rw_edges := (reader, writer) # rw_edges tm, rw_out := set_insert reader writer (rw_out tm),
                    rw_in := set_insert writer reader (rw_in tm)\<rparr>
        in
        if HasDangerousStructureLocked reader tm \<or> HasDangerousStructureLocked writer tm
        then (Throw (TransactionAbortException (txn_id current_txn) SSI_CONFLICT), tm)
        else (Ret (), tm))"

definition read_matches :: "string \<Rightarrow> string \<Rightarrow> bytes option \<Rightarrow> bytes option \<Rightarrow> PredicateRead \<Rightarrow> bool" where
  "read_matches tab key old_rec new_rec read =
     (let m = (\<lambda>r. case r of None \<Rightarrow> False | Some r \<Rightarrow> eval_txn_conds r (pr_cols read) (pr_conds read)) in
      pr_tab_name read = tab \<and> (key \<in> set (record_keys read) \<or> m old_rec \<or> m new_rec))"

definition CheckSerializableWriteLocked ::
  "string \<Rightarrow> Rid \<Rightarrow> bytes option \<Rightarrow> bytes option \<Rightarrow> Transaction \<Rightarrow> (TransactionManager, unit) op" where
  "CheckSerializableWriteLocked tab rid old_rec new_rec txn tm =
     (if \<not> IsMvccTxn (Some txn) \<or> isolation_level txn \<noteq> SERIALIZABLE then (Ret (), tm)
      else
        let key = MvccKey tab rid; tm = RememberSerializableTxnLocked (Some txn) tm in
        mapM_op (\<lambda>(reader, reads) tm.
          if reader = txn_id txn then (Ret (), tm)
          else if (case map_of (ser_txn_finish_ts tm) reader of None \<Rightarrow> False | Some f \<Rightarrow> f \<le> start_ts txn) then (Ret (), tm)
          else
            mapM_op (\<lambda>read.
              if read_matches tab key old_rec new_rec read then AddRwEdgeLocked reader (txn_id txn) txn else ret ())
              reads tm)
          (serializable_reads tm) tm)"

section \<open>Versioned writes\<close>

text \<open>The assignments to the entry that end every versioned write.\<close>

definition write_head :: "bool \<Rightarrow> bytes \<Rightarrow> txn_id_t \<Rightarrow> MvccEntry \<Rightarrow> MvccEntry" where
  "write_head deleted rec i entry =
     entry\<lparr>e_exists := True, e_is_deleted := deleted, e_commit_ts := INVALID_TS, writer_txn := i, last_writer_txn := i,
           has_head_record := True, head_record := rec\<rparr>"

definition put_head :: "string \<Rightarrow> bool \<Rightarrow> bytes \<Rightarrow> unit txn_op" where
  "put_head key deleted rec = modify (\<lambda>(t, tm). (t, upd_entry key (write_head deleted rec (txn_id t)) tm))"

definition MvccInsertLocked :: "string \<Rightarrow> Rid \<Rightarrow> bytes \<Rightarrow> unit txn_op" where
  "MvccInsertLocked tab rid new_rec =
     bind_op (on_tm (CheckSerializableWriteLocked tab rid None (Some new_rec))) (\<lambda>_.
     bind_op (PrepareWriteLocked tab rid new_rec True) (\<lambda>_.
     put_head (MvccKey tab rid) False new_rec))"

definition MvccInsert :: "string \<Rightarrow> Rid \<Rightarrow> bytes \<Rightarrow> unit txn_op" where
  "MvccInsert tab rid new_rec s =
     (if \<not> ShouldVersionWrites (Some (fst s)) (snd s) then (Ret (), s) else MvccInsertLocked tab rid new_rec s)"

definition add_compensation :: "string \<Rightarrow> string \<Rightarrow> unit txn_op" where
  "add_compensation tab key =
     modify (\<lambda>(t, tm). (t, tm\<lparr>mvcc_index_compensation_keys := set_insert tab key (mvcc_index_compensation_keys tm)\<rparr>))"

definition MvccUpdate :: "DbMeta \<Rightarrow> string \<Rightarrow> Rid \<Rightarrow> bytes \<Rightarrow> bytes \<Rightarrow> unit txn_op" where
  "MvccUpdate db tab rid old_rec new_rec s =
     (if \<not> ShouldVersionWrites (Some (fst s)) (snd s) then (Ret (), s)
      else
        bind_op (on_tm (CheckSerializableWriteLocked tab rid (Some old_rec) (Some new_rec))) (\<lambda>_.
        bind_op (PrepareWriteLocked tab rid old_rec False) (\<lambda>_.
        bind_op (put_head (MvccKey tab rid) False new_rec) (\<lambda>_.
        case get_table db tab of
          Inl e \<Rightarrow> throw e
        | Inr meta \<Rightarrow>
            if index_keys_changed meta old_rec new_rec then add_compensation tab (MvccKey tab rid) else ret ()))) s)"

definition MvccDelete :: "string \<Rightarrow> Rid \<Rightarrow> bytes \<Rightarrow> unit txn_op" where
  "MvccDelete tab rid old_rec s =
     (if \<not> ShouldVersionWrites (Some (fst s)) (snd s) then (Ret (), s)
      else
        bind_op (on_tm (CheckSerializableWriteLocked tab rid (Some old_rec) None)) (\<lambda>_.
        bind_op (PrepareWriteLocked tab rid old_rec False) (\<lambda>_.
        bind_op (put_head (MvccKey tab rid) True old_rec) (\<lambda>_.
        add_compensation tab (MvccKey tab rid)))) s)"

section \<open>Logical keys\<close>

definition BuildMvccConflictKeys :: "TabMeta \<Rightarrow> bytes \<Rightarrow> bool \<Rightarrow> bytes list" where
  "BuildMvccConflictKeys tab rec include_fallback =
     (let keys = map (\<lambda>index. str_bytes (''idx:'' @ concat (map (\<lambda>c. col_name c @ '','') (ix_cols index))) @ [0] @
                                 make_index_key rec index) (indexes tab)
      in
      if keys = [] \<and> include_fallback \<and> cols tab \<noteq> []
      then (let col = hd (cols tab) in
            [str_bytes (''fallback:'' @ col_name col) @ [0] @ get_bytes rec (off_of col) (len_of col)])
      else keys)"

definition RecordsConflictByLogicalKey :: "TabMeta \<Rightarrow> bytes \<Rightarrow> bytes \<Rightarrow> bool \<Rightarrow> bool" where
  "RecordsConflictByLogicalKey tab lhs rhs include_fallback =
     list_ex (\<lambda>l. list_ex (\<lambda>r. l = r) (BuildMvccConflictKeys tab rhs include_fallback))
       (BuildMvccConflictKeys tab lhs include_fallback)"

definition entry_key_conflict :: "TabMeta \<Rightarrow> bytes \<Rightarrow> Transaction \<Rightarrow> Rid option \<Rightarrow> MvccEntry \<Rightarrow> bool" where
  "entry_key_conflict tab new_rec t self_rid entry =
     (if self_rid \<noteq> None \<and> page_no (e_rid entry) = page_no (the self_rid) \<and> slot_no (e_rid entry) = slot_no (the self_rid)
      then False
      else if \<not> has_head_record entry \<or> last_writer_txn entry = txn_id t then False
      else if \<not> (writer_txn entry \<noteq> INVALID_TXN_ID \<or> e_commit_ts entry > start_ts t) then False
      else if \<not> (e_exists entry \<and> \<not> e_is_deleted entry \<or> list_ex (\<lambda>v. \<not> v_is_deleted v) (undo_versions entry)) then False
      else
        let include_fallback = (self_rid = None) in
        e_exists entry \<and> \<not> e_is_deleted entry \<and> RecordsConflictByLogicalKey tab new_rec (head_record entry) include_fallback \<or>
        list_ex (\<lambda>v. \<not> v_is_deleted v \<and> RecordsConflictByLogicalKey tab new_rec (v_record v) include_fallback)
          (undo_versions entry))"

definition CheckMvccUniqueConflict ::
  "DbMeta \<Rightarrow> string \<Rightarrow> bytes \<Rightarrow> Transaction option \<Rightarrow> Rid option \<Rightarrow> TransactionManager \<Rightarrow> unit result" where
  "CheckMvccUniqueConflict db tab new_rec txn self_rid tm =
     (if \<not> IsMvccTxn txn then Ret ()
      else case get_table db tab of
        Inl e \<Rightarrow> Throw e
      | Inr meta \<Rightarrow>
          if list_ex (\<lambda>key. case map_of (mvcc_versions tm) key of
                None \<Rightarrow> False
              | Some entry \<Rightarrow> entry_key_conflict meta new_rec (the txn) self_rid entry) (set_of tab (mvcc_table_keys tm))
          then Throw (TransactionAbortException (txn_id (the txn)) MVCC_CONFLICT) else Ret ())"

definition CheckMvccInsertConflict ::
  "DbMeta \<Rightarrow> string \<Rightarrow> bytes \<Rightarrow> Transaction option \<Rightarrow> TransactionManager \<Rightarrow> unit result" where
  "CheckMvccInsertConflict db tab new_rec txn tm = CheckMvccUniqueConflict db tab new_rec txn None tm"

section \<open>Reads of serializable transactions\<close>

definition unseen_writer :: "Transaction \<Rightarrow> MvccEntry \<Rightarrow> txn_id_t option" where
  "unseen_writer t entry =
     (let writer = (if writer_txn entry \<noteq> INVALID_TXN_ID then writer_txn entry else last_writer_txn entry);
          invisible_active = (writer_txn entry \<noteq> INVALID_TXN_ID \<and> writer_txn entry \<noteq> txn_id t);
          invisible_committed = (writer_txn entry = INVALID_TXN_ID \<and> e_commit_ts entry > start_ts t)
      in
      if writer = INVALID_TXN_ID \<or> writer = txn_id t then None
      else if \<not> invisible_active \<and> \<not> invisible_committed then None
      else Some writer)"

definition RegisterSerializableRead ::
  "string \<Rightarrow> ColMeta list \<Rightarrow> Condition list \<Rightarrow> Rid list \<Rightarrow> Transaction option \<Rightarrow> (TransactionManager, unit) op" where
  "RegisterSerializableRead tab cs conds returned_rids txn tm =
     (if \<not> IsMvccTxn txn \<or> isolation_level (the txn) \<noteq> SERIALIZABLE then (Ret (), tm)
      else
        let t = the txn;
            tm = RememberSerializableTxnLocked txn tm;
            read = \<lparr>pr_txn_id = txn_id t, pr_tab_name = tab, pr_cols = cs, pr_conds = conds,
                    record_keys = remdups (map (MvccKey tab) returned_rids)\<rparr>
        in
        bind_op (mapM_op (\<lambda>(key, entry).
            if e_tab_name entry \<noteq> tab \<or> \<not> has_head_record entry then ret ()
            else case unseen_writer t entry of
              None \<Rightarrow> ret ()
            | Some writer \<Rightarrow>
                let key_returned = (key \<in> set (record_keys read));
                    current_matches = (e_exists entry \<and> \<not> e_is_deleted entry \<and> eval_txn_conds (head_record entry) cs conds);
                    old_matches = (case newest_before (start_ts t) (undo_versions entry) of
                        None \<Rightarrow> False | Some v \<Rightarrow> \<not> v_is_deleted v \<and> eval_txn_conds (v_record v) cs conds)
                in if key_returned \<or> current_matches \<or> old_matches then AddRwEdgeLocked (txn_id t) writer t else ret ())
            (mvcc_versions tm))
          (\<lambda>_. modify (\<lambda>tm. tm\<lparr>serializable_reads :=
             AList.update (txn_id t) (set_of (txn_id t) (serializable_reads tm) @ [read]) (serializable_reads tm)\<rparr>)) tm)"

definition forget_txn :: "txn_id_t \<Rightarrow> TransactionManager \<Rightarrow> TransactionManager" where
  "forget_txn i tm =
     tm\<lparr>serializable_reads := AList.delete i (serializable_reads tm),
        rw_in := map (\<lambda>(k, xs). (k, removeAll i xs)) (AList.delete i (rw_in tm)),
        rw_out := map (\<lambda>(k, xs). (k, removeAll i xs)) (AList.delete i (rw_out tm)),
        rw_edges := filter (\<lambda>(a, b). \<not> (a = i \<or> b = i)) (rw_edges tm),
        ser_txn_start_ts := AList.delete i (ser_txn_start_ts tm),
        ser_txn_finish_ts := AList.delete i (ser_txn_finish_ts tm)\<rparr>"

definition CleanupSerializableStateLocked :: "TransactionManager \<Rightarrow> TransactionManager" where
  "CleanupSerializableStateLocked tm =
     (let watermark = GetWatermark (running_txns tm);
          removable = map fst (filter (\<lambda>(_, ts). ts \<le> watermark) (ser_txn_finish_ts tm))
      in fold forget_txn removable tm)"

definition ClearTxnStateLocked :: "Transaction option \<Rightarrow> TransactionManager \<Rightarrow> TransactionManager" where
  "ClearTxnStateLocked txn tm = (case txn of None \<Rightarrow> tm | Some t \<Rightarrow> forget_txn (txn_id t) tm)"

section \<open>Commit, abort and collection of versions\<close>

text \<open>The block of \<^verbatim>\<open>commit\<close> under the version latch.\<close>

definition stamp_entry :: "txn_id_t \<Rightarrow> timestamp_t \<Rightarrow> MvccEntry \<Rightarrow> MvccEntry" where
  "stamp_entry i ts entry =
     (if writer_txn entry = i
      then entry\<lparr>writer_txn := INVALID_TXN_ID, e_commit_ts := ts, rollback_delete_physical := False,
                 rollback_restore_physical := False, restore_snapshot := None, had_entry_on_abort := False\<rparr>
      else entry)"

definition stamp_key :: "txn_id_t \<Rightarrow> timestamp_t \<Rightarrow> string \<Rightarrow> TransactionManager \<Rightarrow> TransactionManager" where
  "stamp_key i ts key tm =
     (case map_of (mvcc_versions tm) key of None \<Rightarrow> tm | Some _ \<Rightarrow> upd_entry key (stamp_entry i ts) tm)"

definition commit_versions :: "Transaction \<Rightarrow> TransactionManager \<Rightarrow> Transaction \<times> TransactionManager" where
  "commit_versions t tm =
     (let ts = last_commit_ts tm + 1;
          tm = fold (stamp_key (txn_id t) ts) (mvcc_write_keys t) tm;
          tm = (if isolation_level t = SERIALIZABLE
                then tm\<lparr>ser_txn_finish_ts := AList.update (txn_id t) ts (ser_txn_finish_ts tm)\<rparr> else tm)
      in (t\<lparr>Transaction.commit_ts := ts\<rparr>, tm\<lparr>last_commit_ts := ts\<rparr>))"

text \<open>Erasing an entry together with its key in the two sets of its table.\<close>

definition erase_entry :: "string \<Rightarrow> string \<Rightarrow> TransactionManager \<Rightarrow> TransactionManager" where
  "erase_entry tab key tm =
     tm\<lparr>mvcc_table_keys := set_erase tab key (mvcc_table_keys tm),
        mvcc_index_compensation_keys := set_erase tab key (mvcc_index_compensation_keys tm),
        mvcc_versions := AList.delete key (mvcc_versions tm),
        mvcc_entry_count := mvcc_entry_count tm - 1\<rparr>"

text \<open>The part of \<^verbatim>\<open>abort\<close> that rolls an entry back.\<close>

definition restore_entry :: "string \<Rightarrow> string \<Rightarrow> MvccEntry \<Rightarrow> TransactionManager \<Rightarrow> TransactionManager" where
  "restore_entry tab key entry tm =
     (case restore_snapshot entry of
        Some snapshot \<Rightarrow>
          if had_entry_on_abort entry
          then tm\<lparr>mvcc_versions :=
                 AList.update key (MvccEntryBase.extend snapshot (MvccEntry.fields None)) (mvcc_versions tm)\<rparr>
          else erase_entry tab key tm
      | None \<Rightarrow> erase_entry tab key tm)"

text \<open>The first loop of \<^verbatim>\<open>GarbageCollection\<close>: pruning the versions of an entry, and the entries to remove.\<close>

definition keep_from :: "timestamp_t \<Rightarrow> MvccVersion list \<Rightarrow> MvccVersion list" where
  "keep_from watermark vs =
     (case find (\<lambda>i. v_writer_txn (vs ! i) = INVALID_TXN_ID \<and> v_commit_ts (vs ! i) \<le> watermark) (rev [0 ..< length vs]) of
        None \<Rightarrow> vs
      | Some keep_idx \<Rightarrow> drop keep_idx vs)"

definition gc_entry :: "timestamp_t \<Rightarrow> MvccEntry \<Rightarrow> MvccEntry" where
  "gc_entry watermark entry =
     (if writer_txn entry \<noteq> INVALID_TXN_ID then entry
      else
        let entry = (if undo_versions entry \<noteq> []
                     then entry\<lparr>undo_versions :=
                            (if e_commit_ts entry \<le> watermark then [] else keep_from watermark (undo_versions entry))\<rparr>
                     else entry)
        in if e_exists entry \<and> e_is_deleted entry \<and> e_commit_ts entry \<le> watermark then entry\<lparr>undo_versions := []\<rparr> else entry)"

definition gc_removable :: "timestamp_t \<Rightarrow> MvccEntry \<Rightarrow> bool" where
  "gc_removable watermark entry \<longleftrightarrow>
     writer_txn entry = INVALID_TXN_ID \<and> e_exists entry \<and> e_commit_ts entry \<le> watermark \<and>
     (e_is_deleted entry \<or> undo_versions entry = [])"

definition gc_scan :: "TransactionManager \<Rightarrow> string list \<times> TransactionManager" where
  "gc_scan tm =
     (let watermark = GetWatermark (running_txns tm);
          versions = map (\<lambda>(key, entry). (key, gc_entry watermark entry)) (mvcc_versions tm)
      in (map fst (filter (\<lambda>(_, entry). gc_removable watermark entry) versions), tm\<lparr>mvcc_versions := versions\<rparr>))"

definition gc_erase :: "string \<Rightarrow> TransactionManager \<Rightarrow> TransactionManager" where
  "gc_erase key tm =
     (case map_of (mvcc_versions tm) key of None \<Rightarrow> tm | Some entry \<Rightarrow> erase_entry (e_tab_name entry) key tm)"

section \<open>Life of a transaction\<close>

text \<open>
  What \<^verbatim>\<open>begin\<close> does with a new transaction once its object is set up, and how \<^verbatim>\<open>commit\<close> and \<^verbatim>\<open>abort\<close> take a snapshot
  transaction out of the running ones.
\<close>

definition start_snapshot :: "Transaction \<Rightarrow> TransactionManager \<Rightarrow> Transaction \<times> TransactionManager" where
  "start_snapshot t tm =
     (if mvcc_enabled t
      then (t\<lparr>start_ts := last_commit_ts tm, read_ts := last_commit_ts tm\<rparr>,
            tm\<lparr>running_txns := AddTxn (last_commit_ts tm) (running_txns tm),
               active_mvcc_txn_count := active_mvcc_txn_count tm + 1\<rparr>)
      else (t, tm))"

definition end_snapshot :: "Transaction \<Rightarrow> TransactionManager \<Rightarrow> TransactionManager" where
  "end_snapshot t tm =
     (if mvcc_enabled t
      then tm\<lparr>running_txns := RemoveTxn (read_ts t) (running_txns tm),
              active_mvcc_txn_count := active_mvcc_txn_count tm - 1\<rparr>
      else tm)"

text \<open>The version-store part of \<^verbatim>\<open>commit\<close>, up to the periodic collection, and the one that ends \<^verbatim>\<open>abort\<close>.\<close>

definition commit_mvcc :: "Transaction \<Rightarrow> TransactionManager \<Rightarrow> Transaction \<times> TransactionManager" where
  "commit_mvcc t tm =
     (if mvcc_enabled t \<or> mvcc_write_keys t \<noteq> [] then
        let (t, tm) = commit_versions t tm;
            tm = tm\<lparr>running_txns := UpdateCommitTs (Transaction.commit_ts t) (running_txns tm)\<rparr>;
            tm = end_snapshot t tm
        in (t, CleanupSerializableStateLocked tm)
      else (t, tm))"

definition abort_mvcc :: "Transaction \<Rightarrow> TransactionManager \<Rightarrow> TransactionManager" where
  "abort_mvcc t tm = CleanupSerializableStateLocked (end_snapshot t (ClearTxnStateLocked (Some t) tm))"

end
