(* ===== verification/Mvcc_Snapshot.thy ===== *)
theory Mvcc_Snapshot
  imports Mvcc
begin

text \<open>
  Snapshot isolation of the version store. The theory runs the operations of theory \<^verbatim>\<open>Mvcc\<close> in any order, on
  behalf of any number of transactions, next to the rows of the record files. A run is a list of events;
  each event is the version-store work of one call of the transaction manager with the change of the row that its
  caller makes, and is atomic as the latch makes it. The guards are what the callers ensure: a row
  is updated or deleted through the record the transaction sees, an insert takes a free slot, writes are versioned,
  and a transaction without a snapshot writes only rows that no other transaction is writing.

  The central notion is the view of the rows at a timestamp. The view at the snapshot of a running
  transaction never changes, whatever the others do; a commit installs all writes of the
  transaction in the view at its commit timestamp.
\<close>

section \<open>Keys\<close>

lemma MvccKey_inj: "MvccKey tab rid = MvccKey tab' rid' \<longleftrightarrow> tab = tab' \<and> rid = rid'"
proof
  assume e: "MvccKey tab rid = MvccKey tab' rid'"
  let ?r = "\<lambda>i. rev (int_to_string i)"
  have h: "CHR ''#'' \<notin> set (?r i)" for i using int_to_string_no_hash by simp
  from e have "rev (MvccKey tab rid) = rev (MvccKey tab' rid')" by simp
  then have "?r (slot_no rid) @ CHR ''#'' # (?r (page_no rid) @ CHR ''#'' # rev tab) =
      ?r (slot_no rid') @ CHR ''#'' # (?r (page_no rid') @ CHR ''#'' # rev tab')"
    by (simp add: MvccKey_def)
  then have "?r (slot_no rid) = ?r (slot_no rid')" "?r (page_no rid) = ?r (page_no rid')" "rev tab = rev tab'"
    using h by (simp_all add: hash_append_inj)
  then show "tab = tab' \<and> rid = rid'" using int_to_string_inj by (cases rid; cases rid') auto
qed simp

section \<open>Runs\<close>

record snap_state =
  mv_tm :: TransactionManager
  mv_heap :: "string \<Rightarrow> Rid \<Rightarrow> bytes option"
  mv_running :: "txn_id_t \<Rightarrow> Transaction option"

datatype mv_event =
    EvBegin txn_id_t IsolationLevel
  | EvInsert txn_id_t string Rid bytes
  | EvUpdate txn_id_t string Rid bytes
  | EvDelete txn_id_t string Rid
  | EvRead txn_id_t string "ColMeta list" "Condition list" "Rid list"
  | EvCommit txn_id_t
  | EvAbort txn_id_t "(string \<times> Rid) list"
  | EvCollect

definition put_heap :: "string \<Rightarrow> Rid \<Rightarrow> bytes option \<Rightarrow> snap_state \<Rightarrow> snap_state" where
  "put_heap tab rid v st = st\<lparr>mv_heap := (mv_heap st)(tab := (mv_heap st tab)(rid := v))\<rparr>"

definition mv_see :: "Transaction \<Rightarrow> string \<Rightarrow> Rid \<Rightarrow> snap_state \<Rightarrow> bytes option" where
  "mv_see t tab rid st = (case mv_heap st tab rid of None \<Rightarrow> None | Some p \<Rightarrow> GetVisibleRecord tab rid p (Some t) (mv_tm st))"

definition other_writer :: "Transaction \<Rightarrow> string \<Rightarrow> Rid \<Rightarrow> snap_state \<Rightarrow> bool" where
  "other_writer t tab rid st =
     (case map_of (mvcc_versions (mv_tm st)) (MvccKey tab rid) of
        None \<Rightarrow> False | Some e \<Rightarrow> writer_txn e \<noteq> INVALID_TXN_ID \<and> writer_txn e \<noteq> txn_id t)"

definition may_write :: "Transaction \<Rightarrow> string \<Rightarrow> Rid \<Rightarrow> snap_state \<Rightarrow> bool" where
  "may_write t tab rid st \<longleftrightarrow> ShouldVersionWrites (Some t) (mv_tm st) \<and> (mvcc_enabled t \<or> \<not> other_writer t tab rid st)"

text \<open>A call on behalf of a running transaction; if it returns, the row gets its new content.\<close>

definition mv_call :: "txn_id_t \<Rightarrow> unit txn_op \<Rightarrow> (snap_state \<Rightarrow> snap_state) \<Rightarrow> Transaction \<Rightarrow> snap_state \<Rightarrow> snap_state" where
  "mv_call i c row t st =
     (case c (t, mv_tm st) of (r, t', m) \<Rightarrow>
        let st' = st\<lparr>mv_tm := m, mv_running := (mv_running st)(i \<mapsto> t')\<rparr> in
        case r of Inl _ \<Rightarrow> st' | Inr _ \<Rightarrow> row st')"

text \<open>Rolling back one row: the file gets its old content and the entry its old state.\<close>

definition rollback_row :: "txn_id_t \<Rightarrow> string \<times> Rid \<Rightarrow> snap_state \<Rightarrow> snap_state" where
  "rollback_row i row st =
     (case row of (tab, rid) \<Rightarrow>
        case map_of (mvcc_versions (mv_tm st)) (MvccKey tab rid) of
          None \<Rightarrow> st
        | Some e \<Rightarrow>
            if writer_txn e \<noteq> i then st
            else
              let st = (if rollback_delete_physical e then put_heap tab rid None st
                        else if rollback_restore_physical e then put_heap tab rid (Some (rollback_record e)) st
                        else st)
              in st\<lparr>mv_tm := restore_entry tab (MvccKey tab rid) e (mv_tm st)\<rparr>)"

text \<open>Removing an entry that the collection found removable, with the row of a deleted one.\<close>

definition collect_key :: "string \<Rightarrow> snap_state \<Rightarrow> snap_state" where
  "collect_key key st =
     (case map_of (mvcc_versions (mv_tm st)) key of
        None \<Rightarrow> st
      | Some e \<Rightarrow>
          let st = (if e_exists e \<and> e_is_deleted e then put_heap (e_tab_name e) (e_rid e) None st else st)
          in st\<lparr>mv_tm := gc_erase key (mv_tm st)\<rparr>)"

definition mv_collect :: "snap_state \<Rightarrow> snap_state" where
  "mv_collect st =
     (case gc_scan (mv_tm st) of (keys, m) \<Rightarrow>
        let st = fold collect_key keys (st\<lparr>mv_tm := m\<rparr>) in st\<lparr>mv_tm := CleanupSerializableStateLocked (mv_tm st)\<rparr>)"

definition with_txn :: "txn_id_t \<Rightarrow> (Transaction \<Rightarrow> snap_state \<Rightarrow> snap_state option) \<Rightarrow> snap_state \<Rightarrow> snap_state option" where
  "with_txn i f st = (case mv_running st i of None \<Rightarrow> None | Some t \<Rightarrow> f t st)"

fun mv_step :: "DbMeta \<Rightarrow> mv_event \<Rightarrow> snap_state \<Rightarrow> snap_state option" where
  "mv_step db (EvBegin i lvl) st =
     (if mv_running st i \<noteq> None \<or> i < 0 then None
      else
        case start_snapshot ((new_Transaction i lvl)\<lparr>mvcc_enabled := (lvl = SNAPSHOT_ISOLATION \<or> lvl = SERIALIZABLE)\<rparr>) (mv_tm st)
        of (t, m) \<Rightarrow> Some (st\<lparr>mv_tm := m, mv_running := (mv_running st)(i \<mapsto> t)\<rparr>))"
| "mv_step db (EvInsert i tab rid rec) st =
     with_txn i (\<lambda>t st.
       if mv_heap st tab rid \<noteq> None \<or> \<not> may_write t tab rid st then None
       else Some (mv_call i (MvccInsert tab rid rec) (put_heap tab rid (Some rec)) t st)) st"
| "mv_step db (EvUpdate i tab rid rec) st =
     with_txn i (\<lambda>t st.
       case mv_see t tab rid st of
         None \<Rightarrow> None
       | Some old_rec \<Rightarrow>
           if \<not> may_write t tab rid st \<or> \<not> is_ret (get_table db tab) then None
           else Some (mv_call i (MvccUpdate db tab rid old_rec rec) (put_heap tab rid (Some rec)) t st)) st"
| "mv_step db (EvDelete i tab rid) st =
     with_txn i (\<lambda>t st.
       case mv_see t tab rid st of
         None \<Rightarrow> None
       | Some old_rec \<Rightarrow>
           if \<not> may_write t tab rid st then None else Some (mv_call i (MvccDelete tab rid old_rec) id t st)) st"
| "mv_step db (EvRead i tab cs conds rids) st =
     with_txn i (\<lambda>t st. Some (st\<lparr>mv_tm := snd (RegisterSerializableRead tab cs conds rids (Some t) (mv_tm st))\<rparr>)) st"
| "mv_step db (EvCommit i) st =
     with_txn i (\<lambda>t st. Some (st\<lparr>mv_tm := snd (commit_mvcc t (mv_tm st)), mv_running := (mv_running st)(i := None)\<rparr>)) st"
| "mv_step db (EvAbort i rows) st =
     with_txn i (\<lambda>t st.
       if set (map (\<lambda>(tab, rid). MvccKey tab rid) rows) \<noteq> set (mvcc_write_keys t) then None
       else
         let st = fold (rollback_row i) rows st
         in Some (st\<lparr>mv_tm := abort_mvcc t (mv_tm st), mv_running := (mv_running st)(i := None)\<rparr>)) st"
| "mv_step db EvCollect st = Some (mv_collect st)"

fun mv_run :: "DbMeta \<Rightarrow> mv_event list \<Rightarrow> snap_state \<Rightarrow> snap_state option" where
  "mv_run db [] st = Some st"
| "mv_run db (ev # evs) st = (case mv_step db ev st of None \<Rightarrow> None | Some st' \<Rightarrow> mv_run db evs st')"

definition start_state :: "(string \<Rightarrow> Rid \<Rightarrow> bytes option) \<Rightarrow> snap_state" where
  "start_state h = \<lparr>mv_tm = new_TransactionManager, mv_heap = h, mv_running = Map.empty\<rparr>"

text \<open>The rows as of a timestamp.\<close>

definition entry_view :: "timestamp_t \<Rightarrow> MvccEntry option \<Rightarrow> bytes option \<Rightarrow> bytes option" where
  "entry_view ts entry physical =
     (case entry of
        None \<Rightarrow> physical
      | Some e \<Rightarrow>
          if writer_txn e = INVALID_TXN_ID \<and> e_commit_ts e \<le> ts then (if e_is_deleted e then None else physical)
          else version_record (newest_before ts (undo_versions e)))"

definition mv_view :: "snap_state \<Rightarrow> timestamp_t \<Rightarrow> string \<Rightarrow> Rid \<Rightarrow> bytes option" where
  "mv_view st ts tab rid = entry_view ts (map_of (mvcc_versions (mv_tm st)) (MvccKey tab rid)) (mv_heap st tab rid)"

section \<open>Invariant\<close>

definition versions_ok :: "timestamp_t \<Rightarrow> MvccVersion list \<Rightarrow> bool" where
  "versions_ok bound vs \<longleftrightarrow>
     sorted_wrt (<) (map v_commit_ts vs) \<and>
     (\<forall>v \<in> set vs. v_writer_txn v = INVALID_TXN_ID \<and> 0 \<le> v_commit_ts v \<and> v_commit_ts v < bound)"

definition committed_ok :: "timestamp_t \<Rightarrow> 'a MvccEntryBase_scheme \<Rightarrow> bool" where
  "committed_ok now e \<longleftrightarrow>
     e_exists e \<and> writer_txn e = INVALID_TXN_ID \<and> 0 \<le> e_commit_ts e \<and> e_commit_ts e \<le> now \<and>
     versions_ok (e_commit_ts e) (undo_versions e)"

definition undo_version :: "bytes \<Rightarrow> bool \<Rightarrow> timestamp_t \<Rightarrow> MvccVersion" where
  "undo_version rec deleted ts =
     \<lparr>v_record = rec, v_is_deleted = deleted, v_commit_ts = ts, v_writer_txn = INVALID_TXN_ID\<rparr>"

text \<open>What the entry of a row that a transaction is writing holds for its abort.\<close>

definition pending_ok :: "timestamp_t \<Rightarrow> MvccEntry \<Rightarrow> bool" where
  "pending_ok now e \<longleftrightarrow>
     e_exists e \<and>
     (case restore_snapshot e of
        Some b \<Rightarrow>
          had_entry_on_abort e \<and> committed_ok now b \<and> e_tab_name b = e_tab_name e \<and> e_rid b = e_rid e \<and>
          \<not> rollback_delete_physical e \<and> rollback_restore_physical e \<and>
          undo_versions e = undo_versions b @ [undo_version (rollback_record e) (e_is_deleted b) (e_commit_ts b)]
      | None \<Rightarrow>
          if rollback_delete_physical e then undo_versions e = []
          else rollback_restore_physical e \<and> undo_versions e = [undo_version (rollback_record e) False 0])"

definition entry_ok :: "timestamp_t \<Rightarrow> (txn_id_t \<Rightarrow> Transaction option) \<Rightarrow> string \<Rightarrow> MvccEntry \<Rightarrow> bool" where
  "entry_ok now run key e \<longleftrightarrow>
     (if writer_txn e = INVALID_TXN_ID then committed_ok now e
      else pending_ok now e \<and>
        (\<exists>t. run (writer_txn e) = Some t \<and> key \<in> set (mvcc_write_keys t) \<and>
           (mvcc_enabled t \<longrightarrow> (\<forall>v \<in> set (undo_versions e). v_commit_ts v \<le> start_ts t))))"

definition txn_ok :: "snap_state \<Rightarrow> txn_id_t \<Rightarrow> Transaction \<Rightarrow> bool" where
  "txn_ok st i t \<longleftrightarrow>
     txn_id t = i \<and> 0 \<le> i \<and>
     (mvcc_enabled t \<longrightarrow> 0 \<le> start_ts t \<and> start_ts t \<le> last_commit_ts (mv_tm st) \<and> read_ts t = start_ts t) \<and>
     (\<forall>key \<in> set (mvcc_write_keys t). \<exists>e. map_of (mvcc_versions (mv_tm st)) key = Some e \<and> writer_txn e = i)"

definition snapshots :: "(txn_id_t \<Rightarrow> Transaction option) \<Rightarrow> txn_id_t set" where
  "snapshots run = {i. \<exists>t. run i = Some t \<and> mvcc_enabled t}"

definition start_of :: "(txn_id_t \<Rightarrow> Transaction option) \<Rightarrow> txn_id_t \<Rightarrow> timestamp_t" where
  "start_of run i = start_ts (the (run i))"

definition store_wf :: "TransactionManager \<Rightarrow> bool" where
  "store_wf m \<longleftrightarrow> distinct (map fst (mvcc_versions m)) \<and> mvcc_entry_count m = int (length (mvcc_versions m))"

definition rows_ok :: "snap_state \<Rightarrow> bool" where
  "rows_ok st \<longleftrightarrow>
     (\<forall>key e. map_of (mvcc_versions (mv_tm st)) key = Some e \<longrightarrow>
        key = MvccKey (e_tab_name e) (e_rid e) \<and> mv_heap st (e_tab_name e) (e_rid e) \<noteq> None \<and>
        entry_ok (last_commit_ts (mv_tm st)) (mv_running st) key e)"

definition clock_ok :: "snap_state \<Rightarrow> bool" where
  "clock_ok st \<longleftrightarrow>
     0 \<le> last_commit_ts (mv_tm st) \<and> watermark_ok (running_txns (mv_tm st)) \<and>
     wm_commit_ts (running_txns (mv_tm st)) = last_commit_ts (mv_tm st) \<and>
     finite (snapshots (mv_running st)) \<and>
     running_reads (running_txns (mv_tm st)) = image_mset (start_of (mv_running st)) (mset_set (snapshots (mv_running st)))"

definition mv_ok :: "snap_state \<Rightarrow> bool" where
  "mv_ok st \<longleftrightarrow>
     store_wf (mv_tm st) \<and> rows_ok st \<and> clock_ok st \<and>
     (\<forall>i t. mv_running st i = Some t \<longrightarrow> txn_ok st i t)"

subsection \<open>Version lists\<close>

lemma versions_ok_Nil [simp]: "versions_ok b []"
  by (simp add: versions_ok_def)

lemma versions_ok_append:
  "versions_ok b (vs @ [undo_version r d ts]) \<longleftrightarrow> versions_ok ts vs \<and> 0 \<le> ts \<and> ts < b"
  by (fastforce simp: versions_ok_def sorted_wrt_append undo_version_def)

lemma versions_ok_mono: "versions_ok a vs \<Longrightarrow> a \<le> b \<Longrightarrow> versions_ok b vs"
  by (fastforce simp: versions_ok_def)

lemma pending_versions: "pending_ok now e \<Longrightarrow> 0 \<le> now \<Longrightarrow> versions_ok (now + 1) (undo_versions e)"
  using versions_ok_append [of "now + 1" "[]"]
  by (auto simp: pending_ok_def versions_ok_append committed_ok_def split: option.splits if_splits)

lemma newest_before_append:
  "newest_before ts (vs @ [v]) =
     (if v_writer_txn v = INVALID_TXN_ID \<and> v_commit_ts v \<le> ts then Some v else newest_before ts vs)"
  by (simp add: newest_before_def)

lemma newest_before_Nil [simp]: "newest_before ts [] = None"
  by (simp add: newest_before_def)

lemma undo_version_simps [simp]:
  "v_record (undo_version r d ts) = r" "v_is_deleted (undo_version r d ts) = d"
  "v_commit_ts (undo_version r d ts) = ts" "v_writer_txn (undo_version r d ts) = INVALID_TXN_ID"
  by (simp_all add: undo_version_def)

lemma find_append: "find P (xs @ ys) = (case find P xs of None \<Rightarrow> find P ys | Some x \<Rightarrow> Some x)"
  by (induction xs) auto

lemma find_SomeD: "find P xs = Some x \<Longrightarrow> x \<in> set xs \<and> P x"
  by (induction xs) (auto split: if_splits)

lemma newest_before_drop:
  assumes "k < length vs" "v_writer_txn (vs ! k) = INVALID_TXN_ID" "v_commit_ts (vs ! k) \<le> ts"
  shows "newest_before ts (drop k vs) = newest_before ts vs"
proof -
  have "newest_before ts (drop k vs) \<noteq> None"
    using assms by (auto simp: newest_before_def find_None_iff in_set_conv_nth intro!: exI [of _ 0])
  moreover have "rev vs = rev (drop k vs) @ rev (take k vs)" by (metis append_take_drop_id rev_append)
  ultimately show ?thesis by (auto simp: newest_before_def find_append split: option.splits)
qed

lemma keep_from_drop:
  obtains "keep_from w vs = vs"
  | k where "keep_from w vs = drop k vs" "k < length vs" "v_writer_txn (vs ! k) = INVALID_TXN_ID"
    "v_commit_ts (vs ! k) \<le> w"
proof (cases "find (\<lambda>i. v_writer_txn (vs ! i) = INVALID_TXN_ID \<and> v_commit_ts (vs ! i) \<le> w) (rev [0 ..< length vs])")
  case None
  then show ?thesis using that(1) by (simp add: keep_from_def)
next
  case (Some k)
  then have "k \<in> set (rev [0 ..< length vs])" "v_writer_txn (vs ! k) = INVALID_TXN_ID" "v_commit_ts (vs ! k) \<le> w"
    using find_SomeD [OF Some] by simp_all
  then show ?thesis using that(2) Some by (simp add: keep_from_def)
qed

lemma newest_before_keep_from: "w \<le> ts \<Longrightarrow> newest_before ts (keep_from w vs) = newest_before ts vs"
  by (cases rule: keep_from_drop [of w vs]) (auto simp: newest_before_drop)

lemma versions_ok_keep_from: "versions_ok b vs \<Longrightarrow> versions_ok b (keep_from w vs)"
  by (cases rule: keep_from_drop [of w vs]) (auto simp: versions_ok_def drop_map [symmetric] sorted_wrt_drop dest: in_set_dropD)

subsection \<open>What the operations leave alone\<close>

text \<open>The fields that the dependency graph does not use.\<close>

definition core :: "TransactionManager \<Rightarrow> (string \<times> MvccEntry) list \<times> timestamp_t \<times> Watermark \<times> int \<times> int" where
  "core m = (mvcc_versions m, last_commit_ts m, running_txns m, active_mvcc_txn_count m, mvcc_entry_count m)"

lemma mapM_op_invariant:
  "(\<And>x s. x \<in> set xs \<Longrightarrow> P s \<Longrightarrow> P (snd (f x s))) \<Longrightarrow> P s \<Longrightarrow> P (snd (mapM_op f xs s))"
proof (induction xs arbitrary: s)
  case (Cons x xs)
  obtain r s1 where r: "f x s = (r, s1)" by (cases "f x s")
  have "P s1" using Cons.prems(1) [of x s] Cons.prems(2) r by simp
  then show ?case using Cons r by (cases r) (auto simp: bind_op_def)
qed simp

lemma core_AddRwEdge [simp]: "core (snd (AddRwEdgeLocked r w t m)) = core m"
  by (simp add: AddRwEdgeLocked_def core_def Let_def)

lemma core_Remember [simp]: "core (RememberSerializableTxnLocked t m) = core m"
  by (simp add: RememberSerializableTxnLocked_def core_def split: option.splits)

lemma core_CheckSerializableWrite [simp]: "core (snd (CheckSerializableWriteLocked tab rid old new t m)) = core m"
proof -
  have "core (snd (mapM_op (\<lambda>read. if read_matches tab k old new read then AddRwEdgeLocked r w t else ret ()) reads m1)) = core m"
    if "core m1 = core m" for r w k reads m1
    using that by (intro mapM_op_invariant [where P = "\<lambda>m'. core m' = core m"]) auto
  then show ?thesis
    unfolding CheckSerializableWriteLocked_def Let_def
    by (auto intro!: mapM_op_invariant [where P = "\<lambda>m'. core m' = core m"])
qed

lemma core_RegisterSerializableRead [simp]: "core (snd (RegisterSerializableRead tab cs conds rids t m)) = core m"
proof -
  let ?m = "RememberSerializableTxnLocked t m"
  have inv: "core (snd (mapM_op f (mvcc_versions ?m) ?m)) = core m"
    if "\<And>x m'. core m' = core m \<Longrightarrow> core (snd (f x m')) = core m" for f :: "_ \<Rightarrow> (_, unit) op"
    using that by (intro mapM_op_invariant [where P = "\<lambda>m'. core m' = core m"]) auto
  have bind: "core (snd (bind_op c (\<lambda>_. modify (\<lambda>m. m\<lparr>serializable_reads := g m\<rparr>)) m1)) = core (snd (c m1))"
    for c :: "(_, unit) op" and m1 g
    by (cases "c m1"; cases "fst (c m1)") (auto simp: bind_op_def core_def)
  show ?thesis
    unfolding RegisterSerializableRead_def Let_def bind
    by (auto simp: bind intro!: inv split: option.splits)
qed

lemma core_forget [simp]: "core (forget_txn i m) = core m"
  by (simp add: forget_txn_def core_def)

lemma core_Cleanup [simp]: "core (CleanupSerializableStateLocked m) = core m"
proof -
  have "core (fold forget_txn is m) = core m" for "is" by (induction "is" arbitrary: m) simp_all
  then show ?thesis by (simp add: CleanupSerializableStateLocked_def Let_def)
qed

lemma core_Clear [simp]: "core (ClearTxnStateLocked t m) = core m"
  by (simp add: ClearTxnStateLocked_def split: option.splits)

lemma coreD:
  "core m' = core m \<Longrightarrow> mvcc_versions m' = mvcc_versions m \<and> last_commit_ts m' = last_commit_ts m \<and>
     running_txns m' = running_txns m \<and> active_mvcc_txn_count m' = active_mvcc_txn_count m \<and> store_wf m' = store_wf m"
  by (simp add: core_def store_wf_def)

subsection \<open>Versioned writes\<close>

text \<open>The entry that a write finds or creates, and the one its first write to the row leaves.\<close>

definition found_entry :: "string \<Rightarrow> Rid \<Rightarrow> bytes option \<Rightarrow> MvccEntry option \<Rightarrow> MvccEntry" where
  "found_entry tab rid physical entry =
     (case entry of
        Some e \<Rightarrow> e
      | None \<Rightarrow>
          (case physical of
             Some r \<Rightarrow> new_MvccEntry\<lparr>e_exists := True, e_tab_name := tab, e_rid := rid, has_head_record := True, head_record := r\<rparr>
           | None \<Rightarrow> new_MvccEntry\<lparr>e_tab_name := tab, e_rid := rid\<rparr>))"

lemma Ensure_versions:
  "mvcc_versions (EnsureMvccEntryLocked tab rid p m) =
     (case map_of (mvcc_versions m) (MvccKey tab rid) of
        Some _ \<Rightarrow> mvcc_versions m
      | None \<Rightarrow> AList.update (MvccKey tab rid) (found_entry tab rid p None) (mvcc_versions m))"
  by (auto simp: EnsureMvccEntryLocked_def Let_def found_entry_def new_MvccEntry_def split: option.splits)

lemma Ensure_frame [simp]:
  "last_commit_ts (EnsureMvccEntryLocked tab rid p m) = last_commit_ts m"
  "running_txns (EnsureMvccEntryLocked tab rid p m) = running_txns m"
  by (simp_all add: EnsureMvccEntryLocked_def Let_def)

lemma Ensure_lookup:
  "map_of (mvcc_versions (EnsureMvccEntryLocked tab rid p m)) =
     (map_of (mvcc_versions m))(MvccKey tab rid \<mapsto> found_entry tab rid p (map_of (mvcc_versions m) (MvccKey tab rid)))"
  by (auto simp: Ensure_versions update_conv' found_entry_def fun_eq_iff split: option.splits)

lemma length_alist_update:
  "length (AList.update k v al) = (if map_of al k = None then Suc (length al) else length al)"
  by (induction al) auto

lemma Ensure_wf: "store_wf m \<Longrightarrow> store_wf (EnsureMvccEntryLocked tab rid p m)"
  by (auto simp: store_wf_def EnsureMvccEntryLocked_def Let_def distinct_update length_alist_update)

lemma upd_entry_simps [simp]:
  "last_commit_ts (upd_entry key f m) = last_commit_ts m" "running_txns (upd_entry key f m) = running_txns m"
  "map_of (mvcc_versions m) key = Some e \<Longrightarrow> map_of (mvcc_versions (upd_entry key f m)) = (map_of (mvcc_versions m))(key \<mapsto> f e)"
  "map_of (mvcc_versions m) key = Some e \<Longrightarrow> store_wf m \<Longrightarrow> store_wf (upd_entry key f m)"
  by (simp_all add: upd_entry_def update_conv' store_wf_def distinct_update length_alist_update)

text \<open>
  The common part of the three versioned writes and its effect: it throws and leaves versions and transaction
  alone, or it installs a new head.
\<close>

definition versioned_write ::
  "string \<Rightarrow> Rid \<Rightarrow> bytes \<Rightarrow> bool \<Rightarrow> (Transaction \<Rightarrow> (TransactionManager, unit) op) \<Rightarrow> bool \<Rightarrow> bytes \<Rightarrow> unit txn_op" where
  "versioned_write tab rid old ins chk deleted rec =
     bind_op (on_tm chk) (\<lambda>_. bind_op (PrepareWriteLocked tab rid old ins) (\<lambda>_. put_head (MvccKey tab rid) deleted rec))"

definition new_entry :: "string \<Rightarrow> Rid \<Rightarrow> bytes \<Rightarrow> bool \<Rightarrow> bool \<Rightarrow> bytes \<Rightarrow> Transaction \<Rightarrow> MvccEntry option \<Rightarrow> MvccEntry" where
  "new_entry tab rid old ins deleted rec t entry =
     (let e = found_entry tab rid (if ins then None else Some old) entry in
      write_head deleted rec (txn_id t)
        (if MvccKey tab rid \<in> set (mvcc_write_keys t) then e else save_for_abort (entry \<noteq> None) old ins e))"

definition write_effect :: "string \<Rightarrow> Rid \<Rightarrow> bytes \<Rightarrow> bool \<Rightarrow> bool \<Rightarrow> bytes \<Rightarrow>
    Transaction \<Rightarrow> TransactionManager \<Rightarrow> unit result \<Rightarrow> Transaction \<Rightarrow> TransactionManager \<Rightarrow> bool" where
  "write_effect tab rid old ins deleted rec t m r t' m' \<longleftrightarrow>
     (let key = MvccKey tab rid; V = map_of (mvcc_versions m) in
      last_commit_ts m' = last_commit_ts m \<and> running_txns m' = running_txns m \<and>
      (store_wf m \<longrightarrow> store_wf m') \<and>
      (case r of
         Inl _ \<Rightarrow> t' = t \<and> map_of (mvcc_versions m') = V
       | Inr _ \<Rightarrow>
           (case V key of None \<Rightarrow> True | Some e \<Rightarrow> mvcc_enabled t \<longrightarrow> \<not> mvcc_conflict t e) \<and>
           t' = snd (add_mvcc_write_key key t) \<and>
           map_of (mvcc_versions m') = V(key \<mapsto> new_entry tab rid old ins deleted rec t (V key))))"

lemma fresh_no_conflict: "0 \<le> start_ts t \<Longrightarrow> \<not> mvcc_conflict t (found_entry tab rid p None)"
  by (simp add: mvcc_conflict_def found_entry_def new_MvccEntry_def split: option.splits)

lemma PrepareWrite_effect:
  assumes "PrepareWriteLocked tab rid old ins (t, m) = (r, t', m')" "mvcc_enabled t \<longrightarrow> 0 \<le> start_ts t"
  shows "write_effect tab rid old ins deleted rec t m r t'
    (case r of Inl _ \<Rightarrow> m' | Inr _ \<Rightarrow> upd_entry (MvccKey tab rid) (write_head deleted rec (txn_id t')) m')"
proof -
  let ?k = "MvccKey tab rid" and ?V = "map_of (mvcc_versions m)" and ?p = "if ins then None else Some old"
  let ?m1 = "EnsureMvccEntryLocked tab rid ?p m" and ?e = "found_entry tab rid ?p (map_of (mvcc_versions m) (MvccKey tab rid))"
  have V1: "map_of (mvcc_versions ?m1) = ?V(?k \<mapsto> ?e)" by (rule Ensure_lookup)
  then have k1: "map_of (mvcc_versions ?m1) ?k = Some ?e" by simp
  show ?thesis
  proof (cases "mvcc_enabled t \<and> mvcc_conflict t ?e")
    case True
    then obtain e where e: "?V ?k = Some e" using assms(2) fresh_no_conflict by (cases "?V ?k") auto
    then have "?V(?k \<mapsto> ?e) = ?V" by (auto simp: found_entry_def)
    moreover have "r = Throw (TransactionAbortException (txn_id t) MVCC_CONFLICT)" "t' = t" "m' = ?m1"
      using True assms(1) k1 by (auto simp: PrepareWriteLocked_def Let_def IsMvccTxn_def)
    ultimately show ?thesis
      using V1 Ensure_wf [of m tab rid ?p] by (simp add: write_effect_def Let_def del: fun_upd_apply)
  next
    case False
    then have c: "case ?V ?k of None \<Rightarrow> True | Some e \<Rightarrow> mvcc_enabled t \<longrightarrow> \<not> mvcc_conflict t e"
      by (auto simp: found_entry_def split: option.splits)
    show ?thesis
    proof (cases "?k \<in> set (mvcc_write_keys t)")
      case True
      then have "r = Ret ()" "t' = t" "m' = ?m1"
        using False assms(1) k1 by (auto simp: PrepareWriteLocked_def Let_def IsMvccTxn_def add_mvcc_write_key_def)
      then show ?thesis
        using True c V1 k1 Ensure_wf [of m tab rid ?p]
        by (simp add: write_effect_def Let_def new_entry_def add_mvcc_write_key_def del: fun_upd_apply)
    next
      case new: False
      let ?s = "save_for_abort (?V ?k \<noteq> None) old ins"
      have r: "r = Ret ()" and t': "t' = t\<lparr>mvcc_write_keys := mvcc_write_keys t @ [?k]\<rparr>" and m': "m' = upd_entry ?k ?s ?m1"
        using False new assms(1) k1 by (auto simp: PrepareWriteLocked_def Let_def IsMvccTxn_def add_mvcc_write_key_def)
      have V2: "map_of (mvcc_versions m') = ?V(?k \<mapsto> ?s ?e)"
        using upd_entry_simps(3) [OF k1] V1 m' by (simp del: fun_upd_apply)
      then have k2: "map_of (mvcc_versions m') ?k = Some (?s ?e)" by simp
      have "map_of (mvcc_versions (upd_entry ?k f m')) = ?V(?k \<mapsto> f (?s ?e))" for f
        using upd_entry_simps(3) [OF k2, of f] V2 by (metis fun_upd_upd)
      moreover have "store_wf m \<longrightarrow> store_wf (upd_entry ?k f m')" for f
        using Ensure_wf [of m tab rid ?p] k1 k2 m' by simp
      moreover have "last_commit_ts (upd_entry ?k f m') = last_commit_ts m" "running_txns (upd_entry ?k f m') = running_txns m" for f
        by (simp_all add: m')
      moreover have "new_entry tab rid old ins deleted rec t (?V ?k) = write_head deleted rec (txn_id t') (?s ?e)"
        using new t' by (simp add: new_entry_def Let_def)
      moreover have "t' = snd (add_mvcc_write_key ?k t)" using new t' by (simp add: add_mvcc_write_key_def)
      ultimately show ?thesis
        using c unfolding write_effect_def Let_def r by (simp del: fun_upd_apply)
    qed
  qed
qed

lemma versioned_write_effect:
  assumes w: "versioned_write tab rid old ins chk deleted rec (t, m) = (r, t', m')"
    and chk: "core (snd (chk t m)) = core m" and start: "mvcc_enabled t \<longrightarrow> 0 \<le> start_ts t"
  shows "write_effect tab rid old ins deleted rec t m r t' m'"
proof -
  obtain r1 m1 where c: "chk t m = (r1, m1)" by (cases "chk t m")
  have m1: "mvcc_versions m1 = mvcc_versions m" "last_commit_ts m1 = last_commit_ts m" "running_txns m1 = running_txns m"
    using chk c by (simp_all add: core_def)
  have wf: "store_wf m1 = store_wf m" using coreD [of m1 m] chk c by simp
  show ?thesis
  proof (cases r1)
    case (Inl x)
    then show ?thesis
      using w c m1 wf by (auto simp: versioned_write_def bind_op_def on_tm_def write_effect_def Let_def)
  next
    case (Inr x)
    obtain r2 t2 m2 where p: "PrepareWriteLocked tab rid old ins (t, m1) = (r2, t2, m2)" by (rule prod_cases3)
    have "write_effect tab rid old ins deleted rec t m1 r2 t2
        (case r2 of Inl _ \<Rightarrow> m2 | Inr _ \<Rightarrow> upd_entry (MvccKey tab rid) (write_head deleted rec (txn_id t2)) m2)"
      by (rule PrepareWrite_effect [OF p start])
    moreover have "r = r2" "t' = t2"
        "m' = (case r2 of Inl _ \<Rightarrow> m2 | Inr _ \<Rightarrow> upd_entry (MvccKey tab rid) (write_head deleted rec (txn_id t2)) m2)"
      using w c Inr p by (cases r2; auto simp: versioned_write_def bind_op_def on_tm_def put_head_def)+
    ultimately show ?thesis using m1 wf by (simp add: write_effect_def)
  qed
qed

lemma add_compensation_frame:
  "write_effect tab rid old ins deleted rec t m (Ret ()) t' m' \<Longrightarrow>
   add_compensation tab key (t', m') = (r, t2, m2) \<Longrightarrow> r = Ret () \<and> write_effect tab rid old ins deleted rec t m r t2 m2"
  by (auto simp: add_compensation_def write_effect_def Let_def store_wf_def)

lemma MvccInsert_effect:
  assumes "MvccInsert tab rid rec (t, m) = (r, t', m')" "ShouldVersionWrites (Some t) m" "mvcc_enabled t \<longrightarrow> 0 \<le> start_ts t"
  shows "write_effect tab rid rec True False rec t m r t' m'"
  using assms versioned_write_effect [of tab rid rec True "CheckSerializableWriteLocked tab rid None (Some rec)" False rec t m]
  by (simp add: MvccInsert_def MvccInsertLocked_def versioned_write_def)

lemma MvccUpdate_effect:
  assumes u: "MvccUpdate db tab rid old rec (t, m) = (r, t', m')" and s: "ShouldVersionWrites (Some t) m"
    and start: "mvcc_enabled t \<longrightarrow> 0 \<le> start_ts t" and tab: "is_ret (get_table db tab)"
  shows "write_effect tab rid old False False rec t m r t' m'"
proof -
  let ?chk = "CheckSerializableWriteLocked tab rid (Some old) (Some rec)"
  obtain r1 t1 m1 where v: "versioned_write tab rid old False ?chk False rec (t, m) = (r1, t1, m1)" by (rule prod_cases3)
  have e: "write_effect tab rid old False False rec t m r1 t1 m1"
    by (rule versioned_write_effect [OF v _ start]) simp
  obtain meta where "get_table db tab = Ret meta" using tab by (auto simp: is_ret_iff)
  then have u': "MvccUpdate db tab rid old rec (t, m) =
      bind_op (versioned_write tab rid old False ?chk False rec)
        (\<lambda>_. if index_keys_changed meta old rec then add_compensation tab (MvccKey tab rid) else ret ()) (t, m)"
    using s by (auto simp: MvccUpdate_def versioned_write_def bind_op_def fun_eq_iff split: prod.splits sum.splits)
  show ?thesis
  proof (cases r1)
    case (Inl x)
    then show ?thesis using u' u v e by (simp add: bind_op_def)
  next
    case (Inr x)
    then show ?thesis
      using u' u v e add_compensation_frame [of tab rid old False False rec t m t1 m1 "MvccKey tab rid" r t' m']
      by (auto simp: bind_op_def split: if_splits)
  qed
qed

lemma MvccDelete_effect:
  assumes d: "MvccDelete tab rid old (t, m) = (r, t', m')" and s: "ShouldVersionWrites (Some t) m"
    and start: "mvcc_enabled t \<longrightarrow> 0 \<le> start_ts t"
  shows "write_effect tab rid old False True old t m r t' m'"
proof -
  let ?chk = "CheckSerializableWriteLocked tab rid (Some old) None"
  obtain r1 t1 m1 where v: "versioned_write tab rid old False ?chk True old (t, m) = (r1, t1, m1)" by (rule prod_cases3)
  have e: "write_effect tab rid old False True old t m r1 t1 m1"
    by (rule versioned_write_effect [OF v _ start]) simp
  have d': "MvccDelete tab rid old (t, m) =
      bind_op (versioned_write tab rid old False ?chk True old) (\<lambda>_. add_compensation tab (MvccKey tab rid)) (t, m)"
    using s by (auto simp: MvccDelete_def versioned_write_def bind_op_def fun_eq_iff split: prod.splits sum.splits)
  show ?thesis
  proof (cases r1)
    case (Inl x)
    then show ?thesis using d' d v e by (simp add: bind_op_def)
  next
    case (Inr x)
    then show ?thesis
      using d' d v e add_compensation_frame [of tab rid old False True old t m t1 m1 "MvccKey tab rid" r t' m']
      by (auto simp: bind_op_def)
  qed
qed

subsection \<open>Writes keep the invariant and every view\<close>

text \<open>What the entry of a write must satisfy: it is a proper pending entry that leaves the view of the row alone.\<close>

definition good_write :: "timestamp_t \<Rightarrow> Transaction \<Rightarrow> string \<Rightarrow> Rid \<Rightarrow> MvccEntry option \<Rightarrow> bytes option \<Rightarrow> MvccEntry \<Rightarrow> bool" where
  "good_write now t tab rid entry h e' \<longleftrightarrow>
     writer_txn e' = txn_id t \<and> e_tab_name e' = tab \<and> e_rid e' = rid \<and> pending_ok now e' \<and>
     (mvcc_enabled t \<longrightarrow> (\<forall>v \<in> set (undo_versions e'). v_commit_ts v \<le> start_ts t)) \<and>
     (\<forall>ts h'. 0 \<le> ts \<longrightarrow> entry_view ts (Some e') h' = entry_view ts entry h)"

lemma write_head_simps [simp]:
  "writer_txn (write_head d r i e) = i" "e_tab_name (write_head d r i e) = e_tab_name e" "e_rid (write_head d r i e) = e_rid e"
  "undo_versions (write_head d r i e) = undo_versions e" "e_exists (write_head d r i e)"
  "pending_ok now (write_head d r i e) \<longleftrightarrow> pending_ok now (e\<lparr>e_exists := True\<rparr>)"
  by (simp_all add: write_head_def pending_ok_def split: option.split)

lemma entry_view_pending:
  "writer_txn e \<noteq> INVALID_TXN_ID \<Longrightarrow> entry_view ts (Some e) h = version_record (newest_before ts (undo_versions e))"
  by (simp add: entry_view_def)

lemma version_record_simps [simp]:
  "version_record None = None" "version_record (Some v) = (if v_is_deleted v then None else Some (v_record v))"
  by (simp_all add: version_record_def)

lemma good_write_again:
  assumes "MvccKey tab rid \<in> set (mvcc_write_keys t)" "writer_txn e = txn_id t" "txn_id t \<noteq> INVALID_TXN_ID" "pending_ok now e"
    "e_tab_name e = tab" "e_rid e = rid" "mvcc_enabled t \<longrightarrow> (\<forall>v \<in> set (undo_versions e). v_commit_ts v \<le> start_ts t)"
  shows "good_write now t tab rid (Some e) h (new_entry tab rid old ins deleted rec t (Some e))"
proof -
  have "e_exists e" using assms(4) by (simp add: pending_ok_def)
  then have "e\<lparr>e_exists := True\<rparr> = e" by simp
  then show ?thesis
    using assms by (simp add: good_write_def new_entry_def found_entry_def entry_view_pending)
qed

lemma save_for_abort_simps [simp]:
  "e_tab_name (save_for_abort b old ins e) = e_tab_name e" "e_rid (save_for_abort b old ins e) = e_rid e"
  "undo_versions (save_for_abort b old False e) =
     undo_versions e @ [\<lparr>v_record = old, v_is_deleted = e_is_deleted e, v_commit_ts = e_commit_ts e, v_writer_txn = writer_txn e\<rparr>]"
  "undo_versions (save_for_abort b old True e) = undo_versions e"
  by (simp_all add: save_for_abort_def Let_def)

lemma good_write_first:
  assumes "MvccKey tab rid \<notin> set (mvcc_write_keys t)" "txn_id t \<noteq> INVALID_TXN_ID" "committed_ok now e"
    "e_tab_name e = tab" "e_rid e = rid" "mvcc_enabled t \<longrightarrow> e_commit_ts e \<le> start_ts t" "\<not> e_is_deleted e"
  shows "good_write now t tab rid (Some e) (Some old) (new_entry tab rid old False deleted rec t (Some e))"
proof -
  let ?s = "save_for_abort True old False e"
  have new: "new_entry tab rid old False deleted rec t (Some e) = write_head deleted rec (txn_id t) ?s"
    using assms(1) by (simp add: new_entry_def found_entry_def)
  have e: "writer_txn e = INVALID_TXN_ID" "versions_ok (e_commit_ts e) (undo_versions e)"
    using assms(3) by (simp_all add: committed_ok_def)
  then have u: "undo_versions ?s = undo_versions e @ [undo_version old False (e_commit_ts e)]"
    using assms(7) by (simp add: undo_version_def)
  have "pending_ok now (?s\<lparr>e_exists := True\<rparr>)"
    using assms(3,7) e(1)
    by (simp add: pending_ok_def save_for_abort_def Let_def MvccEntryBase.truncate_def committed_ok_def undo_version_def)
  moreover have "\<forall>v \<in> set (undo_versions ?s). v_commit_ts v \<le> start_ts t" if "mvcc_enabled t"
    using that assms(6) e(2) u by (force simp: versions_ok_def simp del: save_for_abort_simps)
  moreover have "version_record (newest_before ts (undo_versions ?s)) = entry_view ts (Some e) (Some old)" for ts
    using u e(1) assms(7) by (simp add: newest_before_append entry_view_def del: save_for_abort_simps)
  ultimately show ?thesis
    using assms(2,4,5) by (simp add: good_write_def new entry_view_pending del: save_for_abort_simps(3))
qed

lemma good_write_fresh:
  assumes "MvccKey tab rid \<notin> set (mvcc_write_keys t)" "txn_id t \<noteq> INVALID_TXN_ID" "mvcc_enabled t \<longrightarrow> 0 \<le> start_ts t"
  shows "good_write now t tab rid None (if ins then None else Some old) (new_entry tab rid old ins deleted rec t None)"
  using assms
  by (cases ins)
    (auto simp: good_write_def new_entry_def found_entry_def entry_view_def pending_ok_def save_for_abort_def Let_def
      write_head_def new_MvccEntry_def undo_version_def newest_before_def)

text \<open>Accessors of the invariant.\<close>

lemma mv_ok_entry:
  assumes "mv_ok st" "map_of (mvcc_versions (mv_tm st)) key = Some e"
  shows "key = MvccKey (e_tab_name e) (e_rid e)" "mv_heap st (e_tab_name e) (e_rid e) \<noteq> None"
    "entry_ok (last_commit_ts (mv_tm st)) (mv_running st) key e"
  using assms by (simp_all add: mv_ok_def rows_ok_def)

lemma mv_ok_row:
  assumes "mv_ok st" "map_of (mvcc_versions (mv_tm st)) (MvccKey tab rid) = Some e"
  shows "e_tab_name e = tab" "e_rid e = rid" "mv_heap st tab rid \<noteq> None"
  using mv_ok_entry [OF assms] by (auto simp: MvccKey_inj)

lemma mv_ok_running:
  "mv_ok st \<Longrightarrow> mv_running st i = Some t \<Longrightarrow> txn_ok st i t"
  by (simp add: mv_ok_def)

lemma clock_ok_cong:
  "clock_ok st \<Longrightarrow> last_commit_ts (mv_tm st') = last_commit_ts (mv_tm st) \<Longrightarrow>
   running_txns (mv_tm st') = running_txns (mv_tm st) \<Longrightarrow> snapshots (mv_running st') = snapshots (mv_running st) \<Longrightarrow>
   (\<forall>i \<in> snapshots (mv_running st). start_of (mv_running st') i = start_of (mv_running st) i) \<Longrightarrow> clock_ok st'"
  by (auto simp: clock_ok_def intro!: image_mset_cong)

text \<open>A transaction with more written rows and the same snapshot.\<close>

definition grown :: "Transaction \<Rightarrow> Transaction \<Rightarrow> bool" where
  "grown t t' \<longleftrightarrow> txn_id t' = txn_id t \<and> mvcc_enabled t' = mvcc_enabled t \<and> start_ts t' = start_ts t \<and> read_ts t' = read_ts t \<and>
     set (mvcc_write_keys t) \<subseteq> set (mvcc_write_keys t')"

lemma grown_refl [simp]: "grown t t"
  by (simp add: grown_def)

lemma snapshots_grown:
  assumes "run i = Some t" "grown t t'"
  shows "snapshots (run(i \<mapsto> t')) = snapshots run" "start_of (run(i \<mapsto> t')) j = start_of run j"
  using assms by (auto simp: snapshots_def start_of_def grown_def)

lemma entry_ok_grown:
  assumes "run i = Some t" "grown t t'" "entry_ok now run key e"
  shows "entry_ok now (run(i \<mapsto> t')) key e"
  using assms by (auto simp: entry_ok_def grown_def)

lemma install:
  assumes ok: "mv_ok st" and run: "mv_running st i = Some t" and t': "grown t t'"
    and keys: "set (mvcc_write_keys t') = insert (MvccKey tab rid) (set (mvcc_write_keys t))"
    and V': "map_of (mvcc_versions (mv_tm st')) = (map_of (mvcc_versions (mv_tm st)))(MvccKey tab rid \<mapsto> e')"
    and d: "store_wf (mv_tm st')"
    and frame: "last_commit_ts (mv_tm st') = last_commit_ts (mv_tm st)" "running_txns (mv_tm st') = running_txns (mv_tm st)"
    and run': "mv_running st' = (mv_running st)(i \<mapsto> t')"
    and heap: "\<forall>tab' rid'. (tab', rid') \<noteq> (tab, rid) \<longrightarrow> mv_heap st' tab' rid' = mv_heap st tab' rid'" "mv_heap st' tab rid \<noteq> None"
    and good: "good_write (last_commit_ts (mv_tm st)) t tab rid (map_of (mvcc_versions (mv_tm st)) (MvccKey tab rid)) (mv_heap st tab rid) e'"
    and free: "\<forall>e. map_of (mvcc_versions (mv_tm st)) (MvccKey tab rid) = Some e \<longrightarrow> writer_txn e = INVALID_TXN_ID \<or> writer_txn e = i"
  shows "mv_ok st'" "\<forall>ts tab' rid'. 0 \<le> ts \<longrightarrow> mv_view st' ts tab' rid' = mv_view st ts tab' rid'"
proof -
  let ?k = "MvccKey tab rid" and ?V = "map_of (mvcc_versions (mv_tm st))" and ?n = "last_commit_ts (mv_tm st)"
  have tok: "txn_ok st j u" if "mv_running st j = Some u" for j u using mv_ok_running [OF ok that] .
  have t: "txn_id t = i" "0 \<le> i" using tok [OF run] by (simp_all add: txn_ok_def)
  have w': "writer_txn e' = i" "e_tab_name e' = tab" "e_rid e' = rid" using good t by (simp_all add: good_write_def)
  have e': "entry_ok ?n (mv_running st') ?k e'"
    using good t t' keys by (auto simp: entry_ok_def good_write_def run' grown_def)
  have "key = MvccKey (e_tab_name e) (e_rid e) \<and> mv_heap st' (e_tab_name e) (e_rid e) \<noteq> None \<and>
      entry_ok ?n (mv_running st') key e" if e: "map_of (mvcc_versions (mv_tm st')) key = Some e" for key e
  proof (cases "key = ?k")
    case True
    then show ?thesis using e V' w' e' heap(2) by simp
  next
    case False
    then have "?V key = Some e" using e V' by simp
    note old = mv_ok_entry [OF ok this]
    have "(e_tab_name e, e_rid e) \<noteq> (tab, rid)" using False old(1) by auto
    then show ?thesis using old heap(1) run t' entry_ok_grown [of "mv_running st" i t t' ?n key e] by (auto simp: run')
  qed
  then have rows: "rows_ok st'" by (simp add: rows_ok_def frame)
  have clock: "clock_ok st'"
    using ok frame run t' snapshots_grown [of "mv_running st" i t t'] clock_ok_cong [of st st'] by (simp add: mv_ok_def run')
  have "txn_ok st' j u" if u: "mv_running st' j = Some u" for j u
  proof (cases "j = i")
    case True
    then have "u = t'" using u run' by simp
    then show ?thesis
      using True tok [OF run] t' keys V' w' by (auto simp: txn_ok_def grown_def frame)
  next
    case False
    then have "mv_running st j = Some u" using u run' by simp
    note o = tok [OF this]
    have "?k \<notin> set (mvcc_write_keys u)"
      using free False o by (auto simp: txn_ok_def)
    then have "map_of (mvcc_versions (mv_tm st')) key = ?V key" if "key \<in> set (mvcc_write_keys u)" for key
      using V' that by (auto simp: fun_upd_def)
    then show ?thesis using o by (auto simp: txn_ok_def frame)
  qed
  then show "mv_ok st'" using d rows clock by (simp add: mv_ok_def)
  show "\<forall>ts tab' rid'. 0 \<le> ts \<longrightarrow> mv_view st' ts tab' rid' = mv_view st ts tab' rid'"
    using good heap(1) V' by (auto simp: mv_view_def good_write_def MvccKey_inj)
qed

lemma mv_ok_same:
  assumes "mv_ok st" "map_of (mvcc_versions (mv_tm st')) = map_of (mvcc_versions (mv_tm st))"
    "store_wf (mv_tm st')" "last_commit_ts (mv_tm st') = last_commit_ts (mv_tm st)"
    "running_txns (mv_tm st') = running_txns (mv_tm st)" "mv_running st' = mv_running st" "mv_heap st' = mv_heap st"
  shows "mv_ok st'" "mv_view st' = mv_view st"
proof -
  have "clock_ok st'" using assms clock_ok_cong [of st st'] by (simp add: mv_ok_def)
  then show "mv_ok st'" using assms by (simp add: mv_ok_def rows_ok_def txn_ok_def del: map_of_eq_Some_iff)
  show "mv_view st' = mv_view st" using assms by (simp add: mv_view_def fun_eq_iff)
qed

text \<open>The record through which a transaction writes is the one in the file, unless the write is refused.\<close>

lemma write_source:
  assumes ok: "mv_ok st" and run: "mv_running st i = Some t" and may: "may_write t tab rid st"
    and see: "mv_see t tab rid st = Some old" and e: "map_of (mvcc_versions (mv_tm st)) (MvccKey tab rid) = Some e"
    and free: "mvcc_enabled t \<longrightarrow> \<not> mvcc_conflict t e" and new: "MvccKey tab rid \<notin> set (mvcc_write_keys t)"
  shows "committed_ok (last_commit_ts (mv_tm st)) e" "mvcc_enabled t \<longrightarrow> e_commit_ts e \<le> start_ts t" "\<not> e_is_deleted e"
    "mv_heap st tab rid = Some old"
proof -
  have t: "txn_id t = i" "0 \<le> i" using mv_ok_running [OF ok run] by (simp_all add: txn_ok_def)
  note eok = mv_ok_entry(3) [OF ok e]
  have "writer_txn e \<noteq> i" using eok run new t by (auto simp: entry_ok_def)
  then have w: "writer_txn e = INVALID_TXN_ID"
    using may free e t by (auto simp: may_write_def other_writer_def mvcc_conflict_def)
  then show c: "committed_ok (last_commit_ts (mv_tm st)) e" using eok by (simp add: entry_ok_def)
  show ts: "mvcc_enabled t \<longrightarrow> e_commit_ts e \<le> start_ts t" using free w t by (auto simp: mvcc_conflict_def)
  obtain p where p: "mv_heap st tab rid = Some p" "GetVisibleRecord tab rid p (Some t) (mv_tm st) = Some old"
    using see by (auto simp: mv_see_def split: option.splits)
  have "VisibleRecordLocked (MvccKey tab rid) e p (Some t) = Some old"
    using p(2) e may by (auto simp: GetVisibleRecord_def Let_def IsMvccTxn_def may_write_def ShouldVersionWrites_def HasMvccState_def)
  then have "\<not> e_is_deleted e \<and> p = old"
    using w c ts t by (auto simp: VisibleRecordLocked_def Let_def IsMvccTxn_def committed_ok_def split: if_splits)
  then show "\<not> e_is_deleted e" "mv_heap st tab rid = Some old" using p(1) by simp_all
qed

lemma write_good:
  assumes ok: "mv_ok st" and run: "mv_running st i = Some t" and may: "may_write t tab rid st"
    and free: "case map_of (mvcc_versions (mv_tm st)) (MvccKey tab rid) of None \<Rightarrow> True | Some e \<Rightarrow> mvcc_enabled t \<longrightarrow> \<not> mvcc_conflict t e"
    and src: "if ins then mv_heap st tab rid = None else mv_see t tab rid st = Some old"
  shows "good_write (last_commit_ts (mv_tm st)) t tab rid (map_of (mvcc_versions (mv_tm st)) (MvccKey tab rid)) (mv_heap st tab rid)
      (new_entry tab rid old ins deleted rec t (map_of (mvcc_versions (mv_tm st)) (MvccKey tab rid)))" (is ?good)
    "\<forall>e. map_of (mvcc_versions (mv_tm st)) (MvccKey tab rid) = Some e \<longrightarrow> writer_txn e = INVALID_TXN_ID \<or> writer_txn e = i" (is ?free)
proof -
  let ?k = "MvccKey tab rid" and ?n = "last_commit_ts (mv_tm st)"
  have tok: "txn_ok st i t" using mv_ok_running [OF ok run] .
  then have t: "txn_id t = i" "0 \<le> i" "txn_id t \<noteq> INVALID_TXN_ID" "mvcc_enabled t \<longrightarrow> 0 \<le> start_ts t"
    by (auto simp: txn_ok_def)
  show ?free using may free t by (auto simp: may_write_def other_writer_def mvcc_conflict_def)
  show ?good
  proof (cases "map_of (mvcc_versions (mv_tm st)) ?k")
    case None
    moreover from this have "?k \<notin> set (mvcc_write_keys t)" using tok by (auto simp: txn_ok_def)
    moreover have "mv_heap st tab rid = (if ins then None else Some old)"
      using src None by (auto simp: mv_see_def GetVisibleRecord_def Let_def split: option.splits if_splits)
    ultimately show ?thesis using good_write_fresh t by simp
  next
    case (Some e)
    note row = mv_ok_row [OF ok Some] and eok = mv_ok_entry(3) [OF ok Some]
    then have "\<not> ins" using src by auto
    show ?thesis
    proof (cases "?k \<in> set (mvcc_write_keys t)")
      case True
      then have "writer_txn e = i" using tok Some by (auto simp: txn_ok_def)
      then show ?thesis using good_write_again [of tab rid t e ?n] True eok row t run Some by (auto simp: entry_ok_def)
    next
      case False
      have "mv_see t tab rid st = Some old" "mvcc_enabled t \<longrightarrow> \<not> mvcc_conflict t e" using src \<open>\<not> ins\<close> free Some by simp_all
      note s = write_source [OF ok run may this(1) Some this(2) False]
      show ?thesis using good_write_first [OF False t(3) s(1) row(1,2) s(2,3)] Some \<open>\<not> ins\<close> s(4) by simp
    qed
  qed
qed

lemma add_key_grown: "grown t (snd (add_mvcc_write_key key t))"
  "set (mvcc_write_keys (snd (add_mvcc_write_key key t))) = insert key (set (mvcc_write_keys t))"
  by (auto simp: add_mvcc_write_key_def grown_def)

definition keeps_views :: "snap_state \<Rightarrow> snap_state \<Rightarrow> bool" where
  "keeps_views st st' \<longleftrightarrow> mv_ok st' \<and> (\<forall>ts tab rid. 0 \<le> ts \<longrightarrow> mv_view st' ts tab rid = mv_view st ts tab rid)"

lemma write_keeps:
  assumes ok: "mv_ok st" and run: "mv_running st i = Some t" and may: "may_write t tab rid st"
    and src: "if ins then mv_heap st tab rid = None else mv_see t tab rid st = Some old"
    and eff: "\<And>r t' m'. c (t, mv_tm st) = (r, t', m') \<Longrightarrow> write_effect tab rid old ins deleted rec t (mv_tm st) r t' m'"
    and row: "row = put_heap tab rid (Some v) \<or> row = id \<and> mv_heap st tab rid \<noteq> None"
  shows "keeps_views st (mv_call i c row t st)"
proof -
  obtain r t' m' where c: "c (t, mv_tm st) = (r, t', m')" by (rule prod_cases3)
  note eff = eff [OF c]
  have d: "store_wf m'" "last_commit_ts m' = last_commit_ts (mv_tm st)" "running_txns m' = running_txns (mv_tm st)"
    using eff ok by (simp_all add: write_effect_def Let_def mv_ok_def)
  show ?thesis
  proof (cases r)
    case (Inl x)
    then have "t' = t" "map_of (mvcc_versions m') = map_of (mvcc_versions (mv_tm st))"
      using eff by (simp_all add: write_effect_def Let_def)
    then show ?thesis
      using mv_ok_same [OF ok, of "mv_call i c row t st"] d c Inl run
      by (simp add: keeps_views_def mv_call_def fun_upd_idem)
  next
    case (Inr x)
    let ?V = "map_of (mvcc_versions (mv_tm st))" and ?st = "mv_call i c row t st"
    have V': "map_of (mvcc_versions m') = ?V(MvccKey tab rid \<mapsto> new_entry tab rid old ins deleted rec t (?V (MvccKey tab rid)))"
      and t': "t' = snd (add_mvcc_write_key (MvccKey tab rid) t)"
      and free: "case ?V (MvccKey tab rid) of None \<Rightarrow> True | Some e \<Rightarrow> mvcc_enabled t \<longrightarrow> \<not> mvcc_conflict t e"
      using eff Inr by (simp_all add: write_effect_def Let_def)
    note good = write_good(1) [OF ok run may free src, where deleted = deleted and rec = rec]
      write_good(2) [OF ok run may free src]
    have st': "mv_tm ?st = m'" "mv_running ?st = (mv_running st)(i \<mapsto> t')"
      "\<forall>tab' rid'. (tab', rid') \<noteq> (tab, rid) \<longrightarrow> mv_heap ?st tab' rid' = mv_heap st tab' rid'" "mv_heap ?st tab rid \<noteq> None"
      using c Inr row by (auto simp: mv_call_def put_heap_def)
    show ?thesis
      using install [OF ok run _ _ _ _ _ _ st'(2-4) good] add_key_grown [where t = t and key = "MvccKey tab rid"] d V' t' st'(1)
      by (simp add: keeps_views_def del: fun_upd_apply)
  qed
qed

subsection \<open>Commit\<close>

lemma committed_ok_mono: "committed_ok a e \<Longrightarrow> a \<le> b \<Longrightarrow> committed_ok b e"
  by (simp add: committed_ok_def)

lemma pending_ok_mono: "pending_ok a e \<Longrightarrow> a \<le> b \<Longrightarrow> pending_ok b e"
  by (auto simp: pending_ok_def intro: committed_ok_mono split: option.splits)

lemma stamp_key_lookup:
  "map_of (mvcc_versions (stamp_key i ts key m)) =
     (map_of (mvcc_versions m))(key := map_option (stamp_entry i ts) (map_of (mvcc_versions m) key))"
  by (auto simp: stamp_key_def fun_eq_iff split: option.splits)

lemma fold_stamp_lookup:
  assumes "i \<noteq> INVALID_TXN_ID"
  shows "map_of (mvcc_versions (fold (stamp_key i ts) keys m)) =
     (\<lambda>k. if k \<in> set keys then map_option (stamp_entry i ts) (map_of (mvcc_versions m) k) else map_of (mvcc_versions m) k)"
proof (induction keys arbitrary: m)
  case (Cons key keys)
  have "stamp_entry i ts (stamp_entry i ts e) = stamp_entry i ts e" for e using assms by (simp add: stamp_entry_def)
  then show ?case by (auto simp: Cons.IH stamp_key_lookup fun_eq_iff option.map_comp comp_def)
qed simp

lemma stamp_key_frame [simp]:
  "last_commit_ts (stamp_key i ts key m) = last_commit_ts m" "running_txns (stamp_key i ts key m) = running_txns m"
  "store_wf m \<Longrightarrow> store_wf (stamp_key i ts key m)"
  by (simp_all add: stamp_key_def split: option.splits)

lemma fold_stamp_frame [simp]:
  "last_commit_ts (fold (stamp_key i ts) keys m) = last_commit_ts m" "running_txns (fold (stamp_key i ts) keys m) = running_txns m"
  "store_wf m \<Longrightarrow> store_wf (fold (stamp_key i ts) keys m)"
  by (induction keys arbitrary: m) simp_all

text \<open>A running transaction none of whose rows is pending any more leaves.\<close>

lemma leave:
  assumes ok: "mv_ok st" and run: "mv_running st i = Some t" "mvcc_write_keys t = []"
    and core: "core (mv_tm st') = core (end_snapshot t (mv_tm st))"
    and st': "mv_running st' = (mv_running st)(i := None)" "mv_heap st' = mv_heap st"
  shows "mv_ok st'" "mv_view st' = mv_view st"
proof -
  let ?w = "running_txns (mv_tm st)" and ?run = "mv_running st"
  have tok: "txn_ok st i t" and clk: "clock_ok st" using ok mv_ok_running [OF ok run(1)] by (simp_all add: mv_ok_def)
  have same: "mvcc_versions (mv_tm st') = mvcc_versions (mv_tm st)" "last_commit_ts (mv_tm st') = last_commit_ts (mv_tm st)"
    "running_txns (mv_tm st') = (if mvcc_enabled t then RemoveTxn (read_ts t) ?w else ?w)"
    using core by (simp_all add: core_def end_snapshot_def)
  have "entry_ok now (?run(i := None)) key e" if "entry_ok now ?run key e" for now key e
    using that run by (auto simp: entry_ok_def split: if_splits)
  then have "rows_ok st'" using ok by (simp add: mv_ok_def rows_ok_def same st')
  moreover have "clock_ok st'"
  proof (cases "mvcc_enabled t")
    case True
    have i: "i \<in> snapshots ?run" "snapshots (?run(i := None)) = snapshots ?run - {i}"
      using True run by (auto simp: snapshots_def)
    have fin: "finite (snapshots ?run)" using clk by (simp add: clock_ok_def)
    have "mset_set (snapshots ?run) = add_mset i (mset_set (snapshots ?run - {i}))"
      using i(1) fin by (simp add: mset_set.remove)
    moreover have "start_of ?run i = read_ts t" using run tok True by (simp add: start_of_def txn_ok_def)
    ultimately have "image_mset (start_of ?run) (mset_set (snapshots ?run - {i})) = running_reads ?w - {#read_ts t#}"
      using clk by (simp add: clock_ok_def)
    moreover have "image_mset (start_of (?run(i := None))) (mset_set (snapshots ?run - {i})) =
        image_mset (start_of ?run) (mset_set (snapshots ?run - {i}))"
      using fin by (intro image_mset_cong) (auto simp: start_of_def)
    ultimately show ?thesis using clk True fin RemoveTxn_ok [of ?w] by (simp add: clock_ok_def same st' i)
  next
    case False
    then have "snapshots (?run(i := None)) = snapshots ?run" "\<forall>j \<in> snapshots ?run. start_of (?run(i := None)) j = start_of ?run j"
      using run by (auto simp: snapshots_def start_of_def)
    then show ?thesis using False clk clock_ok_cong [of st st'] by (simp add: same st')
  qed
  moreover have "txn_ok st' j u" if "mv_running st' j = Some u" for j u
    using that mv_ok_running [OF ok, of j u] by (auto simp: txn_ok_def same st' split: if_splits)
  moreover have "store_wf (mv_tm st')" using ok core by (simp add: mv_ok_def core_def store_wf_def end_snapshot_def split: if_splits)
  ultimately show "mv_ok st'" by (simp add: mv_ok_def)
  show "mv_view st' = mv_view st" by (simp add: mv_view_def fun_eq_iff same st')
qed

lemma view_late:
  assumes "mv_ok st" "last_commit_ts (mv_tm st) \<le> ts"
  shows "mv_view st ts tab rid = mv_view st (last_commit_ts (mv_tm st)) tab rid"
proof (cases "map_of (mvcc_versions (mv_tm st)) (MvccKey tab rid)")
  case (Some e)
  let ?n = "last_commit_ts (mv_tm st)"
  have nb: "newest_before ts vs = newest_before ?n vs" if "versions_ok (?n + 1) vs" for vs
    using that assms(2) by (auto simp: newest_before_def versions_ok_def intro!: find_cong)
  have n: "0 \<le> ?n" using assms(1) by (simp add: mv_ok_def clock_ok_def)
  have "entry_ok ?n (mv_running st) (MvccKey tab rid) e" by (rule mv_ok_entry(3) [OF assms(1) Some])
  then have "entry_view ts (Some e) h = entry_view ?n (Some e) h" for h
    using assms(2) nb [OF pending_versions [OF _ n, of e]]
    by (auto simp: entry_ok_def entry_view_def committed_ok_def split: if_splits)
  then show ?thesis using Some by (simp add: mv_view_def)
qed (simp add: mv_view_def entry_view_def)

lemma commit_stamp:
  assumes ok: "mv_ok st" and run: "mv_running st i = Some t"
    and st': "core (mv_tm st') = core ((snd (commit_versions t (mv_tm st)))\<lparr>running_txns :=
        UpdateCommitTs (last_commit_ts (mv_tm st) + 1) (running_txns (mv_tm st))\<rparr>)"
      "mv_running st' = (mv_running st)(i \<mapsto> t\<lparr>mvcc_write_keys := []\<rparr>)" "mv_heap st' = mv_heap st"
  shows "mv_ok st'" "last_commit_ts (mv_tm st') = last_commit_ts (mv_tm st) + 1"
    "\<forall>ts tab rid. ts \<le> last_commit_ts (mv_tm st) \<longrightarrow> mv_view st' ts tab rid = mv_view st ts tab rid"
    "map_of (mvcc_versions (mv_tm st')) key = map_option (stamp_entry i (last_commit_ts (mv_tm st) + 1)) (map_of (mvcc_versions (mv_tm st)) key)"
proof -
  let ?n = "last_commit_ts (mv_tm st)" and ?V = "map_of (mvcc_versions (mv_tm st))" and ?t = "t\<lparr>mvcc_write_keys := []\<rparr>"
  have tok: "txn_ok st j u" if "mv_running st j = Some u" for j u using mv_ok_running [OF ok that] .
  have t: "txn_id t = i" "0 \<le> i" using tok [OF run] by (simp_all add: txn_ok_def)
  have clk: "clock_ok st" using ok by (simp add: mv_ok_def)
  then have n: "0 \<le> ?n" by (simp add: clock_ok_def)
  have writer: "key \<in> set (mvcc_write_keys t) \<longleftrightarrow> writer_txn e = i" if "?V key = Some e" for key e
    using mv_ok_entry(3) [OF ok that] tok [OF run] run t that by (auto simp: entry_ok_def txn_ok_def split: if_splits)
  have "mvcc_versions (mv_tm st') = mvcc_versions (fold (stamp_key i (?n + 1)) (mvcc_write_keys t) (mv_tm st))"
    using st'(1) t by (simp add: core_def commit_versions_def Let_def)
  moreover have "stamp_entry i (?n + 1) e = e" if "?V key = Some e" "key \<notin> set (mvcc_write_keys t)" for key e
    using that writer by (simp add: stamp_entry_def)
  ultimately have V': "map_of (mvcc_versions (mv_tm st')) key = map_option (stamp_entry i (?n + 1)) (?V key)" for key
    using t by (cases "?V key") (simp_all add: fold_stamp_lookup)
  then show "map_of (mvcc_versions (mv_tm st')) key = map_option (stamp_entry i (?n + 1)) (?V key)" .
  have last: "last_commit_ts (mv_tm st') = ?n + 1"
    and w: "running_txns (mv_tm st') = UpdateCommitTs (?n + 1) (running_txns (mv_tm st))"
    using st'(1) by (simp_all add: core_def commit_versions_def Let_def)
  show "last_commit_ts (mv_tm st') = ?n + 1" by (rule last)
  show "\<forall>ts tab rid. ts \<le> ?n \<longrightarrow> mv_view st' ts tab rid = mv_view st ts tab rid"
    using t by (auto simp: mv_view_def V' st'(3) entry_view_def stamp_entry_def split: option.splits)
  have "key = MvccKey (e_tab_name e') (e_rid e') \<and> mv_heap st' (e_tab_name e') (e_rid e') \<noteq> None \<and>
      entry_ok (?n + 1) (mv_running st') key e'" if e': "map_of (mvcc_versions (mv_tm st')) key = Some e'" for key e'
  proof -
    obtain e where e: "?V key = Some e" "e' = stamp_entry i (?n + 1) e" using e' V' by auto
    note old = mv_ok_entry [OF ok e(1)]
    have "entry_ok (?n + 1) (mv_running st') key e'"
    proof (cases "writer_txn e = i")
      case True
      then have p: "pending_ok ?n e" using old(3) t by (simp add: entry_ok_def)
      then show ?thesis using True e(2) n pending_versions [OF p n]
        by (simp add: entry_ok_def stamp_entry_def committed_ok_def pending_ok_def)
    next
      case False
      then have "e' = e" using e(2) by (simp add: stamp_entry_def)
      then show ?thesis
        using False old(3) by (auto simp: entry_ok_def st'(2) intro: committed_ok_mono pending_ok_mono split: if_splits)
    qed
    moreover have "e_tab_name e' = e_tab_name e" "e_rid e' = e_rid e" using e(2) by (simp_all add: stamp_entry_def)
    ultimately show ?thesis using old by (simp add: st'(3))
  qed
  then have rows: "rows_ok st'" by (simp add: rows_ok_def last)
  have "snapshots (mv_running st') = snapshots (mv_running st)" "start_of (mv_running st') = start_of (mv_running st)"
    using run by (auto simp: snapshots_def start_of_def st'(2) fun_eq_iff)
  then have clk': "clock_ok st'" using clk UpdateCommitTs_ok [of "running_txns (mv_tm st)"]
    by (simp add: clock_ok_def last w)
  have "txn_ok st' j u" if u: "mv_running st' j = Some u" for j u
  proof (cases "j = i")
    case True
    then show ?thesis using u tok [OF run] by (auto simp: txn_ok_def last st'(2))
  next
    case False
    then have "mv_running st j = Some u" using u by (simp add: st'(2))
    then show ?thesis using tok [of j u] False by (fastforce simp: txn_ok_def last V' stamp_entry_def)
  qed
  moreover have "store_wf (mv_tm st')"
    using ok fold_stamp_frame(3) [of "mv_tm st" i "?n + 1" "mvcc_write_keys t"] st'(1) t
    by (simp add: core_def commit_versions_def Let_def mv_ok_def store_wf_def)
  ultimately show "mv_ok st'" using rows clk' by (simp add: mv_ok_def)
qed

lemma commit_step:
  assumes ok: "mv_ok st" and run: "mv_running st i = Some t"
    and st': "st' = st\<lparr>mv_tm := snd (commit_mvcc t (mv_tm st)), mv_running := (mv_running st)(i := None)\<rparr>"
  shows "mv_ok st'" "\<forall>ts tab rid. ts \<le> last_commit_ts (mv_tm st) \<longrightarrow> mv_view st' ts tab rid = mv_view st ts tab rid"
    "mv_view st' (last_commit_ts (mv_tm st')) tab rid =
       (if MvccKey tab rid \<in> set (mvcc_write_keys t) then mv_see t tab rid st else mv_view st (last_commit_ts (mv_tm st)) tab rid)"
proof -
  let ?n = "last_commit_ts (mv_tm st)" and ?V = "map_of (mvcc_versions (mv_tm st))" and ?k = "MvccKey tab rid"
  have tok: "txn_ok st i t" by (rule mv_ok_running [OF ok run])
  have "mv_ok st' \<and> (\<forall>ts tab rid. ts \<le> ?n \<longrightarrow> mv_view st' ts tab rid = mv_view st ts tab rid) \<and>
      mv_view st' (last_commit_ts (mv_tm st')) tab rid = (if ?k \<in> set (mvcc_write_keys t) then mv_see t tab rid st else mv_view st ?n tab rid)"
  proof (cases "mvcc_enabled t \<or> mvcc_write_keys t \<noteq> []")
    case False
    then have "mv_ok st' \<and> mv_view st' = mv_view st" using leave [OF ok run, of st'] by (simp add: st' commit_mvcc_def end_snapshot_def)
    then show ?thesis using False by (simp add: st' commit_mvcc_def)
  next
    case True
    let ?m1 = "(snd (commit_versions t (mv_tm st)))\<lparr>running_txns := UpdateCommitTs (?n + 1) (running_txns (mv_tm st))\<rparr>"
    let ?t = "t\<lparr>mvcc_write_keys := []\<rparr>"
    let ?st1 = "st\<lparr>mv_tm := ?m1, mv_running := (mv_running st)(i \<mapsto> ?t)\<rparr>"
    note s1 = commit_stamp [OF ok run, of ?st1, simplified]
    have "core (mv_tm st') = core (end_snapshot ?t ?m1)"
      using True by (simp add: st' commit_mvcc_def Let_def commit_versions_def case_prod_beta)
        (simp add: core_def end_snapshot_def)
    then have s2: "mv_ok st'" "mv_view st' = mv_view ?st1" "last_commit_ts (mv_tm st') = ?n + 1" 
      using leave [OF s1(1), of i ?t st'] s1(2) by (simp_all add: st' core_def end_snapshot_def)
    have "mv_view ?st1 (?n + 1) tab rid = (if ?k \<in> set (mvcc_write_keys t) then mv_see t tab rid st else mv_view st (?n + 1) tab rid)"
    proof (cases "?k \<in> set (mvcc_write_keys t)")
      case own: True
      then obtain e where e: "?V ?k = Some e" "writer_txn e = i" using tok by (auto simp: txn_ok_def)
      have t: "txn_id t = i" "i \<noteq> INVALID_TXN_ID" using tok by (auto simp: txn_ok_def)
      then have "e_exists e" using mv_ok_entry(3) [OF ok e(1)] e(2) by (simp add: entry_ok_def pending_ok_def)
      moreover have "HasMvccState (mv_tm st)"
        using ok e(1) by (cases "mvcc_versions (mv_tm st)") (auto simp: mv_ok_def store_wf_def HasMvccState_def)
      ultimately show ?thesis
        using own e t s1(4) [of ?k] mv_ok_row(3) [OF ok e(1)]
        by (auto simp: mv_view_def entry_view_def stamp_entry_def mv_see_def GetVisibleRecord_def VisibleRecordLocked_def Let_def IsMvccTxn_def)
    next
      case other: False
      then have "stamp_entry i (?n + 1) e = e" if "?V ?k = Some e" for e
        using mv_ok_entry(3) [OF ok that] run tok by (auto simp: entry_ok_def stamp_entry_def txn_ok_def split: if_splits)
      then show ?thesis using other s1(4) [of ?k] by (cases "?V ?k") (simp_all add: mv_view_def)
    qed
    then show ?thesis using s1(3) s2 view_late [OF ok, of "?n + 1"] by simp
  qed
  then show "mv_ok st'" "\<forall>ts tab rid. ts \<le> ?n \<longrightarrow> mv_view st' ts tab rid = mv_view st ts tab rid"
    "mv_view st' (last_commit_ts (mv_tm st')) tab rid = (if ?k \<in> set (mvcc_write_keys t) then mv_see t tab rid st else mv_view st ?n tab rid)"
    by blast+
qed

subsection \<open>Replacing or removing the entry of one row\<close>

lemma erase_entry_simps [simp]:
  "mvcc_versions (erase_entry tab key m) = AList.delete key (mvcc_versions m)"
  "last_commit_ts (erase_entry tab key m) = last_commit_ts m" "running_txns (erase_entry tab key m) = running_txns m"
  by (simp_all add: erase_entry_def)

lemma length_alist_delete:
  "distinct (map fst al) \<Longrightarrow> map_of al k = Some v \<Longrightarrow> Suc (length (AList.delete k al)) = length al"
proof (induction al)
  case (Cons p al)
  show ?case
  proof (cases "fst p = k")
    case True
    then have "k \<notin> fst ` set al" using Cons.prems(1) by auto
    then show ?thesis using True by (simp add: delete_id)
  next
    case False
    then show ?thesis using Cons by (cases p) auto
  qed
qed simp

lemma erase_entry_wf: "store_wf m \<Longrightarrow> map_of (mvcc_versions m) key = Some e \<Longrightarrow> store_wf (erase_entry tab key m)"
  using length_alist_delete [of "mvcc_versions m" key e]
  by (simp add: store_wf_def erase_entry_def distinct_delete)

text \<open>
  An entry that is settled, because its writer rolls it back or the collection drops it, may be replaced by a
  committed one or by none.
\<close>

lemma settle:
  assumes ok: "mv_ok st" and e: "map_of (mvcc_versions (mv_tm st)) (MvccKey tab rid) = Some e"
    and V': "map_of (mvcc_versions (mv_tm st')) = (map_of (mvcc_versions (mv_tm st)))(MvccKey tab rid := e')"
    and wf: "store_wf (mv_tm st')"
    and frame: "last_commit_ts (mv_tm st') = last_commit_ts (mv_tm st)" "running_txns (mv_tm st') = running_txns (mv_tm st)"
    and run: "\<forall>i u. mv_running st' i = Some u \<longrightarrow> (\<exists>t. mv_running st i = Some t \<and> grown u t \<and>
        set (mvcc_write_keys u) = set (mvcc_write_keys t) - {MvccKey tab rid})"
      "dom (mv_running st') = dom (mv_running st)"
    and heap: "\<forall>tab' rid'. (tab', rid') \<noteq> (tab, rid) \<longrightarrow> mv_heap st' tab' rid' = mv_heap st tab' rid'"
    and new: "\<forall>b. e' = Some b \<longrightarrow> committed_ok (last_commit_ts (mv_tm st)) b \<and> e_tab_name b = tab \<and> e_rid b = rid \<and> mv_heap st' tab rid \<noteq> None"
  shows "mv_ok st'" "(\<And>ts. P ts \<Longrightarrow> entry_view ts e' (mv_heap st' tab rid) = entry_view ts (Some e) (mv_heap st tab rid)) \<Longrightarrow>
      P ts \<Longrightarrow> mv_view st' ts tab' rid' = mv_view st ts tab' rid'"
proof -
  let ?k = "MvccKey tab rid" and ?V = "map_of (mvcc_versions (mv_tm st))" and ?n = "last_commit_ts (mv_tm st)"
  have kept: "\<exists>u. mv_running st' i = Some u \<and> grown u t \<and> set (mvcc_write_keys u) = set (mvcc_write_keys t) - {?k}"
    if "mv_running st i = Some t" for i t
  proof -
    have "i \<in> dom (mv_running st')" unfolding run(2) using that by (rule domI)
    then obtain u where u: "mv_running st' i = Some u" by auto
    then obtain t' where "mv_running st i = Some t'" "grown u t'" "set (mvcc_write_keys u) = set (mvcc_write_keys t') - {?k}"
      using run(1) by blast
    then show ?thesis using u that by simp
  qed
  have "key = MvccKey (e_tab_name x) (e_rid x) \<and> mv_heap st' (e_tab_name x) (e_rid x) \<noteq> None \<and>
      entry_ok ?n (mv_running st') key x" if x: "map_of (mvcc_versions (mv_tm st')) key = Some x" for key x
  proof (cases "key = ?k")
    case True
    then show ?thesis using x V' new by (simp add: entry_ok_def committed_ok_def)
  next
    case False
    then have "?V key = Some x" using x V' by simp
    note old = mv_ok_entry [OF ok this]
    have "entry_ok ?n (mv_running st') key x"
    proof (cases "writer_txn x = INVALID_TXN_ID")
      case w: False
      then obtain t where t: "mv_running st (writer_txn x) = Some t" "key \<in> set (mvcc_write_keys t)"
          "mvcc_enabled t \<longrightarrow> (\<forall>v \<in> set (undo_versions x). v_commit_ts v \<le> start_ts t)"
        using old(3) by (auto simp: entry_ok_def)
      then show ?thesis using kept [OF t(1)] old(3) w False by (auto simp: entry_ok_def grown_def)
    qed (use old(3) in \<open>simp add: entry_ok_def\<close>)
    moreover have "(e_tab_name x, e_rid x) \<noteq> (tab, rid)" using False old(1) by auto
    ultimately show ?thesis using old heap by auto
  qed
  then have rows: "rows_ok st'" by (simp add: rows_ok_def frame)
  have snap: "snapshots (mv_running st') = snapshots (mv_running st)"
  proof (intro equalityI subsetI)
    fix i assume "i \<in> snapshots (mv_running st')"
    then obtain u where "mv_running st' i = Some u" "mvcc_enabled u" by (auto simp: snapshots_def)
    then obtain t where "mv_running st i = Some t" "grown u t" using run(1) by blast
    then show "i \<in> snapshots (mv_running st)" using \<open>mvcc_enabled u\<close> by (auto simp: snapshots_def grown_def)
  next
    fix i assume "i \<in> snapshots (mv_running st)"
    then obtain t where "mv_running st i = Some t" "mvcc_enabled t" by (auto simp: snapshots_def)
    then show "i \<in> snapshots (mv_running st')" using kept [of i t] by (auto simp: snapshots_def grown_def)
  qed
  moreover have "start_of (mv_running st') i = start_of (mv_running st) i" if "i \<in> snapshots (mv_running st)" for i
    using that kept [of i] by (fastforce simp: snapshots_def start_of_def grown_def)
  ultimately have clock: "clock_ok st'" using ok frame clock_ok_cong [of st st'] by (simp add: mv_ok_def)
  have "txn_ok st' i u" if "mv_running st' i = Some u" for i u
  proof -
    obtain t where t: "mv_running st i = Some t" "grown u t" "set (mvcc_write_keys u) = set (mvcc_write_keys t) - {?k}"
      using run(1) \<open>mv_running st' i = Some u\<close> by blast
    have "txn_ok st i t" by (rule mv_ok_running [OF ok t(1)])
    then show ?thesis using t(2,3) V' by (auto simp: txn_ok_def grown_def frame)
  qed
  then show "mv_ok st'" using wf rows clock by (simp add: mv_ok_def)
  show "mv_view st' ts tab' rid' = mv_view st ts tab' rid'"
    if "\<And>ts. P ts \<Longrightarrow> entry_view ts e' (mv_heap st' tab rid) = entry_view ts (Some e) (mv_heap st tab rid)" "P ts"
    using that heap V' e by (auto simp: mv_view_def MvccKey_inj)
qed

subsection \<open>Abort\<close>

definition without_key :: "string \<Rightarrow> Transaction \<Rightarrow> Transaction" where
  "without_key key t = t\<lparr>mvcc_write_keys := filter (\<lambda>k. k \<noteq> key) (mvcc_write_keys t)\<rparr>"

lemma pending_settles:
  assumes "pending_ok now e" "0 \<le> ts" "writer_txn e \<noteq> INVALID_TXN_ID"
  shows "restore_snapshot e = Some b \<Longrightarrow>
      entry_view ts (Some (MvccEntryBase.extend b (MvccEntry.fields None))) (Some (rollback_record e)) = entry_view ts (Some e) h"
    "restore_snapshot e = None \<Longrightarrow>
      entry_view ts None (if rollback_delete_physical e then None else Some (rollback_record e)) = entry_view ts (Some e) h"
  using assms
  by (auto simp: pending_ok_def entry_view_def newest_before_append newest_before_def committed_ok_def MvccEntryBase.defs
    split: if_splits)

lemma extend_simps [simp]:
  "committed_ok now (MvccEntryBase.extend b (MvccEntry.fields r)) = committed_ok now b"
  "e_tab_name (MvccEntryBase.extend b (MvccEntry.fields r)) = e_tab_name b"
  "e_rid (MvccEntryBase.extend b (MvccEntry.fields r)) = e_rid b"
  by (simp_all add: committed_ok_def MvccEntryBase.defs)

lemma rollback_keeps:
  assumes ok: "mv_ok st" and run: "mv_running st i = Some t"
  shows "keeps_views st ((rollback_row i (tab, rid) st)\<lparr>mv_running := (mv_running st)(i \<mapsto> without_key (MvccKey tab rid) t)\<rparr>)"
    (is "keeps_views st ?st'")
proof -
  let ?k = "MvccKey tab rid" and ?V = "map_of (mvcc_versions (mv_tm st))"
  have tok: "txn_ok st i t" by (rule mv_ok_running [OF ok run])
  show ?thesis
  proof (cases "\<exists>e. ?V ?k = Some e \<and> writer_txn e = i")
    case False
    then have "?k \<notin> set (mvcc_write_keys t)" using tok by (auto simp: txn_ok_def)
    then have "filter (\<lambda>k. k \<noteq> ?k) (mvcc_write_keys t) = mvcc_write_keys t" by (auto simp: filter_id_conv)
    then have "without_key ?k t = t" by (simp add: without_key_def)
    moreover have "rollback_row i (tab, rid) st = st" using False by (auto simp: rollback_row_def split: option.splits)
    ultimately show ?thesis using ok run by (simp add: keeps_views_def fun_upd_idem)
  next
    case True
    then obtain e where e: "?V ?k = Some e" "writer_txn e = i" by blast
    have w: "writer_txn e \<noteq> INVALID_TXN_ID" using tok e(2) by (auto simp: txn_ok_def)
    then have p: "pending_ok (last_commit_ts (mv_tm st)) e" using mv_ok_entry(3) [OF ok e(1)] by (simp add: entry_ok_def)
    let ?e' = "case restore_snapshot e of None \<Rightarrow> None | Some b \<Rightarrow> Some (MvccEntryBase.extend b (MvccEntry.fields None))"
    let ?h' = "if rollback_delete_physical e then None else Some (rollback_record e)"
    have tm': "mv_tm ?st' = restore_entry tab ?k e (mv_tm st)" and heap': "mv_heap ?st' = (mv_heap st)(tab := (mv_heap st tab)(rid := ?h'))"
      using e p by (auto simp: rollback_row_def put_heap_def pending_ok_def split: option.splits if_splits)
    have V': "map_of (mvcc_versions (mv_tm ?st')) = ?V(?k := ?e')"
      using p unfolding tm' by (auto simp: restore_entry_def pending_ok_def update_conv' delete_conv' split: option.splits)
    have wf: "store_wf (mv_tm ?st')"
      using ok e(1) erase_entry_wf [of "mv_tm st" ?k e tab] unfolding tm'
      by (auto simp: restore_entry_def mv_ok_def store_wf_def distinct_update length_alist_update split: option.splits)
    have frame: "last_commit_ts (mv_tm ?st') = last_commit_ts (mv_tm st)" "running_txns (mv_tm ?st') = running_txns (mv_tm st)"
      unfolding tm' by (auto simp: restore_entry_def split: option.splits)
    have free: "?k \<notin> set (mvcc_write_keys u)" if "mv_running st j = Some u" "j \<noteq> i" for j u
      using mv_ok_running [OF ok that(1)] that(2) e by (auto simp: txn_ok_def)
    have run': "\<exists>u'. mv_running st j = Some u' \<and> grown u u' \<and> set (mvcc_write_keys u) = set (mvcc_write_keys u') - {?k}"
      if "mv_running ?st' j = Some u" for j u
      using that run free by (cases "j = i") (auto simp: without_key_def grown_def)
    have dom: "dom (mv_running ?st') = dom (mv_running st)" using run by auto
    have heap: "\<forall>tab' rid'. (tab', rid') \<noteq> (tab, rid) \<longrightarrow> mv_heap ?st' tab' rid' = mv_heap st tab' rid'"
      by (auto simp: heap')
    have new: "\<forall>b. ?e' = Some b \<longrightarrow> committed_ok (last_commit_ts (mv_tm st)) b \<and> e_tab_name b = tab \<and> e_rid b = rid \<and> mv_heap ?st' tab rid \<noteq> None"
      using p mv_ok_row [OF ok e(1)] by (auto simp: pending_ok_def heap' split: option.splits)
    have view: "entry_view ts ?e' (mv_heap ?st' tab rid) = entry_view ts (Some e) (mv_heap st tab rid)" if "0 \<le> ts" for ts
      using pending_settles [OF p that w] p by (auto simp: heap' pending_ok_def split: option.splits)
    have run'': "\<forall>j u. mv_running ?st' j = Some u \<longrightarrow>
        (\<exists>u'. mv_running st j = Some u' \<and> grown u u' \<and> set (mvcc_write_keys u) = set (mvcc_write_keys u') - {?k})"
      using run' by blast
    show ?thesis
      unfolding keeps_views_def
      using settle(1) [OF ok e(1) V' wf frame run'' dom heap new]
        settle(2) [OF ok e(1) V' wf frame run'' dom heap new, where P = "\<lambda>ts. 0 \<le> ts", OF view] by simp
  qed
qed

lemma rollback_row_running [simp]:
  "mv_running (rollback_row i row st) = mv_running st"
  "rollback_row i row (st\<lparr>mv_running := r\<rparr>) = (rollback_row i row st)\<lparr>mv_running := r\<rparr>"
  by (auto simp: rollback_row_def put_heap_def Let_def split: prod.splits option.splits)

lemma keeps_views_trans: "keeps_views st1 st2 \<Longrightarrow> keeps_views st2 st3 \<Longrightarrow> keeps_views st1 st3"
  by (simp add: keeps_views_def)

lemma rollback_rows_keep:
  assumes "mv_ok st" "mv_running st i = Some t"
  shows "\<exists>u. keeps_views st ((fold (rollback_row i) rows st)\<lparr>mv_running := (mv_running st)(i \<mapsto> u)\<rparr>) \<and> grown u t \<and>
     set (mvcc_write_keys u) = set (mvcc_write_keys t) - (\<lambda>(tab, rid). MvccKey tab rid) ` set rows"
  using assms
proof (induction rows arbitrary: st t)
  case Nil
  then show ?case by (intro exI [of _ t]) (simp add: keeps_views_def fun_upd_idem)
next
  case (Cons row rows)
  obtain tab rid where row: "row = (tab, rid)" by (cases row)
  let ?t1 = "without_key (MvccKey tab rid) t" and ?run = "mv_running st"
  let ?st1 = "(rollback_row i row st)\<lparr>mv_running := ?run(i \<mapsto> ?t1)\<rparr>"
  have k: "keeps_views st ?st1" using rollback_keeps [OF Cons.prems] row by simp
  have ok1: "mv_ok ?st1" "mv_running ?st1 i = Some ?t1" using k by (simp_all add: keeps_views_def)
  have fold_run: "(fold (rollback_row i) rows (s\<lparr>mv_running := r\<rparr>)) = (fold (rollback_row i) rows s)\<lparr>mv_running := r\<rparr>" for s r
    by (induction rows arbitrary: s) simp_all
  obtain u where u: "keeps_views ?st1 ((fold (rollback_row i) rows ?st1)\<lparr>mv_running := (mv_running ?st1)(i \<mapsto> u)\<rparr>)" "grown u ?t1"
      "set (mvcc_write_keys u) = set (mvcc_write_keys ?t1) - (\<lambda>(tab, rid). MvccKey tab rid) ` set rows"
    using Cons.IH [OF ok1] by blast
  have "keeps_views st ((fold (rollback_row i) (row # rows) st)\<lparr>mv_running := ?run(i \<mapsto> u)\<rparr>)"
    using keeps_views_trans [OF k u(1)] by (simp add: fold_run)
  moreover have "grown u t" using u(2) by (auto simp: without_key_def grown_def)
  moreover have "set (mvcc_write_keys u) = set (mvcc_write_keys t) - (\<lambda>(tab, rid). MvccKey tab rid) ` set (row # rows)"
    using u(3) row by (auto simp: without_key_def)
  ultimately show ?case by blast
qed

lemma abort_step:
  assumes ok: "mv_ok st" and run: "mv_running st i = Some t"
    and rows: "set (map (\<lambda>(tab, rid). MvccKey tab rid) rows) = set (mvcc_write_keys t)"
    and st1: "st1 = fold (rollback_row i) rows st"
    and st': "st' = st1\<lparr>mv_tm := abort_mvcc t (mv_tm st1), mv_running := (mv_running st1)(i := None)\<rparr>"
  shows "keeps_views st st'"
proof -
  have r1: "mv_running st1 = mv_running st" unfolding st1 by (induction rows arbitrary: st) simp_all
  obtain u where u: "keeps_views st (st1\<lparr>mv_running := (mv_running st)(i \<mapsto> u)\<rparr>)" (is "keeps_views st ?st2") "grown u t" "mvcc_write_keys u = []"
    using rollback_rows_keep [OF ok run, of rows] rows st1 by auto
  have "core (mv_tm st') = core (end_snapshot u (mv_tm ?st2))"
    using u(2) by (simp add: st' abort_mvcc_def) (simp add: core_def end_snapshot_def grown_def ClearTxnStateLocked_def forget_txn_def)
  moreover have "mv_running st' = (mv_running ?st2)(i := None)" "mv_heap st' = mv_heap ?st2" by (simp_all add: st' r1)
  moreover have "mv_ok ?st2" "mv_running ?st2 i = Some u" using u(1) by (simp_all add: keeps_views_def)
  ultimately have "mv_ok st'" "mv_view st' = mv_view ?st2" using leave u(3) by blast+
  then show ?thesis using u(1) by (simp add: keeps_views_def)
qed

subsection \<open>Collection\<close>

lemma gc_entry_simps [simp]:
  "writer_txn (gc_entry w e) = writer_txn e" "e_tab_name (gc_entry w e) = e_tab_name e" "e_rid (gc_entry w e) = e_rid e"
  "writer_txn e \<noteq> INVALID_TXN_ID \<Longrightarrow> gc_entry w e = e"
  by (simp_all add: gc_entry_def Let_def)

lemma gc_entry_committed: "committed_ok now e \<Longrightarrow> committed_ok now (gc_entry w e)"
  by (auto simp: gc_entry_def Let_def committed_ok_def versions_ok_keep_from)

lemma gc_entry_view:
  "w \<le> ts \<Longrightarrow> entry_view ts (map_option (gc_entry w) e) h = entry_view ts e h"
  by (cases e) (auto simp: gc_entry_def Let_def entry_view_def newest_before_keep_from)

definition keeps_above :: "timestamp_t \<Rightarrow> snap_state \<Rightarrow> snap_state \<Rightarrow> bool" where
  "keeps_above w st st' \<longleftrightarrow> mv_ok st' \<and> (\<forall>ts tab rid. w \<le> ts \<longrightarrow> mv_view st' ts tab rid = mv_view st ts tab rid)"

lemma gc_scan_keeps:
  assumes ok: "mv_ok st" and scan: "gc_scan (mv_tm st) = (keys, m)"
  shows "keeps_above (GetWatermark (running_txns (mv_tm st))) st (st\<lparr>mv_tm := m\<rparr>)" "distinct keys"
    "\<forall>key \<in> set keys. \<exists>e. map_of (mvcc_versions m) key = Some e \<and> gc_removable (GetWatermark (running_txns (mv_tm st))) e"
    "running_txns m = running_txns (mv_tm st)"
proof -
  let ?w = "GetWatermark (running_txns (mv_tm st))" and ?V = "map_of (mvcc_versions (mv_tm st))"
  let ?vs = "map (\<lambda>(key, e). (key, gc_entry ?w e)) (mvcc_versions (mv_tm st))"
  have m: "m = (mv_tm st)\<lparr>mvcc_versions := ?vs\<rparr>" and keys: "keys = map fst (filter (\<lambda>(_, e). gc_removable ?w e) ?vs)"
    using scan by (simp_all add: gc_scan_def Let_def)
  have V': "map_of (mvcc_versions m) key = map_option (gc_entry ?w) (?V key)" for key
    by (simp add: m map_of_map)
  have frame: "last_commit_ts m = last_commit_ts (mv_tm st)" "running_txns m = running_txns (mv_tm st)" by (simp_all add: m)
  have wf: "store_wf m" using ok by (simp add: mv_ok_def store_wf_def m comp_def case_prod_beta)
  show "distinct keys" using wf unfolding keys by (simp add: store_wf_def m map_filter_fst_distinct)
  show "\<forall>key \<in> set keys. \<exists>e. map_of (mvcc_versions m) key = Some e \<and> gc_removable ?w e"
    using wf by (auto simp: keys m store_wf_def intro!: map_of_is_SomeI)
  show "running_txns m = running_txns (mv_tm st)" by (simp add: m)
  have "entry_ok now run key (gc_entry ?w e)" if "entry_ok now run key e" for now run key e
    using that gc_entry_committed by (cases "writer_txn e = INVALID_TXN_ID") (auto simp: entry_ok_def)
  then have "rows_ok (st\<lparr>mv_tm := m\<rparr>)"
    using ok by (auto simp: mv_ok_def rows_ok_def V' frame)
  moreover have "txn_ok (st\<lparr>mv_tm := m\<rparr>) i t" if "mv_running st i = Some t" for i t
    using mv_ok_running [OF ok that] by (fastforce simp: txn_ok_def V' frame)
  moreover have "clock_ok (st\<lparr>mv_tm := m\<rparr>)" using ok by (simp add: mv_ok_def clock_ok_def frame)
  ultimately have "mv_ok (st\<lparr>mv_tm := m\<rparr>)" using wf by (simp add: mv_ok_def)
  moreover have "mv_view (st\<lparr>mv_tm := m\<rparr>) ts tab rid = mv_view st ts tab rid" if "?w \<le> ts" for ts tab rid
    using gc_entry_view [OF that] by (simp add: mv_view_def V')
  ultimately show "keeps_above ?w st (st\<lparr>mv_tm := m\<rparr>)" by (simp add: keeps_above_def)
qed

lemma collect_key_keeps:
  assumes ok: "mv_ok st" and e: "map_of (mvcc_versions (mv_tm st)) key = Some e" "gc_removable w e"
  shows "keeps_above w st (collect_key key st)"
    "map_of (mvcc_versions (mv_tm (collect_key key st))) = (map_of (mvcc_versions (mv_tm st)))(key := None)"
proof -
  let ?tab = "e_tab_name e" and ?rid = "e_rid e" and ?st' = "collect_key key st"
  have key: "key = MvccKey ?tab ?rid" by (rule mv_ok_entry(1) [OF ok e(1)])
  have e': "map_of (mvcc_versions (mv_tm st)) (MvccKey ?tab ?rid) = Some e" using e(1) key by simp
  have c: "writer_txn e = INVALID_TXN_ID" "e_exists e" "e_commit_ts e \<le> w" using e(2) by (simp_all add: gc_removable_def)
  have tm': "mv_tm ?st' = erase_entry ?tab key (mv_tm st)" and run': "mv_running ?st' = mv_running st"
    and heap': "mv_heap ?st' = (if e_is_deleted e then (mv_heap st)(?tab := (mv_heap st ?tab)(?rid := None)) else mv_heap st)"
    using e(1) c by (simp_all add: collect_key_def gc_erase_def put_heap_def)
  show V': "map_of (mvcc_versions (mv_tm ?st')) = (map_of (mvcc_versions (mv_tm st)))(key := None)"
    by (simp add: tm' delete_conv')
  have wf: "store_wf (mv_tm ?st')" using ok e(1) by (simp add: tm' mv_ok_def erase_entry_wf)
  have "key \<notin> set (mvcc_write_keys t)" if "mv_running st i = Some t" for i t
    using mv_ok_running [OF ok that] e(1) c(1) by (auto simp: txn_ok_def)
  then have run: "\<forall>i u. mv_running ?st' i = Some u \<longrightarrow> (\<exists>t. mv_running st i = Some t \<and> grown u t \<and>
      set (mvcc_write_keys u) = set (mvcc_write_keys t) - {MvccKey ?tab ?rid})"
    using run' key by fastforce
  have view: "entry_view ts None (mv_heap ?st' ?tab ?rid) = entry_view ts (Some e) (mv_heap st ?tab ?rid)" if "w \<le> ts" for ts
    using that c by (simp add: entry_view_def heap')
  have V'': "map_of (mvcc_versions (mv_tm ?st')) = (map_of (mvcc_versions (mv_tm st)))(MvccKey ?tab ?rid := None)"
    using V' key by simp
  have frame: "last_commit_ts (mv_tm ?st') = last_commit_ts (mv_tm st)" "running_txns (mv_tm ?st') = running_txns (mv_tm st)"
    by (simp_all add: tm')
  have heap: "\<forall>tab' rid'. (tab', rid') \<noteq> (?tab, ?rid) \<longrightarrow> mv_heap ?st' tab' rid' = mv_heap st tab' rid'"
    by (auto simp: heap')
  have dom: "dom (mv_running ?st') = dom (mv_running st)" by (simp add: run')
  have new: "\<forall>b. None = Some b \<longrightarrow> committed_ok (last_commit_ts (mv_tm st)) b \<and> e_tab_name b = ?tab \<and> e_rid b = ?rid \<and>
      mv_heap ?st' ?tab ?rid \<noteq> None" by simp
  show "keeps_above w st ?st'"
    unfolding keeps_above_def
    using settle(1) [OF ok e' V'' wf frame run dom heap new]
      settle(2) [OF ok e' V'' wf frame run dom heap new, where P = "\<lambda>ts. w \<le> ts", OF view] by simp
qed

lemma collect_keys_keep:
  assumes "mv_ok st" "distinct keys" "\<forall>key \<in> set keys. \<exists>e. map_of (mvcc_versions (mv_tm st)) key = Some e \<and> gc_removable w e"
  shows "keeps_above w st (fold collect_key keys st)"
  using assms
proof (induction keys arbitrary: st)
  case (Cons key keys)
  then obtain e where e: "map_of (mvcc_versions (mv_tm st)) key = Some e" "gc_removable w e" by auto
  note k = collect_key_keeps [OF Cons.prems(1) e]
  have "keeps_above w (collect_key key st) (fold collect_key keys (collect_key key st))"
    using Cons.prems k by (intro Cons.IH) (auto simp: keeps_above_def)
  then show ?case using k(1) by (simp add: keeps_above_def)
qed (simp add: keeps_above_def)

lemma mv_ok_core:
  assumes "mv_ok st" "core (mv_tm st') = core (mv_tm st)" "mv_running st' = mv_running st" "mv_heap st' = mv_heap st"
  shows "mv_ok st'" "mv_view st' = mv_view st"
  using mv_ok_same [of st st'] coreD [OF assms(2)] assms by (simp_all add: mv_ok_def)

lemma collect_step:
  assumes ok: "mv_ok st"
  shows "keeps_above (GetWatermark (running_txns (mv_tm st))) st (mv_collect st)"
proof -
  let ?w = "GetWatermark (running_txns (mv_tm st))"
  obtain keys m where scan: "gc_scan (mv_tm st) = (keys, m)" by (cases "gc_scan (mv_tm st)")
  note g = gc_scan_keeps [OF ok scan]
  let ?st1 = "st\<lparr>mv_tm := m\<rparr>" and ?st2 = "fold collect_key keys (st\<lparr>mv_tm := m\<rparr>)"
  have "keeps_above ?w ?st1 ?st2"
    using g by (intro collect_keys_keep) (simp_all add: keeps_above_def)
  moreover have "mv_ok (mv_collect st)" "mv_view (mv_collect st) = mv_view ?st2" if "mv_ok ?st2"
    using mv_ok_core [OF that, of "mv_collect st"] scan by (simp_all add: mv_collect_def Let_def)
  ultimately show ?thesis using g(1) by (simp add: keeps_above_def)
qed

subsection \<open>Every step\<close>

lemma begin_step:
  assumes ok: "mv_ok st" and free: "mv_running st i = None" "0 \<le> i"
    and t0: "txn_id t0 = i" "mvcc_write_keys t0 = []"
    and start: "start_snapshot t0 (mv_tm st) = (t, m)" and st': "st' = st\<lparr>mv_tm := m, mv_running := (mv_running st)(i \<mapsto> t)\<rparr>"
  shows "mv_ok st'" "mv_view st' = mv_view st"
proof -
  let ?w = "running_txns (mv_tm st)" and ?n = "last_commit_ts (mv_tm st)" and ?run = "mv_running st"
  have t: "txn_id t = i" "mvcc_write_keys t = []" "mvcc_enabled t = mvcc_enabled t0"
      "mvcc_enabled t \<longrightarrow> start_ts t = ?n \<and> read_ts t = ?n"
    and m: "mvcc_versions m = mvcc_versions (mv_tm st)" "last_commit_ts m = ?n" "store_wf m = store_wf (mv_tm st)"
      "running_txns m = (if mvcc_enabled t then AddTxn ?n ?w else ?w)"
    using start t0 by (auto simp: start_snapshot_def store_wf_def split: if_splits)
  have clk: "clock_ok st" using ok by (simp add: mv_ok_def)
  have "entry_ok ?n (?run(i \<mapsto> t)) key e" if "entry_ok ?n ?run key e" for key e
    using that free by (auto simp: entry_ok_def split: if_splits)
  then have "rows_ok st'" using ok by (simp add: mv_ok_def rows_ok_def st' m)
  moreover have "clock_ok st'"
  proof (cases "mvcc_enabled t")
    case True
    have i: "i \<notin> snapshots ?run" "snapshots (?run(i \<mapsto> t)) = insert i (snapshots ?run)"
      using True free by (auto simp: snapshots_def)
    moreover have "image_mset (start_of (?run(i \<mapsto> t))) (mset_set (snapshots ?run)) = image_mset (start_of ?run) (mset_set (snapshots ?run))"
      using i(1) clk by (intro image_mset_cong) (auto simp: start_of_def clock_ok_def)
    moreover have "start_of (?run(i \<mapsto> t)) i = ?n" using t True by (simp add: start_of_def)
    ultimately show ?thesis using clk True AddTxn_ok [of ?w ?n] by (simp add: clock_ok_def st' m)
  next
    case False
    then have "snapshots (?run(i \<mapsto> t)) = snapshots ?run" "\<forall>j \<in> snapshots ?run. start_of (?run(i \<mapsto> t)) j = start_of ?run j"
      using free by (auto simp: snapshots_def start_of_def)
    then show ?thesis using False clk clock_ok_cong [of st st'] by (simp add: st' m)
  qed
  moreover have "txn_ok st' j u" if "mv_running st' j = Some u" for j u
  proof (cases "j = i")
    case True
    then show ?thesis using that t clk free by (simp add: txn_ok_def st' m clock_ok_def)
  next
    case False
    then show ?thesis using that mv_ok_running [OF ok, of j u] by (simp add: txn_ok_def st' m)
  qed
  ultimately show "mv_ok st'" using ok by (simp add: mv_ok_def st' m)
  show "mv_view st' = mv_view st" by (simp add: mv_view_def fun_eq_iff st' m)
qed

lemma watermark_nonneg: "mv_ok st \<Longrightarrow> 0 \<le> GetWatermark (running_txns (mv_tm st))"
proof -
  assume ok: "mv_ok st"
  let ?w = "running_txns (mv_tm st)"
  have "0 \<le> ts" if ts: "ts \<in># running_reads ?w" for ts
  proof -
    obtain i where "i \<in> snapshots (mv_running st)" "ts = start_of (mv_running st) i"
      using ts ok by (auto simp: mv_ok_def clock_ok_def)
    then show ?thesis using ok by (auto simp: mv_ok_def txn_ok_def snapshots_def start_of_def)
  qed
  moreover have "watermark_ok ?w" "0 \<le> wm_commit_ts ?w" using ok by (simp_all add: mv_ok_def clock_ok_def)
  ultimately show ?thesis by (auto simp: watermark_ok_def low_mark_def GetWatermark_def)
qed

lemma watermark_running:
  assumes "mv_ok st" "mv_running st i = Some t" "mvcc_enabled t"
  shows "GetWatermark (running_txns (mv_tm st)) \<le> start_ts t" "start_ts t \<le> last_commit_ts (mv_tm st)"
proof -
  have "i \<in> snapshots (mv_running st)" "start_of (mv_running st) i = start_ts t"
    using assms by (auto simp: snapshots_def start_of_def)
  then have "start_ts t \<in># running_reads (running_txns (mv_tm st))"
    using assms(1) by (force simp: mv_ok_def clock_ok_def)
  then show "GetWatermark (running_txns (mv_tm st)) \<le> start_ts t"
    using assms(1) watermark_le by (simp add: mv_ok_def clock_ok_def)
  show "start_ts t \<le> last_commit_ts (mv_tm st)" using mv_ok_running [OF assms(1,2)] assms(3) by (simp add: txn_ok_def)
qed

definition steps_ok :: "snap_state \<Rightarrow> snap_state \<Rightarrow> bool" where
  "steps_ok st st' \<longleftrightarrow> mv_ok st' \<and>
     (\<forall>ts tab rid. GetWatermark (running_txns (mv_tm st)) \<le> ts \<and> ts \<le> last_commit_ts (mv_tm st) \<longrightarrow>
        mv_view st' ts tab rid = mv_view st ts tab rid)"

lemma keeps_steps_ok: "mv_ok st \<Longrightarrow> keeps_views st st' \<Longrightarrow> steps_ok st st'"
  using watermark_nonneg [of st] by (auto simp: steps_ok_def keeps_views_def)

lemma mv_step_ok:
  assumes ok: "mv_ok st" and step: "mv_step db ev st = Some st'"
  shows "steps_ok st st'"
proof (cases ev)
  case (EvBegin i lvl)
  then obtain t m where "mv_running st i = None" "0 \<le> i"
      "start_snapshot ((new_Transaction i lvl)\<lparr>mvcc_enabled := (lvl = SNAPSHOT_ISOLATION \<or> lvl = SERIALIZABLE)\<rparr>) (mv_tm st) = (t, m)"
      "st' = st\<lparr>mv_tm := m, mv_running := (mv_running st)(i \<mapsto> t)\<rparr>"
    using step by (auto split: if_splits prod.splits)
  note b = begin_step [OF ok this(1,2) _ _ this(3,4)]
  show ?thesis using b by (simp add: steps_ok_def new_Transaction_def)
next
  case (EvInsert i tab rid rec)
  then obtain t where run: "mv_running st i = Some t" and g: "mv_heap st tab rid = None" "may_write t tab rid st"
      and st': "st' = mv_call i (MvccInsert tab rid rec) (put_heap tab rid (Some rec)) t st"
    using step by (auto simp: with_txn_def split: option.splits if_splits)
  have start: "mvcc_enabled t \<longrightarrow> 0 \<le> start_ts t" using mv_ok_running [OF ok run] by (simp add: txn_ok_def)
  have "keeps_views st st'"
    unfolding st'
    using MvccInsert_effect [OF _ _ start, of tab rid rec] g
    by (intro write_keeps [OF ok run g(2), where ins = True and old = rec and deleted = False and rec = rec and v = rec])
      (auto simp: may_write_def)
  then show ?thesis by (rule keeps_steps_ok [OF ok])
next
  case (EvUpdate i tab rid rec)
  then obtain t old where run: "mv_running st i = Some t" and g: "mv_see t tab rid st = Some old" "may_write t tab rid st"
      "is_ret (get_table db tab)" and st': "st' = mv_call i (MvccUpdate db tab rid old rec) (put_heap tab rid (Some rec)) t st"
    using step by (auto simp: with_txn_def split: option.splits if_splits)
  have start: "mvcc_enabled t \<longrightarrow> 0 \<le> start_ts t" using mv_ok_running [OF ok run] by (simp add: txn_ok_def)
  have "keeps_views st st'"
    unfolding st'
    using MvccUpdate_effect [OF _ _ start g(3), of rid old rec] g
    by (intro write_keeps [OF ok run g(2), where ins = False and old = old and deleted = False and rec = rec and v = rec])
      (auto simp: may_write_def)
  then show ?thesis by (rule keeps_steps_ok [OF ok])
next
  case (EvDelete i tab rid)
  then obtain t old where run: "mv_running st i = Some t" and g: "mv_see t tab rid st = Some old" "may_write t tab rid st"
      and st': "st' = mv_call i (MvccDelete tab rid old) id t st"
    using step by (auto simp: with_txn_def split: option.splits if_splits)
  have start: "mvcc_enabled t \<longrightarrow> 0 \<le> start_ts t" using mv_ok_running [OF ok run] by (simp add: txn_ok_def)
  have "mv_heap st tab rid \<noteq> None" using g(1) by (auto simp: mv_see_def split: option.splits)
  then have "keeps_views st st'"
    unfolding st'
    using MvccDelete_effect [OF _ _ start, of tab rid old] g
    by (intro write_keeps [OF ok run g(2), where ins = False and old = old and deleted = True and rec = old])
      (auto simp: may_write_def)
  then show ?thesis by (rule keeps_steps_ok [OF ok])
next
  case (EvRead i tab cs conds rids)
  then have "mv_ok st' \<and> mv_view st' = mv_view st"
    using step mv_ok_core [OF ok, of st'] by (auto simp: with_txn_def split: option.splits)
  then show ?thesis by (simp add: steps_ok_def)
next
  case (EvCommit i)
  then obtain t where "mv_running st i = Some t" "st' = st\<lparr>mv_tm := snd (commit_mvcc t (mv_tm st)), mv_running := (mv_running st)(i := None)\<rparr>"
    using step by (auto simp: with_txn_def split: option.splits)
  then show ?thesis using commit_step [OF ok, of i t st'] by (simp add: steps_ok_def)
next
  case (EvAbort i rows)
  then obtain t where "mv_running st i = Some t" "set (map (\<lambda>(tab, rid). MvccKey tab rid) rows) = set (mvcc_write_keys t)"
      "st' = (let st = fold (rollback_row i) rows st in st\<lparr>mv_tm := abort_mvcc t (mv_tm st), mv_running := (mv_running st)(i := None)\<rparr>)"
    using step by (auto simp: with_txn_def Let_def split: option.splits if_splits)
  then show ?thesis using keeps_steps_ok [OF ok abort_step [OF ok _ _ refl]] by (simp add: Let_def)
next
  case EvCollect
  then show ?thesis using collect_step [OF ok] step by (simp add: steps_ok_def keeps_above_def)
qed

lemma start_state_ok: "mv_ok (start_state h)"
  by (simp add: mv_ok_def start_state_def new_TransactionManager_def store_wf_def rows_ok_def clock_ok_def snapshots_def)

lemma mv_step_mv_ok: "mv_ok st \<Longrightarrow> mv_step db ev st = Some st' \<Longrightarrow> mv_ok st'"
  using mv_step_ok by (simp add: steps_ok_def)

lemma mv_run_ok: "mv_ok st \<Longrightarrow> mv_run db evs st = Some st' \<Longrightarrow> mv_ok st'"
  by (induction evs arbitrary: st) (auto dest: mv_step_mv_ok split: option.splits)

lemma mv_run_append:
  "mv_run db (as @ bs) st = (case mv_run db as st of None \<Rightarrow> None | Some st' \<Rightarrow> mv_run db bs st')"
  by (induction as arbitrary: st) (simp_all split: option.split)

section \<open>Reads and snapshots\<close>

definition ends :: "txn_id_t \<Rightarrow> mv_event \<Rightarrow> bool" where
  "ends i ev = (case ev of EvCommit j \<Rightarrow> i = j | EvAbort j _ \<Rightarrow> i = j | _ \<Rightarrow> False)"

text \<open>A running transaction keeps its snapshot until it ends.\<close>

lemma mv_step_running:
  assumes ok: "mv_ok st" and step: "mv_step db ev st = Some st'" and run: "mv_running st i = Some t" and more: "\<not> ends i ev"
  shows "\<exists>t'. mv_running st' i = Some t' \<and> grown t t'"
proof -
  have call: "\<exists>t'. mv_running (mv_call j c row u st) i = Some t' \<and> grown t t'"
    if "mv_running st j = Some u" "\<And>r t' m'. c (u, mv_tm st) = (r, t', m') \<Longrightarrow> write_effect tab rid old ins d rec u (mv_tm st) r t' m'"
      "row = put_heap tab rid v \<or> row = id" for j c row u tab rid old ins d rec v
  proof -
    obtain r u' m' where c: "c (u, mv_tm st) = (r, u', m')" by (rule prod_cases3)
    then have "grown u u'"
      using that(2) [OF c] add_key_grown by (auto simp: write_effect_def Let_def split: sum.splits)
    then show ?thesis using that(1,3) run c by (cases r) (auto simp: mv_call_def put_heap_def)
  qed
  have fold_run: "mv_running (fold (rollback_row j) rows s) = mv_running s" for j rows s
    by (induction rows arbitrary: s) simp_all
  have start: "mvcc_enabled u \<longrightarrow> 0 \<le> start_ts u" if "mv_running st j = Some u" for j u
    using mv_ok_running [OF ok that] by (simp add: txn_ok_def)
  show ?thesis
  proof (cases ev)
    case (EvBegin j lvl)
    then show ?thesis using step run by (auto split: if_splits prod.splits)
  next
    case (EvInsert j tab rid rec)
    then obtain u where w: "mv_running st j = Some u" "ShouldVersionWrites (Some u) (mv_tm st)"
        "st' = mv_call j (MvccInsert tab rid rec) (put_heap tab rid (Some rec)) u st"
      using step by (auto simp: with_txn_def may_write_def split: option.splits if_splits)
    show ?thesis unfolding w(3) by (rule call [OF w(1) MvccInsert_effect [OF _ w(2) start [OF w(1)]]]) auto
  next
    case (EvUpdate j tab rid rec)
    then obtain u old where w: "mv_running st j = Some u" "ShouldVersionWrites (Some u) (mv_tm st)"
        "st' = mv_call j (MvccUpdate db tab rid old rec) (put_heap tab rid (Some rec)) u st" "is_ret (get_table db tab)"
      using step by (auto simp: with_txn_def may_write_def split: option.splits if_splits)
    show ?thesis unfolding w(3) by (rule call [OF w(1) MvccUpdate_effect [OF _ w(2) start [OF w(1)] w(4)]]) auto
  next
    case (EvDelete j tab rid)
    then obtain u old where w: "mv_running st j = Some u" "ShouldVersionWrites (Some u) (mv_tm st)"
        "st' = mv_call j (MvccDelete tab rid old) (id) u st"
      using step by (auto simp: with_txn_def may_write_def split: option.splits if_splits)
    show ?thesis unfolding w(3) by (rule call [OF w(1) MvccDelete_effect [OF _ w(2) start [OF w(1)]]]) auto
  next
    case EvCollect
    have "mv_running (fold collect_key keys s) = mv_running s" for keys s
      by (induction keys arbitrary: s) (simp_all add: collect_key_def put_heap_def Let_def split: option.splits)
    then show ?thesis using step run EvCollect by (auto simp: mv_collect_def Let_def split: prod.splits)
  qed (use step run more fold_run in \<open>auto simp: with_txn_def ends_def Let_def split: option.splits if_splits\<close>)
qed

lemma see_view:
  assumes ok: "mv_ok st" and run: "mv_running st i = Some t" and snap: "mvcc_enabled t" and other: "MvccKey tab rid \<notin> set (mvcc_write_keys t)"
  shows "mv_see t tab rid st = mv_view st (start_ts t) tab rid"
proof (cases "map_of (mvcc_versions (mv_tm st)) (MvccKey tab rid)")
  case None
  then show ?thesis using snap
    by (simp add: mv_see_def mv_view_def entry_view_def GetVisibleRecord_def IsMvccTxn_def Let_def split: option.split)
next
  case (Some e)
  have t: "txn_id t = i" "0 \<le> i" using mv_ok_running [OF ok run] by (simp_all add: txn_ok_def)
  note eok = mv_ok_entry(3) [OF ok Some]
  then have w: "writer_txn e \<noteq> txn_id t" using run other t by (auto simp: entry_ok_def split: if_splits)
  have ex: "e_exists e" using eok by (auto simp: entry_ok_def committed_ok_def pending_ok_def split: if_splits)
  show ?thesis
    using Some snap w ex mv_ok_row(3) [OF ok Some]
    by (auto simp: mv_see_def mv_view_def entry_view_def GetVisibleRecord_def VisibleRecordLocked_def IsMvccTxn_def Let_def)
qed

lemma run_stable:
  assumes "mv_ok st" "mv_run db evs st = Some st'" "mv_running st i = Some t" "mvcc_enabled t" "\<forall>ev \<in> set evs. \<not> ends i ev"
  shows "\<exists>t'. mv_running st' i = Some t' \<and> grown t t' \<and> mv_view st' (start_ts t) = mv_view st (start_ts t)"
  using assms
proof (induction evs arbitrary: st t)
  case (Cons ev evs)
  then obtain st1 where st1: "mv_step db ev st = Some st1" "mv_run db evs st1 = Some st'" by (auto split: option.splits)
  obtain t1 where t1: "mv_running st1 i = Some t1" "grown t t1"
    using mv_step_running [OF Cons.prems(1) st1(1) Cons.prems(3)] Cons.prems(5) by auto
  have ok1: "mv_ok st1" and v: "mv_view st1 (start_ts t) = mv_view st (start_ts t)"
    using mv_step_ok [OF Cons.prems(1) st1(1)] watermark_running [OF Cons.prems(1,3,4)] by (auto simp: steps_ok_def fun_eq_iff)
  have "\<exists>t'. mv_running st' i = Some t' \<and> grown t1 t' \<and> mv_view st' (start_ts t1) = mv_view st1 (start_ts t1)"
    using Cons.IH [OF ok1 st1(2) t1(1)] t1(2) Cons.prems(4,5) by (simp add: grown_def)
  then show ?case using t1(2) v by (auto simp: grown_def)
qed auto

lemma reads_own:
  assumes ok: "mv_ok st" and run: "mv_running st i = Some t" and own: "MvccKey tab rid \<in> set (mvcc_write_keys t)"
  obtains e where "map_of (mvcc_versions (mv_tm st)) (MvccKey tab rid) = Some e" "writer_txn e = i" "e_exists e"
    "mv_see t tab rid st = (if e_is_deleted e then None else mv_heap st tab rid)" "HasMvccState (mv_tm st)"
proof -
  have tok: "txn_ok st i t" by (rule mv_ok_running [OF ok run])
  then obtain e where e: "map_of (mvcc_versions (mv_tm st)) (MvccKey tab rid) = Some e" "writer_txn e = i"
    using own by (auto simp: txn_ok_def)
  have t: "txn_id t = i" "0 \<le> i" using tok by (auto simp: txn_ok_def)
  have ex: "e_exists e" using mv_ok_entry(3) [OF ok e(1)] e(2) t by (simp add: entry_ok_def pending_ok_def)
  have st: "HasMvccState (mv_tm st)"
    using ok e(1) by (cases "mvcc_versions (mv_tm st)") (auto simp: mv_ok_def store_wf_def HasMvccState_def)
  have "mv_see t tab rid st = (if e_is_deleted e then None else mv_heap st tab rid)"
    using e t ex st mv_ok_row(3) [OF ok e(1)]
    by (auto simp: mv_see_def GetVisibleRecord_def VisibleRecordLocked_def Let_def IsMvccTxn_def)
  then show ?thesis using that e ex st by blast
qed

lemma see_committed:
  assumes ok: "mv_ok st" and run: "mv_running st i = Some t" and rc: "\<not> mvcc_enabled t" and other: "MvccKey tab rid \<notin> set (mvcc_write_keys t)"
  shows "mv_see t tab rid st = mv_view st (last_commit_ts (mv_tm st)) tab rid"
proof (cases "map_of (mvcc_versions (mv_tm st)) (MvccKey tab rid)")
  case None
  then show ?thesis
    by (simp add: mv_see_def mv_view_def entry_view_def GetVisibleRecord_def Let_def split: option.split)
next
  case (Some e)
  let ?n = "last_commit_ts (mv_tm st)"
  have t: "txn_id t = i" "0 \<le> i" using mv_ok_running [OF ok run] by (simp_all add: txn_ok_def)
  note eok = mv_ok_entry(3) [OF ok Some]
  then have w: "writer_txn e \<noteq> txn_id t" using run other t by (auto simp: entry_ok_def split: if_splits)
  have ex: "e_exists e" using eok by (auto simp: entry_ok_def committed_ok_def pending_ok_def split: if_splits)
  have n: "0 \<le> ?n" using ok by (simp add: mv_ok_def clock_ok_def)
  have "newest_committed vs = newest_before ?n vs" if "versions_ok (?n + 1) vs" for vs
    using that by (auto simp: newest_committed_def newest_before_def versions_ok_def intro!: find_cong)
  then have "writer_txn e \<noteq> INVALID_TXN_ID \<longrightarrow> newest_committed (undo_versions e) = newest_before ?n (undo_versions e)"
    using eok pending_versions [OF _ n] by (simp add: entry_ok_def)
  moreover have "HasMvccState (mv_tm st)"
    using ok Some by (cases "mvcc_versions (mv_tm st)") (auto simp: mv_ok_def store_wf_def HasMvccState_def)
  ultimately show ?thesis
    using Some rc w ex mv_ok_row(3) [OF ok Some] eok
    by (auto simp: mv_see_def mv_view_def entry_view_def GetVisibleRecord_def VisibleRecordLocked_def IsMvccTxn_def Let_def
        entry_ok_def committed_ok_def)
qed

section \<open>Properties\<close>

definition sample_meta :: DbMeta where
  "sample_meta =
     \<lparr>db_name = ''d'', tabs = map (\<lambda>n. (n, \<lparr>tab_name = n, cols = [], indexes = []\<rparr>)) [''x'', ''y'', ''z'']\<rparr>"

definition sample_heap :: "string \<Rightarrow> Rid \<Rightarrow> bytes option" where
  "sample_heap tab rid = (if tab \<in> {''x'', ''y'', ''z''} \<and> rid = Rid 1 0 then Some [7] else None)"

text \<open>Transaction 2 updates row x and commits while 1 is running, then the collector runs; 3 reads without snapshot.\<close>

definition sample_run :: "mv_event list" where
  "sample_run = [EvBegin 1 SNAPSHOT_ISOLATION, EvBegin 2 SNAPSHOT_ISOLATION, EvBegin 3 READ_COMMITTED]"

definition sample_rest :: "mv_event list" where
  "sample_rest = [EvUpdate 2 ''x'' (Rid 1 0) [8], EvUpdate 1 ''y'' (Rid 1 0) [9], EvCommit 2, EvCollect]"

definition sample_check :: "snap_state \<Rightarrow> snap_state \<Rightarrow> Transaction \<Rightarrow> Transaction \<Rightarrow> Transaction \<Rightarrow> bool" where
  "sample_check st st' t t' u \<longleftrightarrow>
     mvcc_enabled t \<and> mvcc_enabled t' \<and> \<not> mvcc_enabled u \<and> mvcc_write_keys t' = [MvccKey ''y'' (Rid 1 0)] \<and> mvcc_write_keys u = [] \<and>
     start_ts t' = 0 \<and> mv_see t ''x'' (Rid 1 0) st = Some [7] \<and> mv_see t' ''y'' (Rid 1 0) st' = Some [9] \<and>
     mv_see u ''x'' (Rid 1 0) st' = Some [8] \<and> mv_view st' 0 ''y'' (Rid 1 0) = Some [7]"

lemma sample_evaluated:
  "case mv_run sample_meta sample_run (start_state sample_heap) of None \<Rightarrow> False | Some st \<Rightarrow>
   case mv_run sample_meta sample_rest st of None \<Rightarrow> False | Some st' \<Rightarrow>
   case (mv_running st 1, mv_running st' 1, mv_running st' 3) of
     (Some t, Some t', Some u) \<Rightarrow> sample_check st st' t t' u | _ \<Rightarrow> False"
  by code_simp

lemma sample_runs:
  obtains st st' t t' u where "mv_run sample_meta sample_run (start_state sample_heap) = Some st"
    "mv_run sample_meta sample_rest st = Some st'"
    "mv_running st 1 = Some t" "mv_running st' 1 = Some t'" "mv_running st' 3 = Some u" "sample_check st st' t t' u"
  using sample_evaluated by (auto split: option.splits)









end
