(* ===== verification/Mvcc_Ssi.thy ===== *)
theory Mvcc_Ssi
  imports Mvcc_Snapshot
begin

text \<open>
  The read-write dependency graph of serializable transactions. The three containers that hold it always agree; a write
  records an edge from every concurrent reader whose registered read it affects and no other edge, and is refused
  exactly when an edge it adds completes a dangerous structure. The last section shows two runs in which
  the checks let an anomaly through.
\<close>

section \<open>The graph\<close>

definition edges :: "TransactionManager \<Rightarrow> (txn_id_t \<times> txn_id_t) set" where
  "edges m = set (rw_edges m)"

text \<open>\<^verbatim>\<open>rw_in_\<close> and \<^verbatim>\<open>rw_out_\<close> are the two adjacency maps of \<^verbatim>\<open>rw_edges_\<close>.\<close>

definition graph_ok :: "TransactionManager \<Rightarrow> bool" where
  "graph_ok m \<longleftrightarrow>
     (\<forall>a b. b \<in> set (set_of a (rw_out m)) \<longleftrightarrow> (a, b) \<in> edges m) \<and>
     (\<forall>a b. a \<in> set (set_of b (rw_in m)) \<longleftrightarrow> (a, b) \<in> edges m)"

definition finish :: "TransactionManager \<Rightarrow> txn_id_t \<Rightarrow> timestamp_t option" where
  "finish m = map_of (ser_txn_finish_ts m)"

text \<open>
  The structure that the code refuses: two consecutive edges through a pivot that form a cycle of two transactions, or
  whose last transaction has committed, and before the first one.
\<close>

definition dangerous :: "(txn_id_t \<times> txn_id_t) set \<Rightarrow> (txn_id_t \<Rightarrow> timestamp_t option) \<Rightarrow> txn_id_t \<Rightarrow> bool" where
  "dangerous E fin pivot \<longleftrightarrow>
     (\<exists>tin tout. (tin, pivot) \<in> E \<and> (pivot, tout) \<in> E \<and>
        (tin = tout \<or> (\<exists>f. fin tout = Some f \<and> (\<forall>g. fin tin = Some g \<longrightarrow> f < g))))"

lemma set_of_simps:
  "set_of k (set_insert k' x m) = (if k = k' then List.insert x (set_of k m) else set_of k m)"
  "set_of k (AList.delete k' m) = (if k = k' then [] else set_of k m)"
  by (auto simp: set_of_def set_insert_def update_conv' delete_conv')

lemma set_of_map: "set_of k (map (\<lambda>(k, xs). (k, removeAll i xs)) m) = removeAll i (set_of k m)"
  by (simp add: set_of_def map_of_map split: option.split)

lemma finished_first_iff:
  "(case x of None \<Rightarrow> False | Some f \<Rightarrow> case y of None \<Rightarrow> True | Some g \<Rightarrow> f < g) \<longleftrightarrow>
   (\<exists>f. x = Some f \<and> (\<forall>g. y = Some g \<longrightarrow> f < (g :: int)))"
  by (cases x; cases y) auto

lemma HasDangerous_sets:
  "HasDangerousStructureLocked p m \<longleftrightarrow>
     (\<exists>tin \<in> set (set_of p (rw_in m)). \<exists>tout \<in> set (set_of p (rw_out m)).
        tin = tout \<or> (\<exists>f. finish m tout = Some f \<and> (\<forall>g. finish m tin = Some g \<longrightarrow> f < g)))"
  by (cases "map_of (rw_in m) p"; cases "map_of (rw_out m) p")
    (simp_all add: HasDangerousStructureLocked_def set_of_def finish_def list_ex_iff finished_first_iff)

lemma HasDangerous_iff: "graph_ok m \<Longrightarrow> HasDangerousStructureLocked p m \<longleftrightarrow> dangerous (edges m) (finish m) p"
  unfolding HasDangerous_sets dangerous_def graph_ok_def by blast

lemma AddRwEdge_spec:
  assumes g: "graph_ok m" and r: "AddRwEdgeLocked a b t m = (r, m')"
  shows "graph_ok m'" "finish m' = finish m"
    "edges m' = edges m \<union> (if a = INVALID_TXN_ID \<or> b = INVALID_TXN_ID \<or> a = b then {} else {(a, b)})"
    "is_ret r \<longleftrightarrow> edges m' = edges m \<or> (\<not> dangerous (edges m') (finish m') a \<and> \<not> dangerous (edges m') (finish m') b)"
    "serializable_reads m' = serializable_reads m"
proof -
  let ?skip = "a = INVALID_TXN_ID \<or> b = INVALID_TXN_ID \<or> a = b \<or> (a, b) \<in> edges m"
  let ?m = "m\<lparr>rw_edges := (a, b) # rw_edges m, rw_out := set_insert a b (rw_out m), rw_in := set_insert b a (rw_in m)\<rparr>"
  have "b' \<in> set (set_of a' (set_insert a b (rw_out m))) \<longleftrightarrow> (a', b') = (a, b) \<or> b' \<in> set (set_of a' (rw_out m))"
    "a' \<in> set (set_of b' (set_insert b a (rw_in m))) \<longleftrightarrow> (a', b') = (a, b) \<or> a' \<in> set (set_of b' (rw_in m))" for a' b'
    by (auto simp: set_of_simps)
  then have g1: "graph_ok ?m" using g by (simp add: graph_ok_def edges_def)
  have f1: "finish ?m = finish m" "edges ?m = insert (a, b) (edges m)" by (simp_all add: finish_def edges_def)
  have "graph_ok m' \<and> finish m' = finish m \<and> serializable_reads m' = serializable_reads m \<and>
    edges m' = edges m \<union> (if a = INVALID_TXN_ID \<or> b = INVALID_TXN_ID \<or> a = b then {} else {(a, b)}) \<and>
    (is_ret r \<longleftrightarrow> edges m' = edges m \<or> (\<not> dangerous (edges m') (finish m') a \<and> \<not> dangerous (edges m') (finish m') b))"
  proof (cases ?skip)
    case True
    then have "m' = m" "is_ret r" using r by (auto simp: AddRwEdgeLocked_def edges_def split: if_splits)
    then show ?thesis using g True by auto
  next
    case False
    then have m': "m' = ?m" "is_ret r \<longleftrightarrow> \<not> HasDangerousStructureLocked a ?m \<and> \<not> HasDangerousStructureLocked b ?m"
      using r by (auto simp: AddRwEdgeLocked_def edges_def Let_def split: if_splits)
    have "edges m' \<noteq> edges m" using False m'(1) f1(2) by auto
    then show ?thesis using False g1 f1 m' HasDangerous_iff [OF g1] by simp
  qed
  then show "graph_ok m'" "finish m' = finish m" "serializable_reads m' = serializable_reads m"
    "edges m' = edges m \<union> (if a = INVALID_TXN_ID \<or> b = INVALID_TXN_ID \<or> a = b then {} else {(a, b)})"
    "is_ret r \<longleftrightarrow> edges m' = edges m \<or> (\<not> dangerous (edges m') (finish m') a \<and> \<not> dangerous (edges m') (finish m') b)"
    by simp_all
qed

lemma graph_ok_forget: "graph_ok m \<Longrightarrow> graph_ok (forget_txn i m)"
  by (auto simp: graph_ok_def edges_def forget_txn_def set_of_map set_of_simps)

lemma graph_ok_cong:
  "graph_ok m \<Longrightarrow> rw_edges m' = rw_edges m \<Longrightarrow> rw_in m' = rw_in m \<Longrightarrow> rw_out m' = rw_out m \<Longrightarrow> graph_ok m'"
  by (simp add: graph_ok_def edges_def)

section \<open>A write and the reads it affects\<close>

text \<open>The readers that a write of a serializable transaction must be ordered after.\<close>

definition affected_readers ::
  "string \<Rightarrow> Rid \<Rightarrow> bytes option \<Rightarrow> bytes option \<Rightarrow> Transaction \<Rightarrow> TransactionManager \<Rightarrow> txn_id_t set" where
  "affected_readers tab rid old_rec new_rec t m =
     {reader. \<exists>reads. (reader, reads) \<in> set (serializable_reads m) \<and> reader \<noteq> txn_id t \<and> reader \<noteq> INVALID_TXN_ID \<and>
        (\<forall>f. finish m reader = Some f \<longrightarrow> start_ts t < f) \<and>
        (\<exists>read \<in> set reads. read_matches tab (MvccKey tab rid) old_rec new_rec read)}"

lemma mapM_op_edges:
  assumes step: "\<And>x m r m'. x \<in> set xs \<Longrightarrow> P m \<Longrightarrow> f x m = (Ret r, m') \<Longrightarrow> P m' \<and> edges m' = edges m \<union> A x"
    and start: "P m" "mapM_op f xs m = (Ret u, m')"
  shows "P m' \<and> edges m' = edges m \<union> (\<Union>x \<in> set xs. A x)"
  using assms
proof (induction xs arbitrary: m)
  case (Cons x xs)
  then obtain v m1 where 1: "f x m = (Ret v, m1)" "mapM_op f xs m1 = (Ret u, m')" by (auto simp: bind_op_eq_Ret)
  have "P m1 \<and> edges m1 = edges m \<union> A x" using Cons.prems(1) [OF _ Cons.prems(2) 1(1)] by simp
  moreover from this have "P m' \<and> edges m' = edges m1 \<union> (\<Union>x \<in> set xs. A x)" using Cons.IH [OF Cons.prems(1) _ 1(2)] by simp
  ultimately show ?case by auto
qed simp

lemma mapM_op_graph:
  assumes "\<And>x m. x \<in> set xs \<Longrightarrow> graph_ok m \<Longrightarrow> graph_ok (snd (f x m))" "graph_ok m"
  shows "graph_ok (snd (mapM_op f xs m))"
  using assms by (rule mapM_op_invariant)

text \<open>The edges added since a graph \<open>E\<close> leave neither of their ends dangerous.\<close>

definition safe_since :: "(txn_id_t \<times> txn_id_t) set \<Rightarrow> txn_id_t \<Rightarrow> TransactionManager \<Rightarrow> bool" where
  "safe_since E w m \<longleftrightarrow>
     (\<forall>r. (r, w) \<in> edges m - E \<longrightarrow> \<not> dangerous (edges m) (finish m) r \<and> \<not> dangerous (edges m) (finish m) w)"

lemma dangerous_insert: "p \<noteq> a \<Longrightarrow> p \<noteq> w \<Longrightarrow> dangerous (insert (a, w) E) fin p = dangerous E fin p"
  by (auto simp: dangerous_def)

lemma AddRwEdge_safe:
  assumes g: "graph_ok m" and r: "AddRwEdgeLocked a w t m = (Ret u, m')" and s: "safe_since E w m" and w: "w \<noteq> INVALID_TXN_ID"
  shows "safe_since E w m'"
proof (cases "edges m' = edges m")
  case True
  then show ?thesis using s AddRwEdge_spec(2) [OF g r] by (simp add: safe_since_def)
next
  case False
  then have e: "edges m' = insert (a, w) (edges m)" using AddRwEdge_spec(3) [OF g r] by (auto split: if_splits)
  have d: "\<not> dangerous (edges m') (finish m') a" "\<not> dangerous (edges m') (finish m') w"
    using AddRwEdge_spec(4) [OF g r] False by simp_all
  have "\<not> dangerous (edges m') (finish m') x" if "(x, w) \<in> edges m' - E" for x
  proof (cases "x = a \<or> x = w")
    case False
    then have "\<not> dangerous (edges m) (finish m) x" using s that e by (auto simp: safe_since_def)
    then show ?thesis using False AddRwEdge_spec(2) [OF g r] by (simp add: e dangerous_insert)
  qed (use d in auto)
  then show ?thesis using d(2) by (simp add: safe_since_def)
qed

lemma CheckSerializableWrite_edges:
  assumes g: "graph_ok m" and ser: "mvcc_enabled t" "isolation_level t = SERIALIZABLE" "txn_id t \<noteq> INVALID_TXN_ID"
    and r: "CheckSerializableWriteLocked tab rid old_rec new_rec t m = (Ret (), m')"
  shows "edges m' = edges m \<union> (\<lambda>reader. (reader, txn_id t)) ` affected_readers tab rid old_rec new_rec t m"
    "safe_since (edges m) (txn_id t) m'"
proof -
  let ?k = "MvccKey tab rid" and ?m = "RememberSerializableTxnLocked (Some t) m"
  let ?P = "\<lambda>m1. graph_ok m1 \<and> finish m1 = finish m \<and> safe_since (edges m) (txn_id t) m1"
  have m: "rw_edges ?m = rw_edges m" "rw_in ?m = rw_in m" "rw_out ?m = rw_out m" "finish ?m = finish m" "serializable_reads ?m = serializable_reads m"
    by (auto simp: RememberSerializableTxnLocked_def finish_def)
  have P0: "?P ?m" using graph_ok_cong [OF g m(1-3)] m(1,4) by (simp add: safe_since_def edges_def)
  let ?A = "\<lambda>reader read. if read_matches tab ?k old_rec new_rec read \<and> reader \<noteq> INVALID_TXN_ID \<and> reader \<noteq> txn_id t then {(reader, txn_id t)} else {}"
  have one: "?P m2 \<and> edges m2 = edges m1 \<union> ?A reader read"
    if "?P m1" "(if read_matches tab ?k old_rec new_rec read then AddRwEdgeLocked reader (txn_id t) t else ret ()) m1 = (Ret u, m2)"
    for reader read m1 m2 u
    using that AddRwEdge_spec(1-3) [of m1 reader "txn_id t" t "Ret u" m2] AddRwEdge_safe [of m1 reader "txn_id t" t u m2] ser(3)
    by (auto split: if_splits)
  let ?skip = "\<lambda>reader m1. reader = txn_id t \<or> (case map_of (ser_txn_finish_ts m1) reader of None \<Rightarrow> False | Some f \<Rightarrow> f \<le> start_ts t)"
  let ?f = "\<lambda>(reader, reads) m1.
      if reader = txn_id t then (Ret (), m1)
      else if (case map_of (ser_txn_finish_ts m1) reader of None \<Rightarrow> False | Some f \<Rightarrow> f \<le> start_ts t) then (Ret (), m1)
      else mapM_op (\<lambda>read. if read_matches tab ?k old_rec new_rec read then AddRwEdgeLocked reader (txn_id t) t else ret ()) reads m1"
  let ?B = "\<lambda>(reader, reads). if ?skip reader m then {} else \<Union>read \<in> set reads. ?A reader read"
  have all: "?P m2 \<and> edges m2 = edges m1 \<union> ?B x" if "?P m1" "?f x m1 = (Ret u, m2)" for x m1 m2 u
  proof -
    obtain reader reads where x: "x = (reader, reads)" by (cases x)
    have skip: "?skip reader m1 \<longleftrightarrow> ?skip reader m" using that(1) by (simp add: finish_def)
    show ?thesis
    proof (cases "?skip reader m")
      case True
      then show ?thesis using that x skip by (auto split: if_splits)
    next
      case False
      then have mm: "mapM_op (\<lambda>read. if read_matches tab ?k old_rec new_rec read then AddRwEdgeLocked reader (txn_id t) t else ret ()) reads m1 = (Ret u, m2)"
        using that(2) x skip by auto
      have "?P m2 \<and> edges m2 = edges m1 \<union> (\<Union>read \<in> set reads. ?A reader read)"
        by (rule mapM_op_edges [where P = ?P and A = "?A reader", OF _ that(1) mm]) (rule one)
      then show ?thesis using False x by simp
    qed
  qed
  have mm: "mapM_op ?f (serializable_reads ?m) ?m = (Ret (), m')"
    using r ser(1,2) by (simp add: CheckSerializableWriteLocked_def IsMvccTxn_def Let_def)
  have P': "?P m' \<and> edges m' = edges ?m \<union> (\<Union>x \<in> set (serializable_reads ?m). ?B x)"
    by (rule mapM_op_edges [where P = ?P and A = ?B, OF _ P0 mm]) (rule all)
  have "(\<Union>x \<in> set (serializable_reads m). ?B x) = (\<lambda>reader. (reader, txn_id t)) ` affected_readers tab rid old_rec new_rec t m"
    by (force simp: affected_readers_def finish_def split: option.splits if_splits)
  then show "edges m' = edges m \<union> (\<lambda>reader. (reader, txn_id t)) ` affected_readers tab rid old_rec new_rec t m"
    using P' by (simp add: m edges_def)
  show "safe_since (edges m) (txn_id t) m'" using P' by simp
qed

section \<open>The graph in every run\<close>

lemma graph_ok_AddRwEdge: "graph_ok m \<Longrightarrow> graph_ok (snd (AddRwEdgeLocked a b t m))"
  using AddRwEdge_spec(1) by (metis prod.collapse)

lemma graph_ok_Remember: "graph_ok m \<Longrightarrow> graph_ok (RememberSerializableTxnLocked t m)"
  by (erule graph_ok_cong) (simp_all add: RememberSerializableTxnLocked_def split: option.split)

lemma graph_ok_CheckWrite: "graph_ok m \<Longrightarrow> graph_ok (snd (CheckSerializableWriteLocked tab rid old_rec new_rec t m))"
  unfolding CheckSerializableWriteLocked_def Let_def
  by (auto intro!: mapM_op_graph graph_ok_AddRwEdge graph_ok_Remember)

lemma graph_ok_RegisterRead: "graph_ok m \<Longrightarrow> graph_ok (snd (RegisterSerializableRead tab cs conds rids t m))"
proof -
  have bind: "graph_ok (snd (bind_op c (\<lambda>_. modify (\<lambda>m. m\<lparr>serializable_reads := g m\<rparr>)) m1)) = graph_ok (snd (c m1))"
    for c :: "(_, unit) op" and m1 g
    by (cases "c m1"; cases "fst (c m1)") (auto simp: bind_op_def graph_ok_def edges_def)
  assume "graph_ok m"
  then show ?thesis
    unfolding RegisterSerializableRead_def Let_def
    by (auto simp: bind intro!: mapM_op_graph graph_ok_AddRwEdge graph_ok_Remember split: option.split)
qed

lemma graph_ok_Cleanup: "graph_ok m \<Longrightarrow> graph_ok (CleanupSerializableStateLocked m)"
proof -
  have "graph_ok m \<Longrightarrow> graph_ok (fold forget_txn is m)" for "is" m
    by (induction "is" arbitrary: m) (simp_all add: graph_ok_forget)
  then show "graph_ok m \<Longrightarrow> ?thesis" by (simp add: CleanupSerializableStateLocked_def Let_def)
qed

text \<open>Everything else leaves the three containers alone.\<close>

definition graph_of :: "TransactionManager \<Rightarrow> (txn_id_t \<times> txn_id_t) list \<times> (txn_id_t \<times> txn_id_t list) list \<times> (txn_id_t \<times> txn_id_t list) list" where
  "graph_of m = (rw_edges m, rw_in m, rw_out m)"

lemma graph_ok_graph_of: "graph_of m' = graph_of m \<Longrightarrow> graph_ok m' = graph_ok m"
  by (simp add: graph_of_def graph_ok_def edges_def)

lemma graph_of_simps [simp]:
  "graph_of (upd_entry key f m) = graph_of m" "graph_of (EnsureMvccEntryLocked tab rid p m) = graph_of m"
  "graph_of (erase_entry tab key m) = graph_of m" "graph_of (gc_erase key m) = graph_of m"
  "graph_of (restore_entry tab key e m) = graph_of m" "graph_of (end_snapshot t m) = graph_of m"
  "graph_of (snd (start_snapshot t m)) = graph_of m" "graph_of (stamp_key i ts key m) = graph_of m"
  "graph_of (snd (gc_scan m)) = graph_of m" "graph_of (m\<lparr>running_txns := w\<rparr>) = graph_of m"
  by (simp_all add: graph_of_def upd_entry_def EnsureMvccEntryLocked_def erase_entry_def gc_erase_def restore_entry_def
      end_snapshot_def start_snapshot_def stamp_key_def gc_scan_def Let_def split: option.split)

lemma graph_of_PrepareWrite [simp]: "graph_of (snd (snd (PrepareWriteLocked tab rid old_rec ins (t, m)))) = graph_of m"
  by (auto simp: PrepareWriteLocked_def Let_def split: prod.split bool.split)

lemma graph_ok_versioned_write:
  "graph_ok m \<Longrightarrow> (\<And>m. graph_ok m \<Longrightarrow> graph_ok (snd (chk t m))) \<Longrightarrow>
   graph_ok (snd (snd (versioned_write tab rid old_rec ins chk deleted rec (t, m))))"
proof -
  assume g: "graph_ok m" and chk: "\<And>m. graph_ok m \<Longrightarrow> graph_ok (snd (chk t m))"
  obtain r1 m1 where c: "chk t m = (r1, m1)" by (cases "chk t m")
  obtain r2 t2 m2 where p: "PrepareWriteLocked tab rid old_rec ins (t, m1) = (r2, t2, m2)" by (rule prod_cases3)
  have "graph_ok m1" using chk [OF g] c by simp
  moreover have "graph_of m2 = graph_of m1" using graph_of_PrepareWrite [of tab rid old_rec ins t m1] p by simp
  ultimately have "graph_ok m1" "graph_ok m2" "graph_ok (upd_entry (MvccKey tab rid) f m2)" for f
    using graph_ok_graph_of graph_of_simps(1) by blast+
  then show ?thesis
    using c p by (cases r1; cases r2) (simp_all add: versioned_write_def bind_op_def on_tm_def put_head_def)
qed

lemma graph_ok_bind:
  assumes "graph_ok (snd (snd (c (t, m))))" "\<And>t m r t' m'. k (t, m) = (r, t', m') \<Longrightarrow> graph_of m' = graph_of m"
  shows "graph_ok (snd (snd (bind_op c (\<lambda>_ :: unit. k) (t, m))))"
proof -
  obtain r t1 m1 where c: "c (t, m) = (r, t1, m1)" by (rule prod_cases3)
  obtain r2 t2 m2 where k: "k (t1, m1) = (r2, t2, m2)" by (rule prod_cases3)
  show ?thesis using assms(1) c k graph_ok_graph_of [OF assms(2) [OF k]] by (cases r) (simp_all add: bind_op_def)
qed

lemma add_compensation_graph: "add_compensation tab key (t, m) = (r, t', m') \<Longrightarrow> graph_of m' = graph_of m"
  by (auto simp: add_compensation_def graph_of_def)

lemma graph_ok_writes:
  assumes "graph_ok m"
  shows "graph_ok (snd (snd (MvccInsert tab rid rec (t, m))))"
    "graph_ok (snd (snd (MvccUpdate db tab rid old_rec rec (t, m))))"
    "graph_ok (snd (snd (MvccDelete tab rid old_rec (t, m))))"
proof -
  have w: "graph_ok (snd (snd (versioned_write tab rid old_rec ins (CheckSerializableWriteLocked tab rid a b) deleted rec (t, m))))"
    for old_rec ins a b deleted rec
    by (rule graph_ok_versioned_write [OF assms]) (rule graph_ok_CheckWrite)
  show "graph_ok (snd (snd (MvccInsert tab rid rec (t, m))))"
    using w [of rec True None "Some rec" False rec] assms by (simp add: MvccInsert_def MvccInsertLocked_def versioned_write_def)
  let ?k = "\<lambda>s. (case get_table db tab of Inl e \<Rightarrow> throw e
      | Inr meta \<Rightarrow> if index_keys_changed meta old_rec rec then add_compensation tab (MvccKey tab rid) else ret ()) s"
  have k: "?k (t1, m1) = (r, t', m') \<Longrightarrow> graph_of m' = graph_of m1" for t1 m1 r t' m'
    using add_compensation_graph by (auto split: sum.splits if_splits)
  have "MvccUpdate db tab rid old_rec rec (t, m) =
      (if ShouldVersionWrites (Some t) m
       then bind_op (versioned_write tab rid old_rec False (CheckSerializableWriteLocked tab rid (Some old_rec) (Some rec)) False rec) (\<lambda>_. ?k) (t, m)
       else (Ret (), t, m))"
    by (auto simp: MvccUpdate_def versioned_write_def bind_op_def fun_eq_iff split: prod.splits sum.splits)
  then show "graph_ok (snd (snd (MvccUpdate db tab rid old_rec rec (t, m))))"
    using assms graph_ok_bind [where k = ?k and t = t and m = m and
        c = "versioned_write tab rid old_rec False (CheckSerializableWriteLocked tab rid (Some old_rec) (Some rec)) False rec", OF w k] by simp
  have "MvccDelete tab rid old_rec (t, m) =
      (if ShouldVersionWrites (Some t) m
       then bind_op (versioned_write tab rid old_rec False (CheckSerializableWriteLocked tab rid (Some old_rec) None) True old_rec)
              (\<lambda>_. add_compensation tab (MvccKey tab rid)) (t, m)
       else (Ret (), t, m))"
    by (auto simp: MvccDelete_def versioned_write_def bind_op_def fun_eq_iff split: prod.splits sum.splits)
  then show "graph_ok (snd (snd (MvccDelete tab rid old_rec (t, m))))"
    using assms graph_ok_bind [where k = "add_compensation tab (MvccKey tab rid)" and t = t and m = m and
        c = "versioned_write tab rid old_rec False (CheckSerializableWriteLocked tab rid (Some old_rec) None) True old_rec",
        OF w add_compensation_graph] by simp
qed

lemma graph_ok_call:
  assumes "graph_ok (snd (snd (c (t, mv_tm st))))" "\<And>st. mv_tm (row st) = mv_tm st"
  shows "graph_ok (mv_tm (mv_call i c row t st))"
  using assms by (cases "c (t, mv_tm st)"; cases "fst (c (t, mv_tm st))") (auto simp: mv_call_def)

lemma graph_ok_commit: "graph_ok m \<Longrightarrow> graph_ok (snd (commit_mvcc t m))"
proof -
  assume g: "graph_ok m"
  have "graph_of (fold (stamp_key i ts) keys m) = graph_of m" for i ts keys
    by (induction keys arbitrary: m) simp_all
  then have "graph_of (snd (commit_versions t m)) = graph_of m"
    by (simp add: commit_versions_def Let_def) (simp add: graph_of_def)
  then have e: "graph_of (end_snapshot t' ((snd (commit_versions t m))\<lparr>running_txns := w\<rparr>)) = graph_of m" for t' w by simp
  have "graph_ok (end_snapshot t' ((snd (commit_versions t m))\<lparr>running_txns := w\<rparr>))" for t' w
    unfolding graph_ok_graph_of [OF e] by (rule g)
  then show ?thesis using g by (simp add: commit_mvcc_def Let_def case_prod_beta graph_ok_Cleanup)
qed

lemma mv_step_graph:
  assumes g: "graph_ok (mv_tm st)" and step: "mv_step db ev st = Some st'"
  shows "graph_ok (mv_tm st')"
proof (cases ev)
  case (EvBegin i lvl)
  let ?t = "(new_Transaction i lvl)\<lparr>mvcc_enabled := (lvl = SNAPSHOT_ISOLATION \<or> lvl = SERIALIZABLE)\<rparr>"
  have "mv_tm st' = snd (start_snapshot ?t (mv_tm st))" using step EvBegin by (auto split: if_splits prod.splits)
  then show ?thesis using g graph_ok_graph_of [OF graph_of_simps(7)] by simp
next
  case (EvAbort i rows)
  have "graph_of (mv_tm (rollback_row i row s)) = graph_of (mv_tm s)" for row s
    by (auto simp: rollback_row_def put_heap_def Let_def split: prod.split option.split)
  then have "graph_of (mv_tm (fold (rollback_row i) rows s)) = graph_of (mv_tm s)" for s by (induction rows arbitrary: s) simp_all
  then have "graph_ok (mv_tm (fold (rollback_row i) rows st))" using g graph_ok_graph_of by blast
  then have "graph_ok (abort_mvcc t (mv_tm (fold (rollback_row i) rows st)))" for t
    using graph_ok_graph_of [OF graph_of_simps(6)] by (auto simp: abort_mvcc_def ClearTxnStateLocked_def intro!: graph_ok_Cleanup graph_ok_forget)
  then show ?thesis using step EvAbort by (auto simp: with_txn_def Let_def split: option.splits if_splits)
next
  case EvCollect
  have "graph_of (mv_tm (collect_key key s)) = graph_of (mv_tm s)" for key s
    by (auto simp: collect_key_def put_heap_def Let_def split: option.split)
  then have "graph_of (mv_tm (fold collect_key keys s)) = graph_of (mv_tm s)" for keys s by (induction keys arbitrary: s) simp_all
  then have "graph_of (mv_tm (fold collect_key keys (st\<lparr>mv_tm := snd (gc_scan (mv_tm st))\<rparr>))) = graph_of (mv_tm st)" for keys
    by simp
  then have "graph_ok (mv_tm (fold collect_key keys (st\<lparr>mv_tm := snd (gc_scan (mv_tm st))\<rparr>)))" for keys
    using g graph_ok_graph_of by blast
  then show ?thesis using step EvCollect by (auto simp: mv_collect_def Let_def case_prod_beta intro!: graph_ok_Cleanup)
qed (use step g in \<open>auto simp: with_txn_def put_heap_def intro!: graph_ok_call graph_ok_writes graph_ok_commit graph_ok_RegisterRead
    split: option.splits if_splits\<close>)

lemma mv_run_graph: "graph_ok (mv_tm st) \<Longrightarrow> mv_run db evs st = Some st' \<Longrightarrow> graph_ok (mv_tm st')"
  by (induction evs arbitrary: st) (auto dest: mv_step_graph split: option.splits)

lemma start_graph: "graph_ok (mv_tm (start_state h))"
  by (simp add: graph_ok_def edges_def start_state_def new_TransactionManager_def set_of_def)

section \<open>Properties\<close>


definition sample_reads :: "mv_event list" where
  "sample_reads = [EvBegin 1 SERIALIZABLE, EvBegin 2 SERIALIZABLE, EvRead 1 ''x'' [] [] [Rid 1 0]]"

lemma sample_reads_evaluated:
  "case mv_run sample_meta sample_reads (start_state sample_heap) of None \<Rightarrow> False | Some st \<Rightarrow>
   case mv_running st 2 of None \<Rightarrow> False | Some t \<Rightarrow>
   case CheckSerializableWriteLocked ''x'' (Rid 1 0) (Some [7]) (Some [8]) t (mv_tm st) of
     (Inl _, _) \<Rightarrow> False
   | (Inr _, m) \<Rightarrow> mvcc_enabled t \<and> isolation_level t = SERIALIZABLE \<and> rw_edges (mv_tm st) = [] \<and> rw_edges m = [(1, 2)]"
  by code_simp


section \<open>Anomalies\<close>

text \<open>
  Three serializable transactions, each of which reads the row that the next one writes, all commit: their dependencies form the
  cycle 1, 2, 3, 1. While all three run, no structure is dangerous, because none has committed;
  and \<^verbatim>\<open>commit\<close> does not look at the graph.
\<close>

definition cycle_run :: "mv_event list" where
  "cycle_run =
     [EvBegin 1 SERIALIZABLE, EvBegin 2 SERIALIZABLE, EvBegin 3 SERIALIZABLE,
      EvRead 1 ''x'' [] [] [Rid 1 0], EvRead 2 ''y'' [] [] [Rid 1 0], EvRead 3 ''z'' [] [] [Rid 1 0],
      EvUpdate 2 ''x'' (Rid 1 0) [2], EvUpdate 3 ''y'' (Rid 1 0) [3], EvUpdate 1 ''z'' (Rid 1 0) [1]]"

lemma cycle_commits:
  "case mv_run sample_meta cycle_run (start_state sample_heap) of None \<Rightarrow> False | Some st \<Rightarrow>
     list_all (\<lambda>e. e \<in> set (rw_edges (mv_tm st))) [(1, 2), (2, 3), (3, 1)] \<and>
     (case mv_run sample_meta [EvCommit 1, EvCommit 2, EvCommit 3] st of None \<Rightarrow> False | Some st' \<Rightarrow>
        mv_view st' 3 ''x'' (Rid 1 0) = Some [2] \<and> mv_view st' 3 ''y'' (Rid 1 0) = Some [3] \<and>
        mv_view st' 3 ''z'' (Rid 1 0) = Some [1])"
  by code_simp

text \<open>
  A transaction without a snapshot may write a row that a snapshot transaction is writing: \<^verbatim>\<open>PrepareWriteLocked\<close> tests for
  a conflict only on behalf of snapshot transactions, and those take no record locks. The write of the
  snapshot transaction is then lost although its commit succeeds: at its commit timestamp the row still has its
  old content.
\<close>

lemma overwritten_snapshot_write_lost:
  "case mv_run sample_meta [EvBegin 1 SNAPSHOT_ISOLATION, EvBegin 2 READ_COMMITTED, EvUpdate 1 ''x'' (Rid 1 0) [8]]
      (start_state sample_heap) of None \<Rightarrow> False | Some st \<Rightarrow>
   case mv_running st 2 of None \<Rightarrow> False | Some t \<Rightarrow>
     mv_see t ''x'' (Rid 1 0) st = Some [7] \<and>
     (let st' = mv_call 2 (MvccUpdate sample_meta ''x'' (Rid 1 0) [7] [9]) (put_heap ''x'' (Rid 1 0) (Some [9])) t st in
      case mv_run sample_meta [EvCommit 1, EvCommit 2] st' of None \<Rightarrow> False | Some st2 \<Rightarrow>
        last_commit_ts (mv_tm st2) = 2 \<and> mv_view st2 1 ''x'' (Rid 1 0) = Some [7] \<and> mv_view st2 2 ''x'' (Rid 1 0) = Some [9])"
  by code_simp

end
