(* ===== verification/Lock_Manager.thy ===== *)
theory Lock_Manager
  imports Txn_Defs
begin

text \<open>
  The no-wait two-phase lock manager, \<^verbatim>\<open>src/src/transaction/concurrency/lock_manager.{h,cpp}\<close>.

  A call runs under the latch of the shard of its lock identifier and is one step of the model. The
  queue of a data item is an entry of its shard's table; \<^verbatim>\<open>lock_table_[lid]\<close> creates an empty queue when there
  is none. The transaction object a call works on is passed and returned. The section on modes shows that
  merging is the least upper bound of the lock strengths; the refinement section that the queues
  implement a table of held locks, one mode per transaction and data item.
\<close>

section \<open>State\<close>

datatype LockMode = SHARED | EXLUCSIVE | INTENTION_SHARED | INTENTION_EXCLUSIVE | S_IX

datatype GroupLockMode = NON_LOCK | IS | IX | S | X | SIX

record LockRequest =
  req_txn_id :: txn_id_t
  lock_mode :: LockMode
  granted :: bool

record LockRequestQueue =
  request_queue :: "LockRequest list"
  group_lock_mode :: GroupLockMode

definition new_LockRequest :: "txn_id_t \<Rightarrow> LockMode \<Rightarrow> LockRequest" where
  "new_LockRequest i m = \<lparr>req_txn_id = i, lock_mode = m, granted = False\<rparr>"

definition empty_queue :: LockRequestQueue where
  "empty_queue = \<lparr>request_queue = [], group_lock_mode = NON_LOCK\<rparr>"

definition LOCK_TABLE_SHARD_COUNT :: nat where "LOCK_TABLE_SHARD_COUNT = 64"

record LockManager =
  lock_table_shards :: "(LockDataId \<Rightarrow> LockRequestQueue option) list"

definition new_LockManager :: LockManager where
  "new_LockManager = \<lparr>lock_table_shards = replicate LOCK_TABLE_SHARD_COUNT Map.empty\<rparr>"

definition lock_shard :: "LockDataId \<Rightarrow> nat" where
  "lock_shard l = hash_LockDataId l mod LOCK_TABLE_SHARD_COUNT"

definition find_queue :: "LockDataId \<Rightarrow> LockManager \<Rightarrow> LockRequestQueue option" where
  "find_queue l lm = (lock_table_shards lm ! lock_shard l) l"

definition put_queue :: "LockDataId \<Rightarrow> LockRequestQueue option \<Rightarrow> LockManager \<Rightarrow> LockManager" where
  "put_queue l q lm =
     lm\<lparr>lock_table_shards := (lock_table_shards lm)[lock_shard l := (lock_table_shards lm ! lock_shard l)(l := q)]\<rparr>"

section \<open>Operations\<close>

definition compatible :: "LockMode \<Rightarrow> LockMode \<Rightarrow> bool" where
  "compatible lhs rhs =
     (if lhs = EXLUCSIVE \<or> rhs = EXLUCSIVE then False
      else if lhs = S_IX then rhs = INTENTION_SHARED
      else if rhs = S_IX then lhs = INTENTION_SHARED
      else if lhs = SHARED then rhs = SHARED \<or> rhs = INTENTION_SHARED
      else if rhs = SHARED then lhs = SHARED \<or> lhs = INTENTION_SHARED
      else True)"

definition merge_lock :: "LockMode \<Rightarrow> LockMode \<Rightarrow> LockMode" where
  "merge_lock cur req =
     (if cur = req then cur
      else if cur = EXLUCSIVE \<or> req = EXLUCSIVE then EXLUCSIVE
      else if cur = S_IX \<or> req = S_IX then S_IX
      else if (cur = SHARED \<and> req = INTENTION_EXCLUSIVE) \<or> (cur = INTENTION_EXCLUSIVE \<and> req = SHARED) then S_IX
      else if cur = INTENTION_EXCLUSIVE \<or> req = INTENTION_EXCLUSIVE then INTENTION_EXCLUSIVE
      else if cur = SHARED \<or> req = SHARED then SHARED
      else INTENTION_SHARED)"

definition covers :: "LockMode \<Rightarrow> LockMode \<Rightarrow> bool" where
  "covers held req \<longleftrightarrow> merge_lock held req = held"

fun group_from_lock :: "LockMode \<Rightarrow> GroupLockMode" where
  "group_from_lock INTENTION_SHARED = IS"
| "group_from_lock INTENTION_EXCLUSIVE = IX"
| "group_from_lock SHARED = S"
| "group_from_lock S_IX = SIX"
| "group_from_lock EXLUCSIVE = X"

definition has_mode :: "LockRequest list \<Rightarrow> LockMode \<Rightarrow> bool" where
  "has_mode rs m \<longleftrightarrow> list_ex (\<lambda>r. granted r \<and> lock_mode r = m) rs"

definition recompute_group :: "LockRequestQueue \<Rightarrow> LockRequestQueue" where
  "recompute_group q =
     (let rs = request_queue q in
      q\<lparr>group_lock_mode :=
          (if has_mode rs EXLUCSIVE then X
           else if has_mode rs S_IX \<or> (has_mode rs SHARED \<and> has_mode rs INTENTION_EXCLUSIVE) then SIX
           else if has_mode rs SHARED then S
           else if has_mode rs INTENTION_EXCLUSIVE then IX
           else if has_mode rs INTENTION_SHARED then IS
           else NON_LOCK)\<rparr>)"

text \<open>\<^verbatim>\<open>txn->get_lock_set()->insert(lid)\<close> and \<^verbatim>\<open>erase\<close>.\<close>

definition lock_set_insert :: "LockDataId \<Rightarrow> Transaction \<Rightarrow> Transaction" where
  "lock_set_insert l t = (if l \<in> set (lock_set t) then t else t\<lparr>lock_set := lock_set t @ [l]\<rparr>)"

definition lock_set_erase :: "LockDataId \<Rightarrow> Transaction \<Rightarrow> Transaction" where
  "lock_set_erase l t = t\<lparr>lock_set := filter (\<lambda>x. x \<noteq> l) (lock_set t)\<rparr>"

text \<open>The request of the transaction in the queue that the loops look for: the first granted one.\<close>

definition is_own :: "txn_id_t \<Rightarrow> LockRequest \<Rightarrow> bool" where
  "is_own i r \<longleftrightarrow> req_txn_id r = i \<and> granted r"

fun set_own_mode :: "txn_id_t \<Rightarrow> LockMode \<Rightarrow> LockRequest list \<Rightarrow> LockRequest list" where
  "set_own_mode i m [] = []"
| "set_own_mode i m (r # rs) = (if is_own i r then r\<lparr>lock_mode := m\<rparr> # rs else r # set_own_mode i m rs)"

fun erase_own :: "txn_id_t \<Rightarrow> LockRequest list \<Rightarrow> LockRequest list" where
  "erase_own i [] = []"
| "erase_own i (r # rs) = (if is_own i r then rs else r # erase_own i rs)"

definition lock :: "Transaction \<Rightarrow> LockDataId \<Rightarrow> LockMode \<Rightarrow> LockManager \<Rightarrow> bool result \<times> Transaction \<times> LockManager" where
  "lock txn lid mode lm =
     (if txn_state txn = SHRINKING
      then (Throw (TransactionAbortException (txn_id txn) LOCK_ON_SHIRINKING), txn, lm)
      else
        let queue = (case find_queue lid lm of None \<Rightarrow> empty_queue | Some q \<Rightarrow> q);
            lm = put_queue lid (Some queue) lm;
            request = (new_LockRequest (txn_id txn) mode)\<lparr>granted := True\<rparr>
        in
        if request_queue queue = []
        then (Ret True, lock_set_insert lid txn,
              put_queue lid (Some (queue\<lparr>request_queue := [request], group_lock_mode := group_from_lock mode\<rparr>)) lm)
        else
          let own_request = find (is_own (txn_id txn)) (request_queue queue);
              requested_mode = (case own_request of None \<Rightarrow> mode | Some r \<Rightarrow> merge_lock (lock_mode r) mode)
          in
          if (case own_request of None \<Rightarrow> False | Some r \<Rightarrow> covers (lock_mode r) mode)
          then (Ret True, txn, lm)
          else if list_ex (\<lambda>r. granted r \<and> req_txn_id r \<noteq> txn_id txn \<and> \<not> compatible requested_mode (lock_mode r))
                    (request_queue queue)
          then (Throw (TransactionAbortException (txn_id txn) DEADLOCK_PREVENTION), txn, lm)
          else if own_request \<noteq> None
          then (Ret True, txn,
                put_queue lid
                  (Some (recompute_group
                    (queue\<lparr>request_queue := set_own_mode (txn_id txn) requested_mode (request_queue queue)\<rparr>))) lm)
          else (Ret True, lock_set_insert lid txn,
                put_queue lid
                  (Some (recompute_group
                    (queue\<lparr>request_queue :=
                       request_queue queue @ [(new_LockRequest (txn_id txn) requested_mode)\<lparr>granted := True\<rparr>]\<rparr>))) lm))"

definition lock_shared_on_record :: "Transaction \<Rightarrow> Rid \<Rightarrow> int \<Rightarrow> LockManager \<Rightarrow> bool result \<times> Transaction \<times> LockManager" where
  "lock_shared_on_record txn rid tab_fd = lock txn (LockDataId_record tab_fd rid) SHARED"

definition lock_exclusive_on_record :: "Transaction \<Rightarrow> Rid \<Rightarrow> int \<Rightarrow> LockManager \<Rightarrow> bool result \<times> Transaction \<times> LockManager" where
  "lock_exclusive_on_record txn rid tab_fd = lock txn (LockDataId_record tab_fd rid) EXLUCSIVE"

definition lock_shared_on_table :: "Transaction \<Rightarrow> int \<Rightarrow> LockManager \<Rightarrow> bool result \<times> Transaction \<times> LockManager" where
  "lock_shared_on_table txn tab_fd = lock txn (LockDataId_table tab_fd) SHARED"

definition lock_exclusive_on_table :: "Transaction \<Rightarrow> int \<Rightarrow> LockManager \<Rightarrow> bool result \<times> Transaction \<times> LockManager" where
  "lock_exclusive_on_table txn tab_fd = lock txn (LockDataId_table tab_fd) EXLUCSIVE"

definition lock_IS_on_table :: "Transaction \<Rightarrow> int \<Rightarrow> LockManager \<Rightarrow> bool result \<times> Transaction \<times> LockManager" where
  "lock_IS_on_table txn tab_fd = lock txn (LockDataId_table tab_fd) INTENTION_SHARED"

definition lock_IX_on_table :: "Transaction \<Rightarrow> int \<Rightarrow> LockManager \<Rightarrow> bool result \<times> Transaction \<times> LockManager" where
  "lock_IX_on_table txn tab_fd = lock txn (LockDataId_table tab_fd) INTENTION_EXCLUSIVE"

definition start_shrinking :: "Transaction \<Rightarrow> Transaction" where
  "start_shrinking t = (if txn_state t = GROWING \<or> txn_state t = DEFAULT then t\<lparr>txn_state := SHRINKING\<rparr> else t)"

definition unlock :: "Transaction \<Rightarrow> LockDataId \<Rightarrow> LockManager \<Rightarrow> bool \<times> Transaction \<times> LockManager" where
  "unlock txn lid lm =
     (case find_queue lid lm of
        None \<Rightarrow> (False, txn, lm)
      | Some queue \<Rightarrow>
          if length (request_queue queue) = 1 \<and> is_own (txn_id txn) (hd (request_queue queue))
          then (True, start_shrinking (lock_set_erase lid txn), put_queue lid None lm)
          else
            let queue =
                  (if list_ex (is_own (txn_id txn)) (request_queue queue)
                   then recompute_group (queue\<lparr>request_queue := erase_own (txn_id txn) (request_queue queue)\<rparr>)
                   else queue)
            in (True, start_shrinking (lock_set_erase lid txn),
                put_queue lid (if request_queue queue = [] then None else Some queue) lm))"

section \<open>Lock modes\<close>

text \<open>
  The contract of a set of lock modes: merging two modes gives the weakest mode that covers both, and
  whatever is compatible with the merged mode is exactly what is compatible with both.
\<close>

locale lock_modes =
  fixes merge :: "'m \<Rightarrow> 'm \<Rightarrow> 'm" and compat :: "'m \<Rightarrow> 'm \<Rightarrow> bool"
  assumes merge_idem: "merge a a = a"
    and merge_comm: "merge a b = merge b a"
    and merge_assoc: "merge (merge a b) c = merge a (merge b c)"
    and compat_sym: "compat a b = compat b a"
    and compat_merge: "compat (merge a b) c \<longleftrightarrow> compat a c \<and> compat b c"
begin

lemma merge_upper: "merge (merge a b) a = merge a b" "merge (merge a b) b = merge a b"
  by (metis merge_assoc merge_comm merge_idem)+

lemma merge_least: "merge c a = c \<Longrightarrow> merge c b = c \<Longrightarrow> merge c (merge a b) = c"
  by (metis merge_assoc)

lemma compat_covered: "merge a b = a \<Longrightarrow> compat a c \<Longrightarrow> compat b c"
  by (metis compat_merge)

lemma compat_fold: "compat (foldr merge ms m) c \<longleftrightarrow> compat m c \<and> (\<forall>a \<in> set ms. compat a c)"
  by (induction ms) (auto simp: compat_merge)

end

interpretation modes: lock_modes merge_lock compatible
proof
  fix a b c :: LockMode
  show "merge_lock a a = a" by (simp add: merge_lock_def)
  show "merge_lock a b = merge_lock b a" by (cases a; cases b) (simp_all add: merge_lock_def)
  show "merge_lock (merge_lock a b) c = merge_lock a (merge_lock b c)"
    by (cases a; cases b; cases c) (simp_all add: merge_lock_def)
  show "compatible a b = compatible b a" by (cases a; cases b) (simp_all add: compatible_def)
  show "compatible (merge_lock a b) c \<longleftrightarrow> compatible a c \<and> compatible b c"
    by (cases a; cases b; cases c) (simp_all add: merge_lock_def compatible_def)
qed

section \<open>The table of held locks\<close>

type_synonym lock_system = "(txn_id_t \<Rightarrow> Transaction) \<times> LockManager"
type_synonym held_locks = "LockDataId \<Rightarrow> txn_id_t \<Rightarrow> LockMode option"

definition held_in :: "LockRequest list \<Rightarrow> txn_id_t \<Rightarrow> LockMode option" where
  "held_in rs = map_of (map (\<lambda>r. (req_txn_id r, lock_mode r)) rs)"

definition held :: "LockManager \<Rightarrow> held_locks" where
  "held lm lid = (case find_queue lid lm of None \<Rightarrow> Map.empty | Some q \<Rightarrow> held_in (request_queue q))"

definition spec_lock :: "txn_id_t \<Rightarrow> LockDataId \<Rightarrow> LockMode \<Rightarrow> held_locks \<Rightarrow> held_locks option" where
  "spec_lock i lid mode h =
     (let m = (case h lid i of None \<Rightarrow> mode | Some c \<Rightarrow> merge_lock c mode) in
      if \<forall>j c. j \<noteq> i \<longrightarrow> h lid j = Some c \<longrightarrow> compatible m c
      then Some (h(lid := (h lid)(i \<mapsto> m))) else None)"

definition spec_unlock :: "txn_id_t \<Rightarrow> LockDataId \<Rightarrow> held_locks \<Rightarrow> held_locks" where
  "spec_unlock i lid h = h(lid := (h lid)(i := None))"

definition queue_ok :: "LockRequestQueue \<Rightarrow> bool" where
  "queue_ok q \<longleftrightarrow>
     request_queue q \<noteq> [] \<and> (\<forall>r \<in> set (request_queue q). granted r) \<and>
     distinct (map req_txn_id (request_queue q)) \<and>
     (\<forall>r \<in> set (request_queue q). \<forall>r' \<in> set (request_queue q).
        req_txn_id r \<noteq> req_txn_id r' \<longrightarrow> compatible (lock_mode r) (lock_mode r')) \<and>
     recompute_group q = q"

definition lock_ok :: "lock_system \<Rightarrow> bool" where
  "lock_ok s \<longleftrightarrow>
     length (lock_table_shards (snd s)) = LOCK_TABLE_SHARD_COUNT \<and>
     (\<forall>lid q. find_queue lid (snd s) = Some q \<longrightarrow> queue_ok q) \<and>
     (\<forall>i. txn_id (fst s i) = i) \<and>
     (\<forall>i lid. lid \<in> set (lock_set (fst s i)) \<longleftrightarrow> held (snd s) lid i \<noteq> None)"

datatype lock_op = Lock txn_id_t LockDataId LockMode | Unlock txn_id_t LockDataId

fun lock_step :: "lock_op \<Rightarrow> lock_system \<Rightarrow> bool result \<times> lock_system" where
  "lock_step (Lock i lid m) (T, lm) = (case lock (T i) lid m lm of (r, t, lm') \<Rightarrow> (r, T(i := t), lm'))"
| "lock_step (Unlock i lid) (T, lm) = (case unlock (T i) lid lm of (r, t, lm') \<Rightarrow> (Ret r, T(i := t), lm'))"

fun lock_steps :: "lock_op list \<Rightarrow> lock_system \<Rightarrow> lock_system" where
  "lock_steps [] s = s"
| "lock_steps (a # as) s = lock_steps as (snd (lock_step a s))"

subsection \<open>Queues\<close>

lemma find_put_queue [simp]:
  assumes "length (lock_table_shards lm) = LOCK_TABLE_SHARD_COUNT"
  shows "find_queue l' (put_queue l q lm) = (if l' = l then q else find_queue l' lm)"
proof -
  have "lock_shard x < length (lock_table_shards lm)" for x
    using assms by (simp add: lock_shard_def LOCK_TABLE_SHARD_COUNT_def)
  then show ?thesis by (auto simp: find_queue_def put_queue_def nth_list_update)
qed

lemma length_put_queue [simp]: "length (lock_table_shards (put_queue l q lm)) = length (lock_table_shards lm)"
  by (simp add: put_queue_def)

lemma held_put_queue:
  "length (lock_table_shards lm) = LOCK_TABLE_SHARD_COUNT \<Longrightarrow>
   held (put_queue l q lm) = (held lm)(l := (case q of None \<Rightarrow> Map.empty | Some q \<Rightarrow> held_in (request_queue q)))"
  by (simp add: held_def fun_eq_iff)

lemma held_in_Some:
  "distinct (map req_txn_id rs) \<Longrightarrow> held_in rs i = Some m \<longleftrightarrow> (\<exists>r \<in> set rs. req_txn_id r = i \<and> lock_mode r = m)"
  by (induction rs) (auto simp: held_in_def image_iff)

lemma held_in_None: "held_in rs i = None \<longleftrightarrow> i \<notin> req_txn_id ` set rs"
  by (auto simp: held_in_def map_of_eq_None_iff image_iff)

lemma held_in_append: "held_in (rs @ [r]) i =
   (case held_in rs i of None \<Rightarrow> if i = req_txn_id r then Some (lock_mode r) else None | Some m \<Rightarrow> Some m)"
  by (simp add: held_in_def map_add_def split: option.splits)

lemma find_own:
  assumes "\<forall>r \<in> set rs. granted r"
  shows "find (is_own i) rs = None \<longleftrightarrow> held_in rs i = None"
    "find (is_own i) rs = Some r \<Longrightarrow> held_in rs i = Some (lock_mode r) \<and> r \<in> set rs \<and> req_txn_id r = i"
  using assms by (induction rs) (auto simp: held_in_def is_own_def)

lemma set_own_mode_props:
  assumes "\<forall>r \<in> set rs. granted r" "distinct (map req_txn_id rs)"
  shows "map req_txn_id (set_own_mode i m rs) = map req_txn_id rs" "\<forall>r \<in> set (set_own_mode i m rs). granted r"
    "held_in (set_own_mode i m rs) = (if held_in rs i = None then held_in rs else (held_in rs)(i \<mapsto> m))"
    "set_own_mode i m rs = [] \<longleftrightarrow> rs = []"
  using assms
  by (induction rs) (auto simp: held_in_def is_own_def map_of_eq_None_iff image_iff fun_eq_iff dest: map_of_SomeD)

lemma erase_own_props:
  assumes "\<forall>r \<in> set rs. granted r" "distinct (map req_txn_id rs)"
  shows "set (erase_own i rs) = {r \<in> set rs. req_txn_id r \<noteq> i}" "distinct (map req_txn_id (erase_own i rs))"
    "held_in (erase_own i rs) = (held_in rs)(i := None)"
  using assms by (induction rs) (auto simp: held_in_def is_own_def map_of_eq_None_iff image_iff fun_eq_iff)

lemma erase_own_idle: "i \<notin> req_txn_id ` set rs \<Longrightarrow> erase_own i rs = rs"
  by (induction rs) (auto simp: is_own_def)

lemma recompute_group_fields [simp]: "request_queue (recompute_group q) = request_queue q"
  "recompute_group (recompute_group q) = recompute_group q"
  by (simp_all add: recompute_group_def Let_def)

text \<open>A queue is well formed when its held modes are pairwise compatible.\<close>

lemma queue_ok_held:
  assumes "request_queue q \<noteq> []" "\<forall>r \<in> set (request_queue q). granted r" "distinct (map req_txn_id (request_queue q))"
    "recompute_group q = q"
  shows "queue_ok q \<longleftrightarrow> (\<forall>i j a b. i \<noteq> j \<longrightarrow> held_in (request_queue q) i = Some a \<longrightarrow>
     held_in (request_queue q) j = Some b \<longrightarrow> compatible a b)"
  using assms(1,2,4) unfolding queue_ok_def held_in_Some [OF assms(3)] using assms(3) by blast

subsection \<open>Refinement\<close>

lemma queue_held_compatible:
  assumes "queue_ok q" "held_in (request_queue q) i = Some a" "held_in (request_queue q) j = Some b" "i \<noteq> j"
  shows "compatible a b"
  using assms held_in_Some [of "request_queue q"] unfolding queue_ok_def by metis

lemma lock_okD:
  assumes "lock_ok (T, lm)"
  shows "length (lock_table_shards lm) = LOCK_TABLE_SHARD_COUNT" "find_queue lid lm = Some q \<Longrightarrow> queue_ok q"
    "txn_id (T i) = i" "lid \<in> set (lock_set (T i)) \<longleftrightarrow> held lm lid i \<noteq> None"
  using assms by (auto simp: lock_ok_def)

text \<open>Writing a well-formed queue back, with the lock set of the transaction following it.\<close>

lemma lock_ok_put:
  assumes ok: "lock_ok (T, lm)" and q: "\<forall>x. q = Some x \<longrightarrow> queue_ok x"
    and h: "h = (case q of None \<Rightarrow> Map.empty | Some x \<Rightarrow> held_in (request_queue x))"
    and others: "\<And>j. j \<noteq> i \<Longrightarrow> h j = None \<longleftrightarrow> held lm lid j = None"
    and t: "txn_id t = i" "set (lock_set t) = (if h i = None then set (lock_set (T i)) - {lid} else insert lid (set (lock_set (T i))))"
  shows "lock_ok (T(i := t), put_queue lid q lm)"
proof -
  note D = lock_okD [OF ok]
  have "x \<in> set (lock_set ((T(i := t)) j)) \<longleftrightarrow> held (put_queue lid q lm) x j \<noteq> None" for x j
    using D(4) [of x j] D(4) [of x i] others [of j] t(2) by (auto simp: held_put_queue [OF D(1)] h [symmetric])
  then show ?thesis using D(1-3) q t(1) by (auto simp: lock_ok_def)
qed

lemma set_lock_set [simp]:
  "set (lock_set (lock_set_insert l t)) = insert l (set (lock_set t))" "txn_id (lock_set_insert l t) = txn_id t"
  "set (lock_set (lock_set_erase l t)) = set (lock_set t) - {l}" "txn_id (lock_set_erase l t) = txn_id t"
  "lock_set (start_shrinking t) = lock_set t" "txn_id (start_shrinking t) = txn_id t"
  by (auto simp: lock_set_insert_def lock_set_erase_def start_shrinking_def)

lemma put_queue_same [simp]: "put_queue l (find_queue l lm) lm = lm" "put_queue l q (put_queue l q' lm) = put_queue l q lm"
proof -
  show "put_queue l (find_queue l lm) lm = lm" by (simp add: put_queue_def find_queue_def)
  show "put_queue l q (put_queue l q' lm) = put_queue l q lm"
    by (cases "lock_shard l < length (lock_table_shards lm)") (simp_all add: put_queue_def list_update_beyond)
qed

text \<open>What a call of \<open>lock\<close> outside the shrinking phase does, against the table of held locks.\<close>

definition lock_spec :: "lock_system \<Rightarrow> txn_id_t \<Rightarrow> LockDataId \<Rightarrow> LockMode \<Rightarrow> bool result \<times> Transaction \<times> LockManager \<Rightarrow> bool" where
  "lock_spec s i lid m res \<longleftrightarrow>
     (case res of (r, t, lm') \<Rightarrow>
        lock_ok ((fst s)(i := t), lm') \<and> txn_state t = txn_state (fst s i) \<and>
        (case spec_lock i lid m (held (snd s)) of
           Some h \<Rightarrow> r = Ret True \<and> held lm' = h
         | None \<Rightarrow> r = Throw (TransactionAbortException i DEADLOCK_PREVENTION) \<and> held lm' = held (snd s)))"

lemma lock_set_insert_state [simp]: "txn_state (lock_set_insert l t) = txn_state t"
  "txn_state (lock_set_erase l t) = txn_state t"
  by (simp_all add: lock_set_insert_def lock_set_erase_def)

lemma lock_first:
  assumes ok: "lock_ok (T, lm)" and st: "txn_state (T i) \<noteq> SHRINKING" and q: "find_queue lid lm = None"
  shows "lock_spec (T, lm) i lid m (lock (T i) lid m lm)"
proof -
  note D = lock_okD [OF ok]
  let ?q = "\<lparr>request_queue = [\<lparr>req_txn_id = i, lock_mode = m, granted = True\<rparr>], group_lock_mode = group_from_lock m\<rparr>"
  have l: "lock (T i) lid m lm = (Ret True, lock_set_insert lid (T i), put_queue lid (Some ?q) lm)"
    using st q D(3) by (simp add: lock_def empty_queue_def new_LockRequest_def)
  have h: "held lm lid = Map.empty" using q by (simp add: held_def)
  have hq: "held_in (request_queue ?q) = [i \<mapsto> m]" by (simp add: held_in_def)
  have g: "recompute_group ?q = ?q" by (cases m) (simp_all add: recompute_group_def has_mode_def)
  have "queue_ok ?q" using g by (simp add: queue_ok_def)
  moreover have "T i = (T i)\<lparr>txn_id := i\<rparr>" using D(3) by simp
  ultimately have "lock_ok (T(i := lock_set_insert lid (T i)), put_queue lid (Some ?q) lm)"
    by (intro lock_ok_put [OF ok _ refl]) (use hq h D(3) in auto)
  moreover have "spec_lock i lid m (held lm) = Some ((held lm)(lid := [i \<mapsto> m]))" using h by (simp add: spec_lock_def)
  ultimately show ?thesis
    using hq by (simp add: l lock_spec_def held_put_queue [OF D(1)])
qed

lemma compat_all_iff:
  assumes "queue_ok q" and "held lm lid = held_in (request_queue q)"
  shows "list_ex (\<lambda>r. granted r \<and> req_txn_id r \<noteq> i \<and> \<not> compatible m (lock_mode r)) (request_queue q) \<longleftrightarrow>
    \<not> (\<forall>j c. j \<noteq> i \<longrightarrow> held lm lid j = Some c \<longrightarrow> compatible m c)"
  using assms unfolding queue_ok_def list_ex_iff by (auto simp: held_in_Some)

text \<open>Granting and denying a request on an item that has a queue.\<close>

lemma lock_grant:
  assumes ok: "lock_ok (T, lm)" and q: "find_queue lid lm = Some q"
    and m': "m' = (case held lm lid i of None \<Rightarrow> m | Some c \<Rightarrow> merge_lock c m)"
    and c: "\<forall>j c. j \<noteq> i \<longrightarrow> held lm lid j = Some c \<longrightarrow> compatible m' c"
    and q': "request_queue q' \<noteq> []" "\<forall>r \<in> set (request_queue q'). granted r" "distinct (map req_txn_id (request_queue q'))"
    and h': "held_in (request_queue q') = (held lm lid)(i \<mapsto> m')"
    and t: "txn_id t = i" "txn_state t = txn_state (T i)" "set (lock_set t) = insert lid (set (lock_set (T i)))"
  shows "lock_spec (T, lm) i lid m (Ret True, t, put_queue lid (Some (recompute_group q')) lm)"
proof -
  note D = lock_okD [OF ok]
  have h: "held lm lid = held_in (request_queue q)" using q by (simp add: held_def)
  have "compatible a b" if "held_in (request_queue q') j = Some a" "held_in (request_queue q') k = Some b" "j \<noteq> k" for j k a b
    using that c [rule_format, of k b] c [rule_format, of j a] queue_held_compatible [OF D(2) [OF q], of j a k b]
      modes.compat_sym [of a b] by (auto simp: h' h split: if_splits)
  then have "queue_ok (recompute_group q')" by (subst queue_ok_held) (use q' in auto)
  then have "lock_ok (T(i := t), put_queue lid (Some (recompute_group q')) lm)"
    by (intro lock_ok_put [OF ok _ refl]) (use h' t in auto)
  moreover have "spec_lock i lid m (held lm) = Some ((held lm)(lid := (held lm lid)(i \<mapsto> m')))"
    using c unfolding m' by (simp add: spec_lock_def)
  ultimately show ?thesis using h' t(2) by (simp add: lock_spec_def held_put_queue [OF D(1)])
qed

lemma lock_deny:
  assumes ok: "lock_ok (T, lm)"
    and "\<not> (\<forall>j c. j \<noteq> i \<longrightarrow> held lm lid j = Some c \<longrightarrow> compatible (case held lm lid i of None \<Rightarrow> m | Some c \<Rightarrow> merge_lock c m) c)"
  shows "lock_spec (T, lm) i lid m (Throw (TransactionAbortException i DEADLOCK_PREVENTION), T i, lm)"
proof -
  from assms(2) have "spec_lock i lid m (held lm) = None" unfolding spec_lock_def Let_def by (rule if_not_P)
  then show ?thesis using ok by (simp add: lock_spec_def)
qed

lemma lock_more:
  assumes ok: "lock_ok (T, lm)" and st: "txn_state (T i) \<noteq> SHRINKING" and q: "find_queue lid lm = Some q"
  shows "lock_spec (T, lm) i lid m (lock (T i) lid m lm)"
proof -
  note D = lock_okD [OF ok]
  have qok: "queue_ok q" by (rule D(2) [OF q])
  then have Q: "request_queue q \<noteq> []" "\<forall>r \<in> set (request_queue q). granted r" "distinct (map req_txn_id (request_queue q))"
    by (auto simp: queue_ok_def)
  have h: "held lm lid = held_in (request_queue q)" using q by (simp add: held_def)
  have same: "put_queue lid (Some q) lm = lm" using put_queue_same(1) [of lid lm] q by simp
  note put = lock_grant [OF ok q] and deny = lock_deny [OF ok]
  show ?thesis
  proof (cases "find (is_own i) (request_queue q)")
    case None
    then have hi: "held lm lid i = None" using find_own(1) [OF Q(2)] h by simp
    let ?q' = "q\<lparr>request_queue := request_queue q @ [\<lparr>req_txn_id = i, lock_mode = m, granted = True\<rparr>]\<rparr>"
    have n: "i \<notin> req_txn_id ` set (request_queue q)" using hi h by (simp add: held_in_None)
    have "held_in (request_queue ?q') = (held lm lid)(i \<mapsto> m)"
      using hi by (auto simp: held_in_append h fun_eq_iff split: option.splits)
    note P = put [where i = i and m = m and m' = m and q' = ?q' and t = "lock_set_insert lid (T i)", OF _ _ _ _ _ this]
    show ?thesis
    proof (cases "\<forall>j c. j \<noteq> i \<longrightarrow> held lm lid j = Some c \<longrightarrow> compatible m c")
      case True
      have "lock (T i) lid m lm = (Ret True, lock_set_insert lid (T i), put_queue lid (Some (recompute_group ?q')) lm)"
        using st q None D(3) same Q(1) True compat_all_iff [OF qok h, of i m] by (simp add: lock_def new_LockRequest_def Let_def)
      then show ?thesis using P hi True Q n D(3) by simp
    next
      case False
      have "lock (T i) lid m lm = (Throw (TransactionAbortException i DEADLOCK_PREVENTION), T i, lm)"
        using st q None D(3) same Q(1) False compat_all_iff [OF qok h, of i m] by (simp add: lock_def Let_def)
      then show ?thesis using deny hi False by simp
    qed
  next
    case (Some r)
    then have hi: "held lm lid i = Some (lock_mode r)" using find_own(2) [OF Q(2)] h by simp
    let ?m = "merge_lock (lock_mode r) m"
    show ?thesis
    proof (cases "covers (lock_mode r) m")
      case True
      have "compatible ?m c" if "held lm lid j = Some c" "j \<noteq> i" for j c
        using queue_held_compatible [OF qok, of i "lock_mode r" j c] True that hi h by (simp add: covers_def)
      then have "spec_lock i lid m (held lm) = Some (held lm)"
        using hi True by (auto simp: spec_lock_def covers_def fun_upd_idem)
      then show ?thesis using st q Some D(3) same True Q ok by (simp add: lock_def Let_def lock_spec_def)
    next
      case False
      let ?q' = "q\<lparr>request_queue := set_own_mode i ?m (request_queue q)\<rparr>"
      note W = set_own_mode_props [OF Q(2,3), of i ?m]
      have "held_in (request_queue ?q') = (held lm lid)(i \<mapsto> ?m)" using W(3) hi h by auto
      note P = put [where i = i and m = m and m' = ?m and q' = ?q' and t = "T i", OF _ _ _ _ _ this]
      have lid: "lid \<in> set (lock_set (T i))" using D(4) hi by simp
      show ?thesis
      proof (cases "\<forall>j c. j \<noteq> i \<longrightarrow> held lm lid j = Some c \<longrightarrow> compatible ?m c")
        case True
        have "lock (T i) lid m lm = (Ret True, T i, put_queue lid (Some (recompute_group ?q')) lm)"
          using st q Some D(3) same Q(1) False True compat_all_iff [OF qok h, of i ?m] by (simp add: lock_def Let_def)
        then show ?thesis using P hi True Q W D(3) lid by (simp add: insert_absorb)
      next
        case no: False
        have "lock (T i) lid m lm = (Throw (TransactionAbortException i DEADLOCK_PREVENTION), T i, lm)"
          using st q Some D(3) same Q(1) False no compat_all_iff [OF qok h, of i ?m] by (simp add: lock_def Let_def)
        then show ?thesis using deny hi no by simp
      qed
    qed
  qed
qed

lemma lock_refines:
  assumes "lock_ok (T, lm)" and "txn_state (T i) \<noteq> SHRINKING"
  shows "lock_spec (T, lm) i lid m (lock (T i) lid m lm)"
  using lock_first [OF assms] lock_more [OF assms] by (cases "find_queue lid lm") auto

lemma unlock_refines:
  assumes ok: "lock_ok (T, lm)" and u: "unlock (T i) lid lm = (r, t, lm')"
  shows "lock_ok (T(i := t), lm')" "held lm' = spec_unlock i lid (held lm)"
    "held lm lid i \<noteq> None \<Longrightarrow> r \<and> t = start_shrinking (lock_set_erase lid (T i))"
    "t = T i \<or> t = start_shrinking (lock_set_erase lid (T i))"
proof -
  note D = lock_okD [OF ok]
  have "lock_ok (T(i := t), lm') \<and> held lm' = spec_unlock i lid (held lm) \<and>
    (held lm lid i \<noteq> None \<longrightarrow> r \<and> t = start_shrinking (lock_set_erase lid (T i))) \<and>
    (t = T i \<or> t = start_shrinking (lock_set_erase lid (T i)))"
  proof (cases "find_queue lid lm")
    case None
    then show ?thesis using u ok by (auto simp: unlock_def spec_unlock_def held_def fun_upd_idem)
  next
    case (Some q)
    have qok: "queue_ok q" by (rule D(2) [OF Some])
    then have Q: "request_queue q \<noteq> []" "\<forall>r \<in> set (request_queue q). granted r" "distinct (map req_txn_id (request_queue q))"
      "recompute_group q = q"
      by (auto simp: queue_ok_def)
    have h: "held lm lid = held_in (request_queue q)" using Some by (simp add: held_def)
    note E = erase_own_props [OF Q(2,3), of i]
    let ?q = "recompute_group (q\<lparr>request_queue := erase_own i (request_queue q)\<rparr>)"
    let ?o = "if erase_own i (request_queue q) = [] then None else Some ?q"
    have ho: "(case ?o of None \<Rightarrow> Map.empty | Some x \<Rightarrow> held_in (request_queue x)) = (held lm lid)(i := None)"
      using E(3) h by (auto simp: held_in_def)
    have "queue_ok ?q" if "erase_own i (request_queue q) \<noteq> []"
      using that qok E unfolding queue_ok_def by auto
    then have okq: "\<forall>x. ?o = Some x \<longrightarrow> queue_ok x" by auto
    have un: "unlock (T i) lid lm = (True, start_shrinking (lock_set_erase lid (T i)), put_queue lid ?o lm)"
    proof (cases "list_ex (is_own i) (request_queue q)")
      case True
      then show ?thesis
        using Some D(3) by (cases "request_queue q") (auto simp: unlock_def Let_def split: if_splits)
    next
      case False
      then have "i \<notin> req_txn_id ` set (request_queue q)" using Q(2) by (auto simp: list_ex_iff is_own_def)
      then have e: "erase_own i (request_queue q) = request_queue q" by (rule erase_own_idle)
      have eq: "q\<lparr>request_queue := request_queue q\<rparr> = q" by simp
      show ?thesis
        unfolding e eq Q(4) using Some D(3) False Q(1) by (cases "request_queue q") (auto simp: unlock_def Let_def)
    qed
    have "lock_ok (T(i := start_shrinking (lock_set_erase lid (T i))), put_queue lid ?o lm)"
      by (rule lock_ok_put [OF ok okq ho [symmetric]]) (use D(3) in auto)
    then show ?thesis using u un ho by (auto simp: spec_unlock_def held_put_queue [OF D(1)])
  qed
  then show "lock_ok (T(i := t), lm')" "held lm' = spec_unlock i lid (held lm)"
    "held lm lid i \<noteq> None \<Longrightarrow> r \<and> t = start_shrinking (lock_set_erase lid (T i))"
    "t = T i \<or> t = start_shrinking (lock_set_erase lid (T i))" by blast+
qed

section \<open>Runs of the lock manager\<close>

lemma lock_step_ok:
  assumes "lock_ok s" shows "lock_ok (snd (lock_step a s))"
proof (cases a)
  case (Lock i lid m)
  obtain T lm where s: "s = (T, lm)" by (rule prod.exhaust)
  obtain r t lm' where l: "lock (T i) lid m lm = (r, t, lm')" by (rule prod_cases3)
  show ?thesis
  proof (cases "txn_state (T i) = SHRINKING")
    case True
    then show ?thesis using assms l by (auto simp: Lock s lock_def)
  next
    case False
    from lock_refines [OF assms [unfolded s] False, of lid m] show ?thesis by (simp add: Lock s l lock_spec_def)
  qed
next
  case (Unlock i lid)
  obtain T lm where s: "s = (T, lm)" by (rule prod.exhaust)
  obtain r t lm' where l: "unlock (T i) lid lm = (r, t, lm')" by (rule prod_cases3)
  show ?thesis using unlock_refines(1) [OF assms [unfolded s] l] by (simp add: Unlock s l)
qed

lemma lock_steps_ok: "lock_ok s \<Longrightarrow> lock_ok (lock_steps as s)"
  by (induction as arbitrary: s) (auto simp: lock_step_ok)

definition initial_system :: "(txn_id_t \<Rightarrow> Transaction) \<Rightarrow> bool" where
  "initial_system T \<longleftrightarrow> (\<forall>i. txn_id (T i) = i \<and> lock_set (T i) = [])"

lemma initial_ok: "initial_system T \<Longrightarrow> lock_ok (T, new_LockManager)"
  by (simp add: lock_ok_def initial_system_def new_LockManager_def find_queue_def held_def lock_shard_def
      LOCK_TABLE_SHARD_COUNT_def)

text \<open>
  C5. The lock manager refines the table of held locks: on every reachable state, a \<open>lock\<close> call
  outside the shrinking phase either grants exactly the merge of the held and the requested mode,
  when all locks other transactions hold on the item are compatible with it, or else throws a deadlock
  prevention abort and changes no held lock.
\<close>

theorem lock_manager_refines:
  assumes "initial_system T0" and "lock_steps as (T0, new_LockManager) = (T, lm)"
    and "txn_state (T i) \<noteq> SHRINKING" and "lock (T i) lid m lm = (r, t, lm')"
  shows "case spec_lock i lid m (held lm) of
           Some h \<Rightarrow> r = Ret True \<and> held lm' = h
         | None \<Rightarrow> r = Throw (TransactionAbortException i DEADLOCK_PREVENTION) \<and> held lm' = held lm"
proof -
  have "lock_ok (T, lm)" using lock_steps_ok [OF initial_ok [OF assms(1)], of as] assms(2) by simp
  from lock_refines [OF this assms(3), of lid m] show ?thesis by (simp add: lock_spec_def assms(4) cong: option.case_cong)
qed

definition sample_txns :: "txn_id_t \<Rightarrow> Transaction" where
  "sample_txns i = new_Transaction i READ_COMMITTED"

lemma sample_txns_initial: "initial_system sample_txns"
  by (simp add: initial_system_def sample_txns_def new_Transaction_def)

theorem lock_manager_refines_witness:
  "fst (lock (sample_txns 2) (LockDataId_table 4) SHARED
     (snd (lock_steps [Lock 1 (LockDataId_table 4) INTENTION_EXCLUSIVE] (sample_txns, new_LockManager)))) =
   Throw (TransactionAbortException 2 DEADLOCK_PREVENTION)"
proof -
  let ?s = "lock_steps [Lock 1 (LockDataId_table 4) INTENTION_EXCLUSIVE] (sample_txns, new_LockManager)"
  obtain T lm where s: "?s = (T, lm)" by (rule prod.exhaust)
  have T: "T 2 = sample_txns 2" using s by (auto split: prod.splits)
  have h: "held lm (LockDataId_table 4) 2 = None" "held lm (LockDataId_table 4) 1 = Some INTENTION_EXCLUSIVE"
    using s
    by (auto simp: held_def lock_def Let_def sample_txns_def new_Transaction_def new_LockRequest_def empty_queue_def held_in_def
        new_LockManager_def find_queue_def put_queue_def lock_shard_def LOCK_TABLE_SHARD_COUNT_def)
  then have "spec_lock 2 (LockDataId_table 4) SHARED (held lm) = None"
    by (auto simp: spec_lock_def compatible_def intro: exI [of _ 1])
  moreover obtain r t lm' where l: "lock (T 2) (LockDataId_table 4) SHARED lm = (r, t, lm')" by (rule prod_cases3)
  moreover have "txn_state (T 2) \<noteq> SHRINKING" by (simp add: T sample_txns_def new_Transaction_def)
  ultimately show ?thesis using lock_manager_refines [OF sample_txns_initial s _ l] s T by auto
qed

text \<open>
  C14. In every state that lock and unlock calls reach, two different transactions never hold
  incompatible locks on one data item.
\<close>

theorem held_locks_compatible:
  assumes "initial_system T0" and "lock_steps as (T0, new_LockManager) = (T, lm)"
    and "held lm lid i = Some a" and "held lm lid j = Some b" and "i \<noteq> j"
  shows "compatible a b"
proof -
  have ok: "lock_ok (T, lm)" using lock_steps_ok [OF initial_ok [OF assms(1)], of as] assms(2) by simp
  obtain q where q: "find_queue lid lm = Some q" using assms(3) by (auto simp: held_def split: option.splits)
  with queue_held_compatible [OF lock_okD(2) [OF ok q]] assms(3-5) show ?thesis by (auto simp: held_def)
qed

lemma sample_two_locks:
  "snd (lock_steps [Lock 1 (LockDataId_table 4) INTENTION_EXCLUSIVE, Lock 2 (LockDataId_table 4) INTENTION_SHARED]
     (sample_txns, new_LockManager)) = lm \<Longrightarrow>
   held lm (LockDataId_table 4) 1 = Some INTENTION_EXCLUSIVE \<and> held lm (LockDataId_table 4) 2 = Some INTENTION_SHARED"
  by (auto simp: held_def lock_def Let_def sample_txns_def new_Transaction_def new_LockRequest_def empty_queue_def held_in_def
      new_LockManager_def find_queue_def put_queue_def lock_shard_def LOCK_TABLE_SHARD_COUNT_def is_own_def compatible_def)

theorem held_locks_compatible_witness:
  "\<exists>a b. held (snd (lock_steps [Lock 1 (LockDataId_table 4) INTENTION_EXCLUSIVE, Lock 2 (LockDataId_table 4) INTENTION_SHARED]
       (sample_txns, new_LockManager))) (LockDataId_table 4) 1 = Some a \<and>
     held (snd (lock_steps [Lock 1 (LockDataId_table 4) INTENTION_EXCLUSIVE, Lock 2 (LockDataId_table 4) INTENTION_SHARED]
       (sample_txns, new_LockManager))) (LockDataId_table 4) 2 = Some b \<and> compatible a b"
proof -
  let ?as = "[Lock 1 (LockDataId_table 4) INTENTION_EXCLUSIVE, Lock 2 (LockDataId_table 4) INTENTION_SHARED]"
  obtain T lm where s: "lock_steps ?as (sample_txns, new_LockManager) = (T, lm)" by (rule prod.exhaust)
  have h: "held lm (LockDataId_table 4) 1 = Some INTENTION_EXCLUSIVE" "held lm (LockDataId_table 4) 2 = Some INTENTION_SHARED"
    using sample_two_locks [of lm] s by auto
  from held_locks_compatible [OF sample_txns_initial s h] h show ?thesis unfolding s by simp
qed

lemma lock_keeps_state: "lock u lid m lm = (r, t, lm') \<Longrightarrow> txn_state t = txn_state u \<and> txn_id t = txn_id u"
  by (auto simp: lock_def Let_def split: if_splits)

lemma unlock_keeps_shrinking:
  "unlock u lid lm = (r, t, lm') \<Longrightarrow> txn_id t = txn_id u \<and> (txn_state u = SHRINKING \<longrightarrow> txn_state t = SHRINKING)"
  by (auto simp: unlock_def Let_def start_shrinking_def split: option.splits if_splits)

lemma shrinking_stays:
  "txn_state (T i) = SHRINKING \<Longrightarrow> txn_id (T i) = i \<Longrightarrow>
   txn_state (fst (lock_steps as (T, lm)) i) = SHRINKING \<and> txn_id (fst (lock_steps as (T, lm)) i) = i"
proof (induction as arbitrary: T lm)
  case (Cons a as)
  obtain T1 lm1 where s: "snd (lock_step a (T, lm)) = (T1, lm1)" by (rule prod.exhaust)
  have "txn_state (T1 i) = SHRINKING \<and> txn_id (T1 i) = i"
  proof (cases a)
    case (Lock j lid m)
    obtain r t lm' where l: "lock (T j) lid m lm = (r, t, lm')" by (rule prod_cases3)
    show ?thesis using Cons.prems s l Lock lock_keeps_state [OF l] by auto
  next
    case (Unlock j lid)
    obtain r t lm' where l: "unlock (T j) lid lm = (r, t, lm')" by (rule prod_cases3)
    show ?thesis using Cons.prems s l Unlock unlock_keeps_shrinking [OF l] by auto
  qed
  then show ?case using Cons.IH s by simp
qed simp

text \<open>
  C15. Two-phase locking: once a transaction has released a lock it held while growing, then
  whatever all transactions do next, every lock it asks for is refused with \<open>LOCK_ON_SHIRINKING\<close>.
\<close>

theorem two_phase_locking:
  assumes "initial_system T0" and "lock_steps as (T0, new_LockManager) = (T, lm)"
    and "txn_state (T i) = GROWING \<or> txn_state (T i) = DEFAULT" and "held lm lid i \<noteq> None"
    and "lock_steps bs (snd (lock_step (Unlock i lid) (T, lm))) = (T', lm')"
  shows "lock (T' i) lid' m lm' = (Throw (TransactionAbortException i LOCK_ON_SHIRINKING), T' i, lm')"
proof -
  have ok: "lock_ok (T, lm)" using lock_steps_ok [OF initial_ok [OF assms(1)], of as] assms(2) by simp
  obtain r t lm1 where u: "unlock (T i) lid lm = (r, t, lm1)" by (rule prod_cases3)
  have t: "t = start_shrinking (lock_set_erase lid (T i))" using unlock_refines(3) [OF ok u] assms(4) by simp
  have "txn_state (T' i) = SHRINKING \<and> txn_id (T' i) = i"
    using shrinking_stays [of "T(i := t)" i bs lm1] assms(3,5) u t lock_okD(3) [OF ok]
    by (auto simp: start_shrinking_def)
  then show ?thesis by (simp add: lock_def)
qed

lemma sample_unlock:
  "\<exists>T lm. lock_steps [Lock 1 (LockDataId_table 4) SHARED] (sample_txns, new_LockManager) = (T, lm) \<and>
     txn_state (T 1) = DEFAULT \<and> held lm (LockDataId_table 4) 1 = Some SHARED"
  by (auto simp: held_def lock_def Let_def sample_txns_def new_Transaction_def new_LockRequest_def empty_queue_def held_in_def
      new_LockManager_def find_queue_def put_queue_def lock_shard_def LOCK_TABLE_SHARD_COUNT_def lock_set_insert_def)

theorem two_phase_locking_witness:
  "\<exists>T' lm'. lock_steps [Lock 1 (LockDataId_table 4) SHARED, Unlock 1 (LockDataId_table 4), Lock 2 (LockDataId_table 4) EXLUCSIVE]
       (sample_txns, new_LockManager) = (T', lm') \<and>
     fst (lock (T' 1) (LockDataId_table 9) SHARED lm') = Throw (TransactionAbortException 1 LOCK_ON_SHIRINKING)"
proof -
  obtain T lm where s: "lock_steps [Lock 1 (LockDataId_table 4) SHARED] (sample_txns, new_LockManager) = (T, lm)"
      "txn_state (T 1) = DEFAULT" "held lm (LockDataId_table 4) 1 = Some SHARED" using sample_unlock by blast
  obtain T' lm' where s': "lock_steps [Lock 2 (LockDataId_table 4) EXLUCSIVE] (snd (lock_step (Unlock 1 (LockDataId_table 4)) (T, lm))) = (T', lm')"
    by (rule prod.exhaust)
  with two_phase_locking [OF sample_txns_initial s(1) _ _ s'] s show ?thesis by auto
qed

lemma recompute_group_join:
  assumes "rs \<noteq> []" and "\<forall>r \<in> set rs. granted r"
  shows "group_lock_mode (recompute_group (q\<lparr>request_queue := rs\<rparr>)) =
    group_from_lock (foldr merge_lock (map lock_mode (butlast rs)) (lock_mode (last rs)))"
  using assms
proof (induction rs)
  case (Cons r rs)
  have h: "has_mode (r # rs) m \<longleftrightarrow> lock_mode r = m \<or> has_mode rs m" for m using Cons.prems by (auto simp: has_mode_def)
  show ?case
  proof (cases "rs = []")
    case True
    then show ?thesis
      using Cons.prems(2) by (cases "lock_mode r") (simp_all add: recompute_group_def Let_def has_mode_def)
  next
    case False
    let ?j = "foldr merge_lock (map lock_mode (butlast rs)) (lock_mode (last rs))"
    have IH: "group_lock_mode (recompute_group (q\<lparr>request_queue := rs\<rparr>)) = group_from_lock ?j" using Cons False by simp
    have g: "group_lock_mode (recompute_group (q\<lparr>request_queue := r # rs\<rparr>)) = group_from_lock (merge_lock (lock_mode r) ?j)"
      using IH by (cases "lock_mode r"; cases ?j) (auto simp: recompute_group_def Let_def h merge_lock_def split: if_splits)
    then show ?thesis using False by simp
  qed
qed simp

text \<open>
  The group mode of a queue summarises it exactly: it is the group mode of one lock mode, and a
  request is compatible with that mode if and only if it is compatible with every lock held.
\<close>

lemma group_mode_exact:
  assumes "initial_system T0" and "lock_steps as (T0, new_LockManager) = (T, lm)" and "find_queue lid lm = Some q"
  shows "\<exists>g. group_lock_mode q = group_from_lock g \<and>
    (\<forall>m. compatible g m \<longleftrightarrow> (\<forall>i c. held lm lid i = Some c \<longrightarrow> compatible c m))"
proof -
  let ?rs = "request_queue q"
  have ok: "lock_ok (T, lm)" using lock_steps_ok [OF initial_ok [OF assms(1)], of as] assms(2) by simp
  note Q = lock_okD(2) [OF ok assms(3), unfolded queue_ok_def]
  let ?g = "foldr merge_lock (map lock_mode (butlast ?rs)) (lock_mode (last ?rs))"
  have "group_lock_mode q = group_from_lock ?g"
    using recompute_group_join [of ?rs q] Q by simp
  moreover have "set ?rs = insert (last ?rs) (set (butlast ?rs))"
    using Q by (metis append_butlast_last_id list.simps(15) rotate1.simps(2) set_rotate1)
  then have "compatible ?g m \<longleftrightarrow> (\<forall>r \<in> set ?rs. compatible (lock_mode r) m)" for m
    by (simp add: modes.compat_fold)
  moreover have "(\<forall>r \<in> set ?rs. compatible (lock_mode r) m) \<longleftrightarrow> (\<forall>i c. held lm lid i = Some c \<longrightarrow> compatible c m)" for m
    using Q assms(3) by (simp add: held_def held_in_Some) blast
  ultimately show ?thesis by (intro exI [of _ ?g]) simp
qed

lemma group_mode_exact_witness:
  "\<exists>q g. find_queue (LockDataId_table 4) (snd (lock_steps [Lock 1 (LockDataId_table 4) SHARED] (sample_txns, new_LockManager))) = Some q \<and>
     group_lock_mode q = group_from_lock g"
proof -
  obtain T lm where s: "lock_steps [Lock 1 (LockDataId_table 4) SHARED] (sample_txns, new_LockManager) = (T, lm)"
      "held lm (LockDataId_table 4) 1 = Some SHARED" using sample_unlock by blast
  then obtain q where "find_queue (LockDataId_table 4) lm = Some q" by (auto simp: held_def split: option.splits)
  with group_mode_exact [OF sample_txns_initial s(1) this] s show ?thesis by auto
qed

end
