(* ===== verification/Bitmap.thy ===== *)
theory Bitmap
  imports Bytes
begin

text \<open>
  The slot bitmap of a record page, \<^verbatim>\<open>src/src/record/bitmap.h\<close>, on the bytes it occupies. Bit positions
  count from the highest bit of the first byte.
\<close>

unbundle bit_operations_syntax

definition BITMAP_WIDTH :: nat where "BITMAP_WIDTH = 8"
definition BITMAP_HIGHEST_BIT :: byte where "BITMAP_HIGHEST_BIT = 0x80"

definition get_bucket :: "nat \<Rightarrow> nat" where
  "get_bucket pos = pos div BITMAP_WIDTH"

definition get_bit :: "nat \<Rightarrow> byte" where
  "get_bit pos = drop_bit (pos mod BITMAP_WIDTH) BITMAP_HIGHEST_BIT"

definition bitmap_init :: "nat \<Rightarrow> bytes" where
  "bitmap_init n = replicate n 0"

definition bitmap_set :: "bytes \<Rightarrow> nat \<Rightarrow> bytes" where
  "bitmap_set bm pos = bm[get_bucket pos := bm ! get_bucket pos OR get_bit pos]"

definition bitmap_reset :: "bytes \<Rightarrow> nat \<Rightarrow> bytes" where
  "bitmap_reset bm pos = bm[get_bucket pos := bm ! get_bucket pos AND NOT (get_bit pos)]"

definition is_set :: "bytes \<Rightarrow> nat \<Rightarrow> bool" where
  "is_set bm pos \<longleftrightarrow> bm ! get_bucket pos AND get_bit pos \<noteq> 0"

function next_bit_from :: "bool \<Rightarrow> bytes \<Rightarrow> nat \<Rightarrow> nat \<Rightarrow> nat" where
  "next_bit_from b bm max_n i =
     (if i < max_n then (if is_set bm i = b then i else next_bit_from b bm max_n (Suc i)) else max_n)"
  by auto
termination by (relation "measure (\<lambda>(_, _, m, i). m - i)") auto

declare next_bit_from.simps [simp del]

definition next_bit :: "bool \<Rightarrow> bytes \<Rightarrow> nat \<Rightarrow> int \<Rightarrow> nat" where
  "next_bit b bm max_n c = next_bit_from b bm max_n (nat (c + 1))"

definition first_bit :: "bool \<Rightarrow> bytes \<Rightarrow> nat \<Rightarrow> nat" where
  "first_bit b bm max_n = next_bit b bm max_n (-1)"

section \<open>Laws\<close>

lemma get_bit_exp: "get_bit pos = push_bit (7 - pos mod 8) 1"
proof -
  have "pos mod 8 < 8" by simp
  then have "pos mod 8 \<in> {0, 1, 2, 3, 4, 5, 6, 7}" by auto
  then show ?thesis by (auto simp: get_bit_def BITMAP_WIDTH_def BITMAP_HIGHEST_BIT_def drop_bit_eq_div push_bit_eq_mult)
qed

lemma bit_get_bit: "bit (get_bit pos) n \<longleftrightarrow> n = 7 - pos mod 8"
  by (auto simp: get_bit_exp bit_simps)

lemma is_set_bit: "is_set bm pos \<longleftrightarrow> bit (bm ! (pos div 8)) (7 - pos mod 8)"
proof -
  have "b AND get_bit pos \<noteq> 0 \<longleftrightarrow> bit b (7 - pos mod 8)" for b :: byte
  proof -
    have "7 - pos mod 8 < 8" by simp
    then show ?thesis unfolding bit_eq_iff [of "b AND get_bit pos" 0] by (auto simp: bit_and_iff bit_get_bit)
  qed
  then show ?thesis by (simp add: is_set_def get_bucket_def BITMAP_WIDTH_def)
qed

lemma same_bit: "p div 8 = q div 8 \<Longrightarrow> 7 - p mod 8 = 7 - q mod (8 :: nat) \<longleftrightarrow> p = q"
proof -
  assume d: "p div 8 = q div 8"
  have "p mod 8 < 8" "q mod 8 < 8" by simp_all
  then have "7 - p mod 8 = 7 - q mod 8 \<longleftrightarrow> p mod 8 = q mod 8" by linarith
  also have "\<dots> \<longleftrightarrow> p = q" using d by (metis div_mult_mod_eq)
  finally show ?thesis .
qed

lemma length_bitmap [simp]:
  "length (bitmap_set bm p) = length bm" "length (bitmap_reset bm p) = length bm" "length (bitmap_init n) = n"
  by (simp_all add: bitmap_set_def bitmap_reset_def bitmap_init_def)

lemma is_set_bitmap_set:
  assumes "p div 8 < length bm"
  shows "is_set (bitmap_set bm p) q \<longleftrightarrow> q = p \<or> is_set bm q"
  using assms same_bit [of q p]
  by (cases "p div 8 = q div 8")
    (auto simp: is_set_bit bitmap_set_def get_bucket_def BITMAP_WIDTH_def bit_or_iff bit_get_bit)

lemma is_set_bitmap_reset:
  assumes "p div 8 < length bm"
  shows "is_set (bitmap_reset bm p) q \<longleftrightarrow> q \<noteq> p \<and> is_set bm q"
  using assms same_bit [of q p]
  by (cases "p div 8 = q div 8")
    (auto simp: is_set_bit bitmap_reset_def get_bucket_def BITMAP_WIDTH_def bit_and_iff bit_not_iff bit_get_bit)

lemma is_set_init: "p div 8 < n \<Longrightarrow> \<not> is_set (bitmap_init n) p"
  by (simp add: is_set_bit bitmap_init_def)

lemma next_bit_from_spec:
  assumes "i \<le> max_n"
  shows "i \<le> next_bit_from b bm max_n i \<and> next_bit_from b bm max_n i \<le> max_n \<and>
    (\<forall>j. i \<le> j \<longrightarrow> j < next_bit_from b bm max_n i \<longrightarrow> is_set bm j \<noteq> b) \<and>
    (next_bit_from b bm max_n i < max_n \<longrightarrow> is_set bm (next_bit_from b bm max_n i) = b)"
  using assms
proof (induction b bm max_n i rule: next_bit_from.induct)
  case (1 b bm max_n i)
  show ?case
  proof (cases "i < max_n \<and> is_set bm i \<noteq> b")
    case True
    then have e: "next_bit_from b bm max_n i = next_bit_from b bm max_n (Suc i)" by (subst next_bit_from.simps) simp
    have IH: "Suc i \<le> next_bit_from b bm max_n (Suc i) \<and> next_bit_from b bm max_n (Suc i) \<le> max_n \<and>
      (\<forall>j. Suc i \<le> j \<longrightarrow> j < next_bit_from b bm max_n (Suc i) \<longrightarrow> is_set bm j \<noteq> b) \<and>
      (next_bit_from b bm max_n (Suc i) < max_n \<longrightarrow> is_set bm (next_bit_from b bm max_n (Suc i)) = b)"
      using 1 True by auto
    have "is_set bm j \<noteq> b" if "i \<le> j" "j < next_bit_from b bm max_n (Suc i)" for j
      using that IH True by (cases "j = i") auto
    then show ?thesis unfolding e using IH by auto
  next
    case False
    then have "next_bit_from b bm max_n i = (if i < max_n then i else max_n)" by (subst next_bit_from.simps) simp
    then show ?thesis using 1 False by auto
  qed
qed

lemma first_bit_spec:
  "first_bit b bm n \<le> n" "j < first_bit b bm n \<Longrightarrow> is_set bm j \<noteq> b"
  "first_bit b bm n < n \<Longrightarrow> is_set bm (first_bit b bm n) = b"
  using next_bit_from_spec [of 0 n b bm] by (auto simp: first_bit_def next_bit_def)

end
