(* ===== verification/Lru_Replacer.thy ===== *)
theory Lru_Replacer
  imports Prelude
begin

text \<open>
  The page replacer of the buffer pool: \<^verbatim>\<open>src/src/replacer/replacer.h\<close> (the interface, stated as the
  locale \<open>replacer\<close>) and \<^verbatim>\<open>src/src/replacer/lru_replacer.{h,cpp}\<close> (the LRU implementation).

  A \<^verbatim>\<open>std::list\<close> is a list of nodes, each with an address, because \<open>LRUhash_\<close> stores iterators into
  \<open>LRUlist_\<close>: an iterator is the address of a node and stays valid while other nodes come and go.
  \<open>next_node\<close> is the allocator's next fresh address. Frame ids index \<open>is_pinned_\<close>, a vector whose
  out-of-range access is undefined in C++, so the laws are stated for frames below \<open>max_size_\<close>.
\<close>

section \<open>The implementation\<close>

record LRUReplacer =
  LRUlist :: "(nat \<times> frame_id_t) list"
  LRUhash :: "frame_id_t \<Rightarrow> nat option"
  max_size :: nat
  is_pinned :: "bool list"
  next_node :: nat

definition new_LRUReplacer :: "nat \<Rightarrow> LRUReplacer" where
  "new_LRUReplacer num_pages =
     \<lparr>LRUlist = [], LRUhash = Map.empty, max_size = num_pages,
      is_pinned = replicate num_pages True, next_node = 0\<rparr>"

definition victim :: "LRUReplacer \<Rightarrow> frame_id_t option \<times> LRUReplacer" where
  "victim r =
     (if LRUlist r = [] then (None, r)
      else let frame_id = snd (last (LRUlist r)) in
        (Some frame_id,
         r\<lparr>is_pinned := (is_pinned r)[frame_id := True],
           LRUhash := (LRUhash r)(frame_id := None),
           LRUlist := butlast (LRUlist r)\<rparr>))"

definition pin :: "frame_id_t \<Rightarrow> LRUReplacer \<Rightarrow> LRUReplacer" where
  "pin frame_id r =
     (if is_pinned r ! frame_id then r
      else
        let r1 = r\<lparr>is_pinned := (is_pinned r)[frame_id := True]\<rparr> in
        case LRUhash r1 frame_id of
          None \<Rightarrow> r1
        | Some it \<Rightarrow>
            r1\<lparr>LRUlist := filter (\<lambda>node. fst node \<noteq> it) (LRUlist r1),
               LRUhash := (LRUhash r1)(frame_id := None)\<rparr>)"

definition unpin :: "frame_id_t \<Rightarrow> LRUReplacer \<Rightarrow> LRUReplacer" where
  "unpin frame_id r =
     (if is_pinned r ! frame_id then
        r\<lparr>is_pinned := (is_pinned r)[frame_id := False],
          LRUlist := (next_node r, frame_id) # LRUlist r,
          LRUhash := (LRUhash r)(frame_id := Some (next_node r)),
          next_node := Suc (next_node r)\<rparr>
      else r)"

definition Size :: "LRUReplacer \<Rightarrow> nat" where
  "Size r = length (LRUlist r)"

section \<open>Abstraction and invariant\<close>

text \<open>The evictable frames, most recently unpinned first.\<close>

definition evictable :: "LRUReplacer \<Rightarrow> frame_id_t list" where
  "evictable r = map snd (LRUlist r)"

definition lru_inv :: "LRUReplacer \<Rightarrow> bool" where
  "lru_inv r \<longleftrightarrow>
     length (is_pinned r) = max_size r \<and>
     distinct (map fst (LRUlist r)) \<and>
     distinct (map snd (LRUlist r)) \<and>
     (\<forall>f a. LRUhash r f = Some a \<longleftrightarrow> (a, f) \<in> set (LRUlist r)) \<and>
     (\<forall>f < max_size r. is_pinned r ! f \<longleftrightarrow> f \<notin> set (evictable r)) \<and>
     (\<forall>(a, f) \<in> set (LRUlist r). f < max_size r \<and> a < next_node r)"

section \<open>The replacer interface\<close>

datatype replacer_op = Pin frame_id_t | Unpin frame_id_t | Evict

text \<open>The reference policy on a plain list of frames.\<close>

fun lru_step :: "replacer_op \<Rightarrow> frame_id_t list \<Rightarrow> frame_id_t option \<times> frame_id_t list" where
  "lru_step (Pin f) fs = (None, remove1 f fs)"
| "lru_step (Unpin f) fs = (None, if f \<in> set fs then fs else f # fs)"
| "lru_step Evict fs = (if fs = [] then (None, []) else (Some (last fs), butlast fs))"

fun lru_run :: "replacer_op list \<Rightarrow> frame_id_t list \<Rightarrow> frame_id_t option list \<times> frame_id_t list" where
  "lru_run [] fs = ([], fs)"
| "lru_run (x # xs) fs =
     (case lru_step x fs of (out, fs') \<Rightarrow> case lru_run xs fs' of (outs, fs'') \<Rightarrow> (out # outs, fs''))"

fun replacer_op_in :: "nat \<Rightarrow> replacer_op \<Rightarrow> bool" where
  "replacer_op_in n (Pin f) = (f < n)"
| "replacer_op_in n (Unpin f) = (f < n)"
| "replacer_op_in n Evict = True"

fun replacer_step ::
  "('r \<Rightarrow> frame_id_t option \<times> 'r) \<Rightarrow> (frame_id_t \<Rightarrow> 'r \<Rightarrow> 'r) \<Rightarrow> (frame_id_t \<Rightarrow> 'r \<Rightarrow> 'r) \<Rightarrow>
   replacer_op \<Rightarrow> 'r \<Rightarrow> frame_id_t option \<times> 'r" where
  "replacer_step vic pn upn (Pin f) r = (None, pn f r)"
| "replacer_step vic pn upn (Unpin f) r = (None, upn f r)"
| "replacer_step vic pn upn Evict r = vic r"

fun replacer_run ::
  "('r \<Rightarrow> frame_id_t option \<times> 'r) \<Rightarrow> (frame_id_t \<Rightarrow> 'r \<Rightarrow> 'r) \<Rightarrow> (frame_id_t \<Rightarrow> 'r \<Rightarrow> 'r) \<Rightarrow>
   replacer_op list \<Rightarrow> 'r \<Rightarrow> frame_id_t option list \<times> 'r" where
  "replacer_run vic pn upn [] r = ([], r)"
| "replacer_run vic pn upn (x # xs) r =
     (case replacer_step vic pn upn x r of
        (out, r') \<Rightarrow> case replacer_run vic pn upn xs r' of (outs, r'') \<Rightarrow> (out # outs, r''))"

text \<open>
  What \<^verbatim>\<open>Replacer\<close> promises the buffer pool, with \<open>fr\<close> the frames that can be evicted: \<open>vic\<close> takes
  the least recently unpinned one, \<open>pn\<close> protects a frame, \<open>upn\<close> releases it.
\<close>

locale replacer =
  fixes vic :: "'r \<Rightarrow> frame_id_t option \<times> 'r"
    and pn :: "frame_id_t \<Rightarrow> 'r \<Rightarrow> 'r"
    and upn :: "frame_id_t \<Rightarrow> 'r \<Rightarrow> 'r"
    and fr :: "'r \<Rightarrow> frame_id_t list"
    and cap :: "'r \<Rightarrow> nat"
    and inv :: "'r \<Rightarrow> bool"
  assumes vic_none: "inv r \<Longrightarrow> fr r = [] \<Longrightarrow> vic r = (None, r)"
    and vic_some: "inv r \<Longrightarrow> fr r \<noteq> [] \<Longrightarrow> fst (vic r) = Some (last (fr r))"
    and vic_fr: "inv r \<Longrightarrow> fr (snd (vic r)) = butlast (fr r)"
    and pn_fr: "inv r \<Longrightarrow> f < cap r \<Longrightarrow> fr (pn f r) = remove1 f (fr r)"
    and upn_fr: "inv r \<Longrightarrow> f < cap r \<Longrightarrow> fr (upn f r) = (if f \<in> set (fr r) then fr r else f # fr r)"
    and vic_inv: "inv r \<Longrightarrow> inv (snd (vic r))"
    and pn_inv: "inv r \<Longrightarrow> f < cap r \<Longrightarrow> inv (pn f r)"
    and upn_inv: "inv r \<Longrightarrow> f < cap r \<Longrightarrow> inv (upn f r)"
    and vic_cap: "cap (snd (vic r)) = cap r"
    and pn_cap: "cap (pn f r) = cap r"
    and upn_cap: "cap (upn f r) = cap r"
    and fr_distinct: "inv r \<Longrightarrow> distinct (fr r)"
    and fr_range: "inv r \<Longrightarrow> f \<in> set (fr r) \<Longrightarrow> f < cap r"
begin

lemma pn_protects: "inv r \<Longrightarrow> f < cap r \<Longrightarrow> f \<notin> set (fr (pn f r))"
  by (simp add: pn_fr fr_distinct)

lemma upn_set: "inv r \<Longrightarrow> f < cap r \<Longrightarrow> set (fr (upn f r)) = insert f (set (fr r))"
  by (auto simp: upn_fr)

lemma pn_set: "inv r \<Longrightarrow> f < cap r \<Longrightarrow> set (fr (pn f r)) = set (fr r) - {f}"
  by (simp add: pn_fr fr_distinct)

lemma vic_someD:
  assumes "inv r" and "vic r = (Some f, r')"
  shows "f \<in> set (fr r)" "set (fr r') = set (fr r) - {f}" "inv r'" "cap r' = cap r" "f < cap r"
proof -
  have ne: "fr r \<noteq> []" using assms vic_none by fastforce
  have f: "f = last (fr r)" using vic_some [OF assms(1) ne] assms(2) by simp
  show mem: "f \<in> set (fr r)" using f ne by simp
  show "set (fr r') = set (fr r) - {f}"
    using vic_fr [OF assms(1)] assms(2) f ne set_butlast_distinct [OF fr_distinct [OF assms(1)]]
    by simp
  show "inv r'" using vic_inv [OF assms(1)] assms(2) by simp
  show "cap r' = cap r" using vic_cap [of r] assms(2) by simp
  show "f < cap r" using fr_range [OF assms(1) mem] .
qed

lemma vic_noneD: "inv r \<Longrightarrow> vic r = (None, r') \<Longrightarrow> fr r = [] \<and> r' = r"
  using vic_none vic_some by fastforce

lemma step_refines:
  assumes "inv r" and "replacer_op_in (cap r) x"
  shows "lru_step x (fr r) = (fst (replacer_step vic pn upn x r), fr (snd (replacer_step vic pn upn x r)))
     \<and> inv (snd (replacer_step vic pn upn x r)) \<and> cap (snd (replacer_step vic pn upn x r)) = cap r"
  using assms
  by (cases x)
     (auto simp: pn_fr upn_fr vic_fr vic_some vic_none vic_inv pn_inv upn_inv vic_cap pn_cap upn_cap)

lemma run_refines:
  assumes "inv r" and "list_all (replacer_op_in (cap r)) xs"
  shows "lru_run xs (fr r) = (fst (replacer_run vic pn upn xs r), fr (snd (replacer_run vic pn upn xs r)))"
  using assms
proof (induction xs arbitrary: r)
  case Nil
  then show ?case by simp
next
  case (Cons x xs)
  obtain out r' where st: "replacer_step vic pn upn x r = (out, r')"
    by (cases "replacer_step vic pn upn x r")
  have s: "lru_step x (fr r) = (out, fr r')" "inv r'" "cap r' = cap r"
    using step_refines [of r x] Cons.prems st by auto
  have "lru_run xs (fr r') = (fst (replacer_run vic pn upn xs r'), fr (snd (replacer_run vic pn upn xs r')))"
    using Cons.IH [OF s(2)] Cons.prems s(3) by simp
  then show ?case using s st by (simp split: prod.splits)
qed

end

section \<open>The implementation meets the interface\<close>

lemma lru_inv_new: "lru_inv (new_LRUReplacer n)"
  by (simp add: lru_inv_def new_LRUReplacer_def evictable_def)

lemma evictable_new [simp]: "evictable (new_LRUReplacer n) = []"
  by (simp add: evictable_def new_LRUReplacer_def)

lemma max_size_new [simp]: "max_size (new_LRUReplacer n) = n"
  by (simp add: new_LRUReplacer_def)

lemma max_size_ops [simp]:
  "max_size (snd (victim r)) = max_size r"
  "max_size (pin f r) = max_size r"
  "max_size (unpin f r) = max_size r"
  by (simp_all add: victim_def pin_def unpin_def Let_def split: option.splits)

lemma victim_evictable: "evictable (snd (victim r)) = butlast (evictable r)"
  by (simp add: victim_def evictable_def Let_def map_butlast)

lemma filter_addr_remove1:
  assumes "distinct (map fst xs)" "distinct (map snd xs)" "(a, f) \<in> set xs"
  shows "map snd (filter (\<lambda>n. fst n \<noteq> a) xs) = remove1 f (map snd xs)"
  using assms
proof (induction xs)
  case Nil
  then show ?case by simp
next
  case (Cons x xs)
  show ?case
  proof (cases "x = (a, f)")
    case True
    with Cons.prems(1) have "\<forall>n \<in> set xs. fst n \<noteq> a" by (force simp: image_iff)
    then have "filter (\<lambda>n. fst n \<noteq> a) xs = xs" by (simp add: filter_id_conv)
    with True show ?thesis by simp
  next
    case False
    with Cons.prems have mem: "(a, f) \<in> set xs" by auto
    with Cons.prems have "fst x \<noteq> a" "snd x \<noteq> f" by (force simp: image_iff)+
    with Cons mem show ?thesis by simp
  qed
qed

lemma lru_invD:
  assumes "lru_inv r"
  shows "length (is_pinned r) = max_size r"
    and "distinct (map fst (LRUlist r))"
    and "distinct (map snd (LRUlist r))"
    and "(a, f) \<in> set (LRUlist r) \<Longrightarrow> LRUhash r f = Some a"
    and "LRUhash r f = Some a \<Longrightarrow> (a, f) \<in> set (LRUlist r)"
    and "f < max_size r \<Longrightarrow> is_pinned r ! f \<longleftrightarrow> f \<notin> set (evictable r)"
    and "(a, f) \<in> set (LRUlist r) \<Longrightarrow> f < max_size r"
    and "(a, f) \<in> set (LRUlist r) \<Longrightarrow> a < next_node r"
  using assms by (auto simp: lru_inv_def)

lemma pin_unpinned:
  "\<not> is_pinned r ! f \<Longrightarrow> LRUhash r f = Some a \<Longrightarrow>
   pin f r = r\<lparr>is_pinned := (is_pinned r)[f := True],
               LRUlist := filter (\<lambda>node. fst node \<noteq> a) (LRUlist r),
               LRUhash := (LRUhash r)(f := None)\<rparr>"
  by (simp add: pin_def Let_def)

lemma unpinned_node:
  assumes "lru_inv r" and "f < max_size r" and "\<not> is_pinned r ! f"
  obtains a where "(a, f) \<in> set (LRUlist r)" and "LRUhash r f = Some a"
proof -
  from assms have "f \<in> snd ` set (LRUlist r)" using lru_invD(6) by (fastforce simp: evictable_def)
  then obtain a where "(a, f) \<in> set (LRUlist r)" by auto
  with that lru_invD(4) [OF assms(1)] show thesis by blast
qed

lemma pin_evictable:
  assumes "lru_inv r" and "f < max_size r"
  shows "evictable (pin f r) = remove1 f (evictable r)"
proof (cases "is_pinned r ! f")
  case True
  with assms have "f \<notin> set (evictable r)" by (auto simp: lru_inv_def)
  with True show ?thesis by (simp add: pin_def remove1_idem)
next
  case False
  then obtain a where a: "(a, f) \<in> set (LRUlist r)" and h: "LRUhash r f = Some a"
    using unpinned_node assms by metis
  show ?thesis
    using filter_addr_remove1 [OF lru_invD(2,3) [OF assms(1)] a]
    by (simp add: evictable_def pin_unpinned [OF False h])
qed

lemma unpin_evictable:
  assumes "lru_inv r" and "f < max_size r"
  shows "evictable (unpin f r) = (if f \<in> set (evictable r) then evictable r else f # evictable r)"
  using assms by (auto simp: unpin_def evictable_def lru_inv_def)

lemma lru_inv_victim: "lru_inv r \<Longrightarrow> lru_inv (snd (victim r))"
proof -
  assume i: "lru_inv r"
  show ?thesis
  proof (cases "LRUlist r" rule: rev_exhaust)
    case Nil
    with i show ?thesis by (simp add: victim_def)
  next
    case (snoc xs x)
    obtain a f where x: "x = (a, f)" by (cases x)
    have "f < max_size r" using i snoc x by (auto simp: lru_inv_def)
    with i snoc x show ?thesis
      by (auto simp: lru_inv_def victim_def Let_def evictable_def nth_list_update image_iff)
  qed
qed

lemma lru_inv_pin:
  assumes i: "lru_inv r" and f: "f < max_size r"
  shows "lru_inv (pin f r)"
proof (cases "is_pinned r ! f")
  case True
  with i show ?thesis by (simp add: pin_def)
next
  case False
  then obtain a where a: "(a, f) \<in> set (LRUlist r)" and h: "LRUhash r f = Some a"
    using unpinned_node assms by metis
  note [simp] = pin_unpinned [OF False h]
  have uniq: "\<And>b g. (b, g) \<in> set (LRUlist r) \<Longrightarrow> b = a \<longleftrightarrow> g = f"
    using lru_invD(2,3) [OF i] a by (metis fst_conv snd_conv distinct_map inj_on_eq_iff)
  have ev: "set (evictable (pin f r)) = set (evictable r) - {f}"
    using pin_evictable [OF assms] lru_invD(3) [OF i] by (simp add: evictable_def)
  show ?thesis
    unfolding lru_inv_def
  proof (intro conjI allI impI)
    show "distinct (map fst (LRUlist (pin f r)))" "distinct (map snd (LRUlist (pin f r)))"
      using lru_invD(2,3) [OF i] by (simp_all add: distinct_map_filter)
    show "LRUhash (pin f r) g = Some b \<longleftrightarrow> (b, g) \<in> set (LRUlist (pin f r))" for g b
      using lru_invD(4) [OF i, of b g] lru_invD(5) [OF i, of g b] uniq [of b g] by auto
    show "is_pinned (pin f r) ! g \<longleftrightarrow> g \<notin> set (evictable (pin f r))" if "g < max_size (pin f r)" for g
      unfolding ev using lru_invD(1) [OF i] lru_invD(6) [OF i, of g] f that
      by (auto simp: nth_list_update simp del: pin_unpinned)
    show "\<forall>(b, g) \<in> set (LRUlist (pin f r)). g < max_size (pin f r) \<and> b < next_node (pin f r)"
      using lru_invD(7,8) [OF i] by auto
  qed (use lru_invD(1) [OF i] in simp)
qed

lemma lru_inv_unpin:
  assumes "lru_inv r" and "f < max_size r"
  shows "lru_inv (unpin f r)"
proof (cases "is_pinned r ! f")
  case False
  with assms show ?thesis by (simp add: unpin_def)
next
  case True
  have nf: "f \<notin> snd ` set (LRUlist r)" using assms True by (auto simp: lru_inv_def evictable_def)
  have na: "next_node r \<notin> fst ` set (LRUlist r)" using assms(1) by (force simp: lru_inv_def)
  from assms True nf na show ?thesis
    by (auto simp: lru_inv_def unpin_def evictable_def nth_list_update less_Suc_eq image_iff)
qed

interpretation lru: replacer victim pin unpin evictable max_size lru_inv
proof
  fix r f
  show "lru_inv r \<Longrightarrow> evictable r = [] \<Longrightarrow> victim r = (None, r)"
    by (simp add: victim_def evictable_def)
  show "lru_inv r \<Longrightarrow> evictable r \<noteq> [] \<Longrightarrow> fst (victim r) = Some (last (evictable r))"
    by (simp add: victim_def evictable_def Let_def last_map)
  show "lru_inv r \<Longrightarrow> distinct (evictable r)"
    by (simp add: lru_inv_def evictable_def)
  show "lru_inv r \<Longrightarrow> f \<in> set (evictable r) \<Longrightarrow> f < max_size r"
    by (auto simp: lru_inv_def evictable_def)
qed (simp_all add: victim_evictable pin_evictable unpin_evictable lru_inv_victim lru_inv_pin lru_inv_unpin)

lemma Size_evictable: "Size r = length (evictable r)"
  by (simp add: Size_def evictable_def)

section \<open>Properties\<close>

text \<open>
  C23. Any sequence of pins, unpins and evictions on a fresh \<^verbatim>\<open>LRUReplacer\<close> (with frame ids below its
  capacity) hands out exactly the frames that the least-recently-unpinned policy on a plain list
  hands out, and \<^verbatim>\<open>Size\<close> reports the length of that list at the end.
\<close>

theorem lru_trace_refines:
  assumes "list_all (replacer_op_in n) ops"
  shows "fst (replacer_run victim pin unpin ops (new_LRUReplacer n)) = fst (lru_run ops []) \<and>
         Size (snd (replacer_run victim pin unpin ops (new_LRUReplacer n))) = length (snd (lru_run ops []))"
proof -
  have "lru_run ops (evictable (new_LRUReplacer n)) =
      (fst (replacer_run victim pin unpin ops (new_LRUReplacer n)),
       evictable (snd (replacer_run victim pin unpin ops (new_LRUReplacer n))))"
    by (rule lru.run_refines) (simp_all add: lru_inv_new assms)
  then show ?thesis by (simp add: Size_evictable)
qed

lemma lru_trace_refines_witness:
  "fst (replacer_run victim pin unpin [Unpin 0, Unpin 2, Unpin 1, Pin 0, Evict, Evict, Evict] (new_LRUReplacer 3))
     = [None, None, None, None, Some 2, Some 1, None]"
  using lru_trace_refines [of 3 "[Unpin 0, Unpin 2, Unpin 1, Pin 0, Evict, Evict, Evict]"] by simp

end
