(* ===== verification/Disk_Manager.thy ===== *)
theory Disk_Manager
  imports Bytes
begin

text \<open>
  The disk manager, \<^verbatim>\<open>src/src/storage/disk_manager.{h,cpp}\<close>, over the part of POSIX it calls:
  files are byte strings named by their path, \<^verbatim>\<open>open\<close> gives the lowest free descriptor, \<^verbatim>\<open>pread\<close> is
  short at the end of the file, \<^verbatim>\<open>pwrite\<close> past the end pads with zeros. The environment decides by
  \<open>write_fault\<close> whether a write delivers only a prefix (a torn write); a write that delivers nothing
  sets \<open>last_errno\<close>, a short one leaves it as it was. \<^verbatim>\<open>mkdir\<close> and \<^verbatim>\<open>rm\<close> run through \<^verbatim>\<open>system\<close>,
  which is a parameter of \<open>create_dir\<close> and \<open>destroy_dir\<close>.
\<close>

section \<open>The operating system\<close>

datatype errno = ENOSPC | EDQUOT | EIO | EBADF | EINVAL

record posix =
  files :: "string \<Rightarrow> bytes option"
  dirs :: "string list"
  fds :: "(int \<times> string) list"
  write_fault :: "(nat \<times> errno) option"
  last_errno :: "errno option"

definition fresh_fd :: "posix \<Rightarrow> int" where
  "fresh_fd w = hd (filter (\<lambda>n. n \<notin> fst ` set (fds w)) [3 .. 3 + int (length (fds w))])"

definition file_write :: "bytes \<Rightarrow> nat \<Rightarrow> bytes \<Rightarrow> bytes" where
  "file_write c off d =
     (if d = [] then c else put_bytes (c @ replicate (off + length d - length c) 0) off d)"

definition sys_open :: "string \<Rightarrow> posix \<Rightarrow> int \<times> posix" where
  "sys_open path w =
     (case files w path of
        None \<Rightarrow> (-1, w)
      | Some _ \<Rightarrow> (fresh_fd w, w\<lparr>fds := (fresh_fd w, path) # fds w\<rparr>))"

definition sys_creat :: "string \<Rightarrow> posix \<Rightarrow> int \<times> posix" where
  "sys_creat path w =
     (if path \<in> set (dirs w) then (-1, w)
      else let w1 = (case files w path of None \<Rightarrow> w\<lparr>files := (files w)(path \<mapsto> [])\<rparr> | Some _ \<Rightarrow> w)
           in sys_open path w1)"

definition sys_close :: "int \<Rightarrow> posix \<Rightarrow> int \<times> posix" where
  "sys_close fd w =
     (if fd \<in> fst ` set (fds w) then (0, w\<lparr>fds := filter (\<lambda>e. fst e \<noteq> fd) (fds w)\<rparr>) else (-1, w))"

definition sys_unlink :: "string \<Rightarrow> posix \<Rightarrow> int \<times> posix" where
  "sys_unlink path w =
     (case files w path of None \<Rightarrow> (-1, w) | Some _ \<Rightarrow> (0, w\<lparr>files := (files w)(path := None)\<rparr>))"

definition delivered :: "posix \<Rightarrow> bytes \<Rightarrow> bytes" where
  "delivered w d = (case write_fault w of None \<Rightarrow> d | Some (k, _) \<Rightarrow> take k d)"

definition sys_pwrite :: "int \<Rightarrow> bytes \<Rightarrow> int \<Rightarrow> posix \<Rightarrow> int \<times> posix" where
  "sys_pwrite fd d off w =
     (case map_of (fds w) fd of
        None \<Rightarrow> (-1, w\<lparr>last_errno := Some EBADF\<rparr>)
      | Some path \<Rightarrow>
          (if off < 0 then (-1, w\<lparr>last_errno := Some EINVAL\<rparr>)
           else if delivered w d = [] \<and> d \<noteq> []
           then (-1, w\<lparr>last_errno := map_option snd (write_fault w)\<rparr>)
           else case files w path of
               None \<Rightarrow> (int (length (delivered w d)), w)
             | Some c \<Rightarrow> (int (length (delivered w d)),
                          w\<lparr>files := (files w)(path \<mapsto> file_write c (nat off) (delivered w d))\<rparr>)))"

definition sys_pread :: "int \<Rightarrow> nat \<Rightarrow> int \<Rightarrow> posix \<Rightarrow> bytes option" where
  "sys_pread fd n off w =
     (case map_of (fds w) fd of
        None \<Rightarrow> None
      | Some path \<Rightarrow>
          (if off < 0 then None
           else case files w path of None \<Rightarrow> None | Some c \<Rightarrow> Some (get_bytes c (nat off) n)))"

section \<open>The disk manager\<close>

definition MAX_FD :: int where "MAX_FD = 8192"

definition LOG_FILE_NAME :: string where "LOG_FILE_NAME = ''db.log''"

record DiskManager =
  path2fd :: "string \<Rightarrow> int option"
  fd2path :: "int \<Rightarrow> string option"
  log_fd :: int
  fd2pageno :: "int \<Rightarrow> page_id_t"
  os :: posix

definition new_DiskManager :: "posix \<Rightarrow> DiskManager" where
  "new_DiskManager w =
     \<lparr>path2fd = Map.empty, fd2path = Map.empty, log_fd = -1, fd2pageno = (\<lambda>_. 0), os = w\<rparr>"

definition write_page :: "int \<Rightarrow> page_id_t \<Rightarrow> bytes \<Rightarrow> DiskManager \<Rightarrow> unit result \<times> DiskManager" where
  "write_page fd pno data d =
     (if fd < 0 then (Throw (InternalError ''DiskManager::write_page Error''), d)
      else
        let write_offset = pno * int PAGE_SIZE in
        case sys_pwrite fd data write_offset (os d) of
          (bytes_written, w) \<Rightarrow>
            (if bytes_written \<noteq> int (length data) then
               (if last_errno w = Some ENOSPC \<or> last_errno w = Some EDQUOT
                then (Throw (InternalError ''Failed to write page due to no space''), d\<lparr>os := w\<rparr>)
                else (Throw (InternalError ''Failed to write page''), d\<lparr>os := w\<rparr>))
             else (Ret (), d\<lparr>os := w\<rparr>)))"

text \<open>
  \<open>read_page\<close> returns the bytes that reached the caller's buffer as well: a short read overwrites
  the front of the buffer before it throws.
\<close>

definition read_page :: "int \<Rightarrow> page_id_t \<Rightarrow> nat \<Rightarrow> DiskManager \<Rightarrow> unit result \<times> bytes" where
  "read_page fd pno num_bytes d =
     (if fd < 0 then (Throw (InternalError ''Invalid file descriptor in read_page''), [])
      else
        case sys_pread fd num_bytes (pno * int PAGE_SIZE) (os d) of
          None \<Rightarrow> (Throw (InternalError ''DiskManager::read_page Error''), [])
        | Some buf \<Rightarrow>
            (if length buf \<noteq> num_bytes
             then (Throw (InternalError ''DiskManager::read_page Error''), buf)
             else (Ret (), buf)))"

definition allocate_page :: "int \<Rightarrow> DiskManager \<Rightarrow> page_id_t result \<times> DiskManager" where
  "allocate_page fd d =
     (if \<not> (0 \<le> fd \<and> fd < MAX_FD) then (Throw AssertionFailure, d)
      else (Ret (fd2pageno d fd), d\<lparr>fd2pageno := (fd2pageno d)(fd := to_i32 (fd2pageno d fd + 1))\<rparr>))"

definition rollback_allocated_page :: "int \<Rightarrow> page_id_t \<Rightarrow> DiskManager \<Rightarrow> bool result \<times> DiskManager" where
  "rollback_allocated_page fd pno d =
     (if \<not> (0 \<le> fd \<and> fd < MAX_FD) then (Throw AssertionFailure, d)
      else if fd2pageno d fd = to_i32 (pno + 1)
      then (Ret True, d\<lparr>fd2pageno := (fd2pageno d)(fd := pno)\<rparr>)
      else (Ret False, d))"

definition set_fd2pageno :: "int \<Rightarrow> int \<Rightarrow> DiskManager \<Rightarrow> DiskManager" where
  "set_fd2pageno fd start_page_no d = d\<lparr>fd2pageno := (fd2pageno d)(fd := start_page_no)\<rparr>"

definition is_dir :: "string \<Rightarrow> DiskManager \<Rightarrow> bool" where
  "is_dir path d \<longleftrightarrow> path \<in> set (dirs (os d))"

definition create_dir :: "(string \<Rightarrow> posix \<Rightarrow> int \<times> posix) \<Rightarrow> string \<Rightarrow> DiskManager \<Rightarrow> unit result \<times> DiskManager" where
  "create_dir sys path d =
     (case sys (''mkdir '' @ path) (os d) of
        (rc, w) \<Rightarrow> (if rc < 0 then Throw UnixError else Ret (), d\<lparr>os := w\<rparr>))"

definition destroy_dir :: "(string \<Rightarrow> posix \<Rightarrow> int \<times> posix) \<Rightarrow> string \<Rightarrow> DiskManager \<Rightarrow> unit result \<times> DiskManager" where
  "destroy_dir sys path d =
     (case sys (''rm -r '' @ path) (os d) of
        (rc, w) \<Rightarrow> (if rc < 0 then Throw UnixError else Ret (), d\<lparr>os := w\<rparr>))"

definition is_file :: "string \<Rightarrow> DiskManager \<Rightarrow> bool" where
  "is_file path d \<longleftrightarrow> files (os d) path \<noteq> None"

definition create_file :: "string \<Rightarrow> DiskManager \<Rightarrow> unit result \<times> DiskManager" where
  "create_file path d =
     (if is_file path d then (Throw (FileExistsError path), d)
      else case sys_creat path (os d) of
        (fd, w) \<Rightarrow>
          (if fd < 0 then (Throw UnixError, d\<lparr>os := w\<rparr>)
           else (Ret (), d\<lparr>os := snd (sys_close fd w)\<rparr>)))"

definition destroy_file :: "string \<Rightarrow> DiskManager \<Rightarrow> unit result \<times> DiskManager" where
  "destroy_file path d =
     (if \<not> is_file path d then (Throw (FileNotFoundError path), d)
      else if path2fd d path \<noteq> None then (Throw (FileNotClosedError path), d)
      else case sys_unlink path (os d) of
        (rc, w) \<Rightarrow> (if rc < 0 then Throw UnixError else Ret (), d\<lparr>os := w\<rparr>))"

definition open_file :: "string \<Rightarrow> DiskManager \<Rightarrow> int result \<times> DiskManager" where
  "open_file path d =
     (case path2fd d path of
        Some fd \<Rightarrow> (Ret fd, d)
      | None \<Rightarrow>
          (case sys_open path (os d) of
             (fd, w) \<Rightarrow>
               (if fd < 0 then (Throw (FileNotFoundError path), d\<lparr>os := w\<rparr>)
                else (Ret fd,
                      d\<lparr>os := w, path2fd := (path2fd d)(path \<mapsto> fd),
                        fd2path := (fd2path d)(fd \<mapsto> path)\<rparr>))))"

definition close_file :: "int \<Rightarrow> DiskManager \<Rightarrow> unit result \<times> DiskManager" where
  "close_file fd d =
     (case fd2path d fd of
        None \<Rightarrow> (Throw (FileNotOpenError fd), d)
      | Some path \<Rightarrow>
          (case sys_close fd (os d) of
             (rc, w) \<Rightarrow>
               (if rc < 0 then (Throw UnixError, d\<lparr>os := w\<rparr>)
                else (Ret (), d\<lparr>os := w, path2fd := (path2fd d)(path := None),
                               fd2path := (fd2path d)(fd := None)\<rparr>))))"

definition get_file_size :: "string \<Rightarrow> DiskManager \<Rightarrow> int" where
  "get_file_size file_name d =
     (case files (os d) file_name of None \<Rightarrow> -1 | Some c \<Rightarrow> to_i32 (int (length c)))"

definition get_file_name :: "int \<Rightarrow> DiskManager \<Rightarrow> string result" where
  "get_file_name fd d =
     (case fd2path d fd of None \<Rightarrow> Throw (FileNotOpenError fd) | Some path \<Rightarrow> Ret path)"

definition get_file_fd :: "string \<Rightarrow> DiskManager \<Rightarrow> int result \<times> DiskManager" where
  "get_file_fd file_name d =
     (case path2fd d file_name of None \<Rightarrow> open_file file_name d | Some fd \<Rightarrow> (Ret fd, d))"

text \<open>The first lines of \<open>read_log\<close> and \<open>write_log\<close>: the log file is opened on first use.\<close>

definition open_log :: "DiskManager \<Rightarrow> int result \<times> DiskManager" where
  "open_log d =
     (if log_fd d = -1
      then (case open_file LOG_FILE_NAME d of
              (Inr fd, d') \<Rightarrow> (Ret fd, d'\<lparr>log_fd := fd\<rparr>)
            | (Inl e, d') \<Rightarrow> (Throw e, d'))
      else (Ret (log_fd d), d))"

text \<open>
  The result of \<open>read_log\<close>: \<open>None\<close> for the return value -1 (the offset is past the end), otherwise
  the bytes read; a short read trips the \<^verbatim>\<open>assert\<close>. Every caller passes a non-negative offset.
\<close>

definition read_log :: "nat \<Rightarrow> nat \<Rightarrow> DiskManager \<Rightarrow> bytes option result \<times> DiskManager" where
  "read_log n offset d =
     (case open_log d of
        (Inl e, d1) \<Rightarrow> (Throw e, d1)
      | (Inr lfd, d1) \<Rightarrow>
             let log_path = (case fd2path d1 lfd of Some p \<Rightarrow> p | None \<Rightarrow> LOG_FILE_NAME);
                 file_size = get_file_size log_path d1
             in if int offset > file_size then (Ret None, d1)
                else
                  let sz = min (int n) (file_size - int offset) in
                  if sz = 0 then (Ret (Some []), d1)
                  else case sys_pread lfd (nat sz) (int offset) (os d1) of
                      None \<Rightarrow> (Throw AssertionFailure, d1)
                    | Some buf \<Rightarrow>
                        (if int (length buf) \<noteq> sz then (Throw AssertionFailure, d1)
                         else (Ret (Some buf), d1)))"

definition write_log :: "bytes \<Rightarrow> DiskManager \<Rightarrow> unit result \<times> DiskManager" where
  "write_log log_data d =
     (case open_log d of
        (Inl e, d1) \<Rightarrow> (Throw e, d1)
      | (Inr lfd, d1) \<Rightarrow>
             let endpos = (case map_of (fds (os d1)) lfd of
                             None \<Rightarrow> 0
                           | Some p \<Rightarrow> (case files (os d1) p of None \<Rightarrow> 0 | Some c \<Rightarrow> int (length c)))
             in case sys_pwrite lfd log_data endpos (os d1) of
                  (bytes_write, w) \<Rightarrow>
                    (if bytes_write \<noteq> int (length log_data) then (Throw UnixError, d1\<lparr>os := w\<rparr>)
                     else (Ret (), d1\<lparr>os := w\<rparr>)))"

section \<open>The page view of the disk and its invariant\<close>

text \<open>The content of a page, when the whole page can be read.\<close>

definition disk_page :: "DiskManager \<Rightarrow> PageId \<Rightarrow> bytes option" where
  "disk_page d p =
     (case read_page (pid_fd p) (pid_page_no p) PAGE_SIZE d of
        (Inr _, buf) \<Rightarrow> Some buf
      | (Inl _, _) \<Rightarrow> None)"

definition disk_write :: "PageId \<Rightarrow> bytes \<Rightarrow> DiskManager \<Rightarrow> unit result \<times> DiskManager" where
  "disk_write p = write_page (pid_fd p) (pid_page_no p)"

text \<open>
  The open-file tables are inverse to each other and agree with the descriptors of the process,
  descriptors are positive and distinct, and every open file exists.
\<close>

definition disk_inv :: "DiskManager \<Rightarrow> bool" where
  "disk_inv d \<longleftrightarrow>
     (\<forall>fd. fd2path d fd = map_of (fds (os d)) fd) \<and>
     (\<forall>fd path. fd2path d fd = Some path \<longleftrightarrow> path2fd d path = Some fd) \<and>
     distinct (map fst (fds (os d))) \<and>
     (\<forall>e \<in> set (fds (os d)). 0 \<le> fst e \<and> files (os d) (snd e) \<noteq> None)"

text \<open>
  What the buffer pool relies on: a successful write of a page makes that content readable, a
  write, successful or torn, keeps every other readable page, and writing a page over itself changes
  nothing.
\<close>

locale page_device =
  fixes pg :: "'d \<Rightarrow> PageId \<Rightarrow> bytes option"
    and wr :: "PageId \<Rightarrow> bytes \<Rightarrow> 'd \<Rightarrow> unit result \<times> 'd"
    and ok :: "'d \<Rightarrow> bool"
  assumes wr_same: "ok d \<Longrightarrow> length x = PAGE_SIZE \<Longrightarrow> wr p x d = (Ret (), d') \<Longrightarrow> pg d' p = Some x"
    and wr_other: "ok d \<Longrightarrow> length x = PAGE_SIZE \<Longrightarrow> wr p x d = (r, d') \<Longrightarrow> q \<noteq> p \<Longrightarrow>
                   pg d q = Some y \<Longrightarrow> pg d' q = Some y"
    and wr_again: "ok d \<Longrightarrow> wr p x d = (r, d') \<Longrightarrow> pg d p = Some x \<Longrightarrow> pg d' p = Some x"
    and wr_ok: "ok d \<Longrightarrow> wr p x d = (r, d') \<Longrightarrow> ok d'"
    and pg_length: "pg d p = Some x \<Longrightarrow> length x = PAGE_SIZE"
begin

text \<open>A page keeps its content under a write, torn or not, of another page or of the same content.\<close>

lemma wr_keeps:
  assumes "ok d" and "length x = PAGE_SIZE" and "wr p x d = (r, d')" and "q \<noteq> p \<or> x = y"
    and "pg d q = Some y"
  shows "pg d' q = Some y"
  using assms wr_other [of d x p r d' q y] wr_again [of d p x r d'] by (cases "q = p") auto

end

section \<open>The disk manager is a page device\<close>

lemma get_bytes_file_write_same:
  "get_bytes (file_write c off d) off (length d) = d"
  by (simp add: file_write_def get_put_same get_bytes_def [of c])

lemma get_bytes_file_write_other:
  assumes "a + n \<le> off \<or> off + length d \<le> a" and "a + n \<le> length c"
  shows "get_bytes (file_write c off d) a n = get_bytes c a n"
proof (cases "d = []")
  case False
  with assms show ?thesis
    unfolding file_write_def by simp (subst get_put_disjoint; auto simp: get_bytes_append1)
qed (simp add: file_write_def)

lemma page_offset:
  "nat (pno * int PAGE_SIZE) = nat pno * PAGE_SIZE"
  "pno * int PAGE_SIZE < 0 \<longleftrightarrow> pno < 0"
  by (cases "0 \<le> pno"; simp add: nat_mult_distrib PAGE_SIZE_def)+

lemma disk_page_Some:
  "disk_page d p = Some x \<longleftrightarrow>
     0 \<le> pid_fd p \<and> 0 \<le> pid_page_no p \<and>
     (\<exists>path c. map_of (fds (os d)) (pid_fd p) = Some path \<and> files (os d) path = Some c \<and>
        x = get_bytes c (nat (pid_page_no p) * PAGE_SIZE) PAGE_SIZE \<and> length x = PAGE_SIZE)"
  (is "?l \<longleftrightarrow> ?r")
proof -
  show ?thesis
    by (auto simp: disk_page_def read_page_def sys_pread_def page_offset split: option.splits if_splits)
qed

lemma page_offsets_disjoint:
  assumes "p \<noteq> (q::nat)"
  shows "p * PAGE_SIZE + PAGE_SIZE \<le> q * PAGE_SIZE \<or> q * PAGE_SIZE + PAGE_SIZE \<le> p * PAGE_SIZE"
proof -
  have "Suc p \<le> q \<or> Suc q \<le> p" using assms by arith
  then show ?thesis by (metis add.commute mult_Suc mult_le_mono1)
qed

lemma delivered_take: "\<exists>k. delivered w x = take k x"
  by (auto simp: delivered_def split: option.split intro: exI [of _ "length x"])

lemma delivered_all: "length (delivered w x) = length x \<Longrightarrow> delivered w x = x"
  by (auto simp: delivered_def split: option.splits)

lemma sys_pwriteE:
  assumes "sys_pwrite fd x off w = (n, w')"
  obtains (fail) "n = -1" and "files w' = files w" and "fds w' = fds w"
  | (ghost) path where "n = int (length (delivered w x))" and "map_of (fds w) fd = Some path"
      and "files w path = None" and "w' = w"
  | (wrote) path c where "n = int (length (delivered w x))" and "0 \<le> off" and "map_of (fds w) fd = Some path"
      and "files w path = Some c"
      and "w' = w\<lparr>files := (files w)(path \<mapsto> file_write c (nat off) (delivered w x))\<rparr>"
proof (cases "map_of (fds w) fd = None \<or> off < 0 \<or> (delivered w x = [] \<and> x \<noteq> [])")
  case True
  with assms show thesis by (intro fail) (auto simp: sys_pwrite_def split: option.splits if_splits)
next
  case False
  then obtain path where p: "map_of (fds w) fd = Some path" "0 \<le> off" "\<not> (delivered w x = [] \<and> x \<noteq> [])"
    by auto
  show thesis
  proof (cases "files w path")
    case None
    with p assms show thesis by (intro ghost [of path]) (auto simp: sys_pwrite_def)
  next
    case (Some c)
    with p assms show thesis by (intro wrote [of path c]) (auto simp: sys_pwrite_def)
  qed
qed

lemma write_pageE:
  assumes "write_page fd pno x d = (r, d')"
  obtains (fail) e where "r = Throw e" and "files (os d') = files (os d)" and "fds (os d') = fds (os d)"
  | (ghost) path where "map_of (fds (os d)) fd = Some path" and "files (os d) path = None" and "d' = d"
  | (wrote) path c y k where "0 \<le> fd" and "0 \<le> pno" and "y = take k x" and "r = Ret () \<Longrightarrow> y = x"
      and "map_of (fds (os d)) fd = Some path" and "files (os d) path = Some c"
      and "d' = d\<lparr>os := (os d)\<lparr>files := (files (os d))(path \<mapsto> file_write c (nat pno * PAGE_SIZE) y)\<rparr>\<rparr>"
proof (cases "fd < 0")
  case True
  with assms show thesis by (intro fail) (auto simp: write_page_def)
next
  case False
  obtain n w' where w: "sys_pwrite fd x (pno * int PAGE_SIZE) (os d) = (n, w')"
    by (cases "sys_pwrite fd x (pno * int PAGE_SIZE) (os d)")
  have d': "d' = d\<lparr>os := w'\<rparr>" and r: "r = Ret () \<longleftrightarrow> n = int (length x)" and r': "r = Ret () \<or> (\<exists>e. r = Throw e)"
    using assms False w by (auto simp: write_page_def split: if_splits)
  from w show thesis
  proof (cases rule: sys_pwriteE)
    case fail
    then obtain e where "r = Throw e" using r r' by auto
    with fail d' show thesis using that(1) by simp
  next
    case (ghost path)
    with d' show thesis using that(2) by simp
  next
    case (wrote path c)
    moreover have "0 \<le> pno" using wrote(2) page_offset(2) [of pno] by linarith
    moreover obtain k where "delivered (os d) x = take k x" using delivered_take by blast
    ultimately show thesis
      using that(3) [of "delivered (os d) x" k path c] d' False r delivered_all [of "os d" x]
      by (simp add: page_offset)
  qed
qed

lemma disk_fd_path_inj:
  assumes "disk_inv d" and "map_of (fds (os d)) fd = Some path" and "map_of (fds (os d)) fd' = Some path"
  shows "fd = fd'"
  using assms by (metis disk_inv_def option.inject)

lemma disk_page_congI:
  assumes "files (os d') = files (os d)" and "fds (os d') = fds (os d)"
  shows "disk_page d' = disk_page d"
proof -
  have "disk_page d' p = Some x \<longleftrightarrow> disk_page d p = Some x" for p x
    by (simp add: disk_page_Some assms)
  then show ?thesis by (metis ext option.exhaust)
qed

lemma disk_inv_open_exists:
  assumes "disk_inv d" and "map_of (fds (os d)) fd = Some path"
  shows "\<exists>c. files (os d) path = Some c"
  using assms by (auto simp: disk_inv_def dest!: map_of_SomeD bspec)

lemma disk_write_other:
  assumes i: "disk_inv d" and l: "length x \<le> PAGE_SIZE" and w: "disk_write p x d = (r, d')"
    and qp: "q \<noteq> p" and y: "disk_page d q = Some y"
  shows "disk_page d' q = Some y"
  using w unfolding disk_write_def
proof (cases rule: write_pageE)
  case fail
  with y show ?thesis using disk_page_congI by metis
next
  case ghost
  with y show ?thesis by simp
next
  case (wrote path c z k)
  from y obtain qpath qc where q: "0 \<le> pid_fd q" "0 \<le> pid_page_no q"
      "map_of (fds (os d)) (pid_fd q) = Some qpath" "files (os d) qpath = Some qc"
      "y = get_bytes qc (nat (pid_page_no q) * PAGE_SIZE) PAGE_SIZE" "length y = PAGE_SIZE"
    by (auto simp: disk_page_Some)
  show ?thesis
  proof (cases "qpath = path")
    case False
    with q wrote show ?thesis by (auto simp: disk_page_Some)
  next
    case True
    then have "pid_fd q = pid_fd p" using disk_fd_path_inj [OF i] q(3) wrote(5) by simp
    then have ne: "nat (pid_page_no p) \<noteq> nat (pid_page_no q)"
      using qp q(2) wrote(2) by (cases p, cases q) auto
    have "nat (pid_page_no q) * PAGE_SIZE + PAGE_SIZE \<le> length qc"
      using q(5,6) by (simp add: get_bytes_def PAGE_SIZE_def min_def split: if_splits)
    then have "get_bytes (file_write qc (nat (pid_page_no p) * PAGE_SIZE) z) (nat (pid_page_no q) * PAGE_SIZE) PAGE_SIZE = y"
      using page_offsets_disjoint [OF ne] q(5) l wrote(3) by (subst get_bytes_file_write_other) auto
    with q wrote True show ?thesis by (auto simp: disk_page_Some)
  qed
qed

lemma disk_write_same:
  assumes i: "disk_inv d" and l: "length x = PAGE_SIZE" and w: "disk_write p x d = (Ret (), d')"
  shows "disk_page d' p = Some x"
  using w unfolding disk_write_def
proof (cases rule: write_pageE)
  case (ghost path)
  with disk_inv_open_exists [OF i] show ?thesis by fastforce
next
  case (wrote path c)
  then show ?thesis
    using get_bytes_file_write_same [of c "nat (pid_page_no p) * PAGE_SIZE" x] l
    by (auto simp: disk_page_Some)
qed simp

lemma put_bytes_take_same:
  assumes "x = get_bytes c off n" and "off + n \<le> length c"
  shows "put_bytes c off (take k x) = c"
proof -
  have t: "take k x = take (min k n) (drop off c)"
    using assms by (simp add: get_bytes_def min.commute)
  show ?thesis
    unfolding t put_bytes_def using assms(2)
    by (simp add: min_def) (metis append_take_drop_id drop_drop add.commute append.assoc take_add)
qed

lemma disk_write_again:
  assumes w: "disk_write p x d = (r, d')" and p: "disk_page d p = Some x"
  shows "disk_page d' p = Some x"
  using w unfolding disk_write_def
proof (cases rule: write_pageE)
  case fail
  with p show ?thesis using disk_page_congI by metis
next
  case ghost
  with p show ?thesis by simp
next
  case (wrote path c y k)
  from p wrote(5,6) have x: "x = get_bytes c (nat (pid_page_no p) * PAGE_SIZE) PAGE_SIZE" "length x = PAGE_SIZE"
    by (auto simp: disk_page_Some)
  then have l: "nat (pid_page_no p) * PAGE_SIZE + PAGE_SIZE \<le> length c"
    by (simp add: get_bytes_def PAGE_SIZE_def min_def split: if_splits)
  then have "nat (pid_page_no p) * PAGE_SIZE + length y - length c = 0"
    using wrote(3) x(2) by simp
  then have "file_write c (nat (pid_page_no p) * PAGE_SIZE) y = c"
    using put_bytes_take_same [OF x(1) l] wrote(3) by (simp add: file_write_def)
  then have "files (os d') = files (os d)" using wrote by (simp add: fun_upd_idem)
  with p show ?thesis using disk_page_congI [of d' d] wrote(7) by simp
qed

lemma write_page_tables:
  "write_page fd pno x d = (r, d') \<Longrightarrow> path2fd d' = path2fd d \<and> fd2path d' = fd2path d \<and> fds (os d') = fds (os d)"
  by (auto simp: write_page_def sys_pwrite_def Let_def split: if_splits prod.splits option.splits)

lemma disk_inv_files:
  assumes "disk_inv d" and "path2fd d' = path2fd d" and "fd2path d' = fd2path d" and "fds (os d') = fds (os d)"
    and "\<And>path. files (os d) path \<noteq> None \<Longrightarrow> files (os d') path \<noteq> None"
  shows "disk_inv d'"
  using assms(1,5) unfolding disk_inv_def assms(2-4) by blast

lemma disk_inv_write:
  assumes i: "disk_inv d" and w: "disk_write p x d = (r, d')"
  shows "disk_inv d'"
proof (rule disk_inv_files [OF i])
  show "files (os d) path \<noteq> None \<Longrightarrow> files (os d') path \<noteq> None" for path
    using w unfolding disk_write_def by (cases rule: write_pageE) auto
qed (use w write_page_tables in \<open>unfold disk_write_def, blast+\<close>)

interpretation disk: page_device disk_page disk_write disk_inv
proof
  fix d x p
  show "disk_page d p = Some x \<Longrightarrow> length x = PAGE_SIZE"
    by (auto simp: disk_page_Some)
qed (fact disk_write_same, rule disk_write_other [OF _ eq_refl], assumption+, rule disk_write_again, assumption+,
    fact disk_inv_write)

section \<open>The open-file tables\<close>

lemma fresh_fd_props:
  "fresh_fd w \<notin> fst ` set (fds w)" "3 \<le> fresh_fd w"
proof -
  let ?S = "[3 .. 3 + int (length (fds w))]" and ?F = "fst ` set (fds w)"
  have "card ?F < card (set ?S)"
    using card_image_le [of "set (fds w)" fst] card_length [of "fds w"] by simp
  then have "\<not> set ?S \<subseteq> ?F"
    using card_mono [of ?F "set ?S"] by auto
  then have "filter (\<lambda>n. n \<notin> ?F) ?S \<noteq> []"
    by (auto simp: filter_empty_conv)
  then have "fresh_fd w \<in> set (filter (\<lambda>n. n \<notin> ?F) ?S)"
    unfolding fresh_fd_def by (rule hd_in_set)
  then show "fresh_fd w \<notin> ?F" "3 \<le> fresh_fd w" by auto
qed

lemma fresh_fd_simps [simp]: "fresh_fd (w\<lparr>files := f\<rparr>) = fresh_fd w" "\<not> fresh_fd w < 0"
  using fresh_fd_props(2) [of w] by (auto simp: fresh_fd_def)

lemma disk_inv_new: "fds w = [] \<Longrightarrow> disk_inv (new_DiskManager w)"
  by (simp add: disk_inv_def new_DiskManager_def)

lemma disk_inv_path_file:
  assumes "disk_inv d" and "path2fd d path = Some fd"
  shows "map_of (fds (os d)) fd = Some path"
  using assms unfolding disk_inv_def by metis

text \<open>Opening returns the descriptor of the path and leaves the files alone.\<close>

lemma open_fileE:
  assumes "open_file path d = (r, d')"
  obtains (already) fd where "path2fd d path = Some fd" and "r = Ret fd" and "d' = d"
  | (missing) "files (os d) path = None" and "r = Throw (FileNotFoundError path)" and "d' = d"
  | (opened) "path2fd d path = None" and "files (os d) path \<noteq> None" and "r = Ret (fresh_fd (os d))"
      and "d' = d\<lparr>os := (os d)\<lparr>fds := (fresh_fd (os d), path) # fds (os d)\<rparr>,
                 path2fd := (path2fd d)(path \<mapsto> fresh_fd (os d)),
                 fd2path := (fd2path d)(fresh_fd (os d) \<mapsto> path)\<rparr>"
proof (cases "path2fd d path")
  case (Some fd)
  with assms show thesis by (intro already [of fd]) (auto simp: open_file_def)
next
  case None
  show thesis
  proof (cases "files (os d) path")
    case None
    with \<open>path2fd d path = None\<close> assms show thesis
      by (intro missing) (auto simp: open_file_def sys_open_def)
  next
    case (Some c)
    with \<open>path2fd d path = None\<close> assms fresh_fd_props(2) [of "os d"] show thesis
      by (intro opened) (auto simp: open_file_def sys_open_def)
  qed
qed

lemma disk_inv_open:
  assumes i: "disk_inv d" and o: "open_file path d = (r, d')"
  shows "disk_inv d'"
  using o
proof (cases rule: open_fileE)
  case opened
  let ?f = "fresh_fd (os d)"
  have f: "fd2path d ?f = None"
    using i fresh_fd_props(1) [of "os d"] by (simp add: disk_inv_def map_of_eq_None_iff)
  have "path2fd d p \<noteq> Some ?f" for p
    using f i by (metis disk_inv_def option.distinct(1))
  moreover have "fd2path d fd \<noteq> Some path" for fd
    using opened(1) i by (metis disk_inv_def option.distinct(1))
  moreover have "fd2path d fd = map_of (fds (os d)) fd" "fd2path d fd = Some p \<longleftrightarrow> path2fd d p = Some fd" for fd p
    using i unfolding disk_inv_def by metis+
  ultimately show ?thesis
    using i opened fresh_fd_props [of "os d"] by (simp add: disk_inv_def)
qed (use i in simp_all)

lemma map_of_filter_fst:
  "map_of (filter (\<lambda>e. fst e \<noteq> k) xs) f = (if f = k then None else map_of xs f)"
  by (induction xs) auto

lemma disk_inv_close:
  assumes i: "disk_inv d" and c: "close_file fd d = (r, d')"
  shows "disk_inv d'"
proof (cases "fd2path d fd")
  case None
  with i c show ?thesis by (simp add: close_file_def)
next
  case (Some path)
  have eq: "fd2path d f = map_of (fds (os d)) f" "fd2path d f = Some p \<longleftrightarrow> path2fd d p = Some f" for f p
    using i unfolding disk_inv_def by metis+
  have "fd \<in> fst ` set (fds (os d))"
    using Some eq(1) [of fd] by (force dest: map_of_SomeD)
  then have d': "d' = d\<lparr>os := (os d)\<lparr>fds := filter (\<lambda>e. fst e \<noteq> fd) (fds (os d))\<rparr>,
                     path2fd := (path2fd d)(path := None), fd2path := (fd2path d)(fd := None)\<rparr>"
    using c Some by (simp add: close_file_def sys_close_def)
  have path: "path2fd d p = Some fd \<longleftrightarrow> p = path" for p
    using eq(2) [of fd p] Some by auto
  show ?thesis
    unfolding disk_inv_def
  proof (intro conjI allI)
    show "fd2path d' f = map_of (fds (os d')) f" for f
      by (simp add: d' map_of_filter_fst eq(1))
    show "fd2path d' f = Some p \<longleftrightarrow> path2fd d' p = Some f" for f p
      using path [of p] eq(2) [of f p] by (cases "f = fd"; cases "p = path"; simp add: d')
    have "distinct (map fst (fds (os d)))" and "\<forall>e \<in> set (fds (os d)). 0 \<le> fst e \<and> files (os d) (snd e) \<noteq> None"
      using i unfolding disk_inv_def by blast+
    then show "distinct (map fst (fds (os d')))"
      and "\<forall>e \<in> set (fds (os d')). 0 \<le> fst e \<and> files (os d') (snd e) \<noteq> None"
      by (simp_all add: d' distinct_map_filter)
  qed
qed

lemma create_file_effect:
  assumes "create_file path d = (r, d')"
  shows "path2fd d' = path2fd d \<and> fd2path d' = fd2path d \<and> fds (os d') = fds (os d) \<and>
         (\<forall>p c. files (os d) p = Some c \<longrightarrow> files (os d') p = Some c)"
proof -
  have "filter (\<lambda>e. fst e \<noteq> fresh_fd w) (fds w) = fds w" for w
    using fresh_fd_props(1) [of w] by (force simp: filter_id_conv)
  then show ?thesis
    using assms
    by (auto simp: create_file_def is_file_def sys_creat_def sys_open_def sys_close_def Let_def split: if_splits)
qed

lemma destroy_file_effect:
  assumes "destroy_file path d = (r, d')"
  shows "path2fd d' = path2fd d \<and> fd2path d' = fd2path d \<and> fds (os d') = fds (os d) \<and>
         (\<forall>p. path2fd d p \<noteq> None \<longrightarrow> files (os d') p = files (os d) p)"
  using assms by (auto simp: destroy_file_def is_file_def sys_unlink_def split: if_splits option.splits)

lemma disk_inv_files_open:
  assumes i: "disk_inv d" and t: "path2fd d' = path2fd d" "fd2path d' = fd2path d" "fds (os d') = fds (os d)"
    and f: "\<And>path. path2fd d path \<noteq> None \<Longrightarrow> files (os d) path \<noteq> None \<Longrightarrow> files (os d') path \<noteq> None"
  shows "disk_inv d'"
proof -
  have "files (os d') (snd e) \<noteq> None" if "e \<in> set (fds (os d))" for e
  proof -
    have "map_of (fds (os d)) (fst e) = Some (snd e)"
      using that i by (simp add: disk_inv_def)
    then have "path2fd d (snd e) \<noteq> None" using i unfolding disk_inv_def by (metis option.distinct(1))
    moreover have "files (os d) (snd e) \<noteq> None" using that i by (simp add: disk_inv_def)
    ultimately show ?thesis by (rule f)
  qed
  then show ?thesis
    using i unfolding disk_inv_def t by blast
qed

text \<open>Appending to the log leaves the tables alone once the log is open and only extends files.\<close>

lemma open_logE:
  assumes "open_log d = (r, d')"
  obtains (skip) "r = Ret (log_fd d)" and "d' = d"
  | (opened) d1 where "open_file LOG_FILE_NAME d = (r, d1)" and "d' = d1 \<or> (\<exists>fd. d' = d1\<lparr>log_fd := fd\<rparr>)"
proof (cases "log_fd d = -1")
  case False
  with assms show thesis by (intro skip) (auto simp: open_log_def)
next
  case True
  obtain r1 d1 where o: "open_file LOG_FILE_NAME d = (r1, d1)" by fastforce
  with True assms show thesis
    by (intro opened [of d1]) (auto simp: open_log_def split: sum.splits)
qed

lemma disk_inv_log_fd [simp]: "disk_inv (d\<lparr>log_fd := fd\<rparr>) = disk_inv d"
  by (simp add: disk_inv_def)

lemma disk_page_log_fd [simp]: "disk_page (d\<lparr>log_fd := fd\<rparr>) = disk_page d"
  by (rule disk_page_congI) simp_all

lemma disk_inv_fd2pageno [simp]: "disk_inv (d\<lparr>fd2pageno := m\<rparr>) = disk_inv d"
  by (simp add: disk_inv_def)

lemma disk_page_fd2pageno [simp]: "disk_page (d\<lparr>fd2pageno := m\<rparr>) = disk_page d"
  by (rule disk_page_congI) simp_all

lemma disk_page_keep:
  assumes "disk_page d p = Some x" and "map_of (fds (os d')) (pid_fd p) = map_of (fds (os d)) (pid_fd p)"
    and "\<And>path c. map_of (fds (os d)) (pid_fd p) = Some path \<Longrightarrow> files (os d) path = Some c \<Longrightarrow>
           \<exists>t. files (os d') path = Some (c @ t)"
  shows "disk_page d' p = Some x"
proof -
  from assms(1) obtain path c where p: "0 \<le> pid_fd p" "0 \<le> pid_page_no p"
      "map_of (fds (os d)) (pid_fd p) = Some path" "files (os d) path = Some c"
      "x = get_bytes c (nat (pid_page_no p) * PAGE_SIZE) PAGE_SIZE" "length x = PAGE_SIZE"
    by (auto simp: disk_page_Some)
  moreover obtain t where "files (os d') path = Some (c @ t)" using assms(3) p by blast
  moreover have "nat (pid_page_no p) * PAGE_SIZE + PAGE_SIZE \<le> length c"
    using p(5,6) by (simp add: get_bytes_def PAGE_SIZE_def min_def split: if_splits)
  then have "get_bytes (c @ t) (nat (pid_page_no p) * PAGE_SIZE) PAGE_SIZE = x"
    using p(5) by (simp add: get_bytes_append1)
  ultimately show ?thesis using assms(2) by (auto simp: disk_page_Some)
qed

lemma disk_page_open:
  assumes i: "disk_inv d" and o: "open_file path d = (r, d')" and p: "disk_page d q = Some x"
  shows "disk_page d' q = Some x"
  using o
proof (cases rule: open_fileE)
  case opened
  have "map_of (fds (os d)) (pid_fd q) \<noteq> None" using p by (auto simp: disk_page_Some)
  then have "pid_fd q \<in> fst ` set (fds (os d))"
    by (simp add: map_of_eq_None_iff)
  then have "pid_fd q \<noteq> fresh_fd (os d)" using fresh_fd_props(1) [of "os d"] by metis
  with opened show ?thesis
    by (intro disk_page_keep [OF p]) auto
qed (use p in simp_all)

lemma file_write_append: "file_write c (length c) y = c @ y"
  by (simp add: file_write_def put_bytes_def)

lemma write_logE:
  assumes "write_log x d = (r, d')"
  obtains r1 d1 where "open_log d = (r1, d1)" and "path2fd d' = path2fd d1" and "fd2path d' = fd2path d1"
    and "fds (os d') = fds (os d1)"
    and "\<forall>path c. files (os d1) path = Some c \<longrightarrow> (\<exists>t. files (os d') path = Some (c @ t))"
proof -
  obtain r1 d1 where o: "open_log d = (r1, d1)" by fastforce
  show thesis
  proof (cases r1)
    case (Inl e)
    with o assms show thesis by (intro that [OF o]) (auto simp: write_log_def)
  next
    case (Inr lfd)
    let ?e = "case map_of (fds (os d1)) lfd of None \<Rightarrow> 0
              | Some p \<Rightarrow> (case files (os d1) p of None \<Rightarrow> 0 | Some c \<Rightarrow> int (length c))"
    obtain n w where w: "sys_pwrite lfd x ?e (os d1) = (n, w)" by fastforce
    then have d': "d' = d1\<lparr>os := w\<rparr>" using assms o Inr by (auto simp: write_log_def Let_def split: if_splits)
    from w have "fds w = fds (os d1) \<and> (\<forall>path c. files (os d1) path = Some c \<longrightarrow> (\<exists>t. files w path = Some (c @ t)))"
      by (cases rule: sys_pwriteE) (auto simp: file_write_append)
    then show thesis by (intro that [OF o]) (auto simp: d')
  qed
qed

section \<open>Sequences of disk operations\<close>

datatype disk_op =
    Write_page int page_id_t bytes
  | Allocate_page int
  | Rollback_page int page_id_t
  | Create_file string
  | Destroy_file string
  | Open_file string
  | Close_file int
  | Write_log bytes
  | Read_log nat nat

fun disk_step :: "disk_op \<Rightarrow> DiskManager \<Rightarrow> DiskManager" where
  "disk_step (Write_page fd pno x) d = snd (write_page fd pno x d)"
| "disk_step (Allocate_page fd) d = snd (allocate_page fd d)"
| "disk_step (Rollback_page fd pno) d = snd (rollback_allocated_page fd pno d)"
| "disk_step (Create_file path) d = snd (create_file path d)"
| "disk_step (Destroy_file path) d = snd (destroy_file path d)"
| "disk_step (Open_file path) d = snd (open_file path d)"
| "disk_step (Close_file fd) d = snd (close_file fd d)"
| "disk_step (Write_log x) d = snd (write_log x d)"
| "disk_step (Read_log n off) d = snd (read_log n off d)"

fun disk_run :: "disk_op list \<Rightarrow> DiskManager \<Rightarrow> DiskManager" where
  "disk_run [] d = d"
| "disk_run (a # as) d = disk_run as (disk_step a d)"

text \<open>The operations that may change what page \<open>p\<close> holds or close its file.\<close>

fun touches :: "PageId \<Rightarrow> disk_op \<Rightarrow> bool" where
  "touches p (Write_page fd pno x) \<longleftrightarrow> PageId fd pno = p \<or> length x > PAGE_SIZE"
| "touches p (Close_file fd) \<longleftrightarrow> fd = pid_fd p"
| "touches p _ \<longleftrightarrow> False"

lemma allocate_page_snd:
  "\<exists>m. snd (allocate_page fd d) = d\<lparr>fd2pageno := m\<rparr>"
  by (cases d) (auto simp: allocate_page_def)

lemma rollback_page_snd:
  "\<exists>m. snd (rollback_allocated_page fd pno d) = d\<lparr>fd2pageno := m\<rparr>"
  by (cases d) (auto simp: rollback_allocated_page_def)

lemma read_log_snd: "snd (read_log n off d) = snd (open_log d)"
  by (auto simp: read_log_def Let_def split: prod.split sum.split option.split)

lemma open_log_keeps:
  assumes "disk_inv d" and "open_log d = (r, d')"
  shows "disk_inv d'" "disk_page d q = Some x \<Longrightarrow> disk_page d' q = Some x"
  using assms(2)
  by (cases rule: open_logE; use assms(1) in \<open>auto dest: disk_inv_open disk_page_open\<close>)+

lemma write_log_keeps:
  assumes "disk_inv d" and w: "write_log y d = (r, d')"
  shows "disk_inv d'" "disk_page d q = Some x \<Longrightarrow> disk_page d' q = Some x"
proof -
  from w obtain r1 d1 where o: "open_log d = (r1, d1)" and t: "path2fd d' = path2fd d1" "fd2path d' = fd2path d1"
      "fds (os d') = fds (os d1)"
      and f: "\<forall>path c. files (os d1) path = Some c \<longrightarrow> (\<exists>t. files (os d') path = Some (c @ t))"
    by (rule write_logE)
  note k = open_log_keeps [OF assms(1) o]
  show "disk_inv d'"
    using k(1) t by (rule disk_inv_files) (use f in fastforce)
  show "disk_page d q = Some x \<Longrightarrow> disk_page d' q = Some x"
    by (rule disk_page_keep [OF k(2)]) (use t f in auto)
qed

lemma disk_inv_step:
  assumes i: "disk_inv d" shows "disk_inv (disk_step a d)"
proof (cases a)
  case (Write_page fd pno x)
  then show ?thesis
    using disk_inv_write [OF i, of "PageId fd pno" x] by (cases "write_page fd pno x d") (simp add: disk_write_def)
next
  case (Allocate_page fd)
  then show ?thesis using i allocate_page_snd [of fd d] by auto
next
  case (Rollback_page fd pno)
  then show ?thesis using i rollback_page_snd [of fd pno d] by auto
next
  case (Create_file path)
  obtain r d' where c: "create_file path d = (r, d')" by fastforce
  note e = create_file_effect [OF c]
  have "disk_inv d'" by (rule disk_inv_files [OF i]) (use e in auto)
  with Create_file c show ?thesis by simp
next
  case (Destroy_file path)
  obtain r d' where c: "destroy_file path d = (r, d')" by fastforce
  note e = destroy_file_effect [OF c]
  have "disk_inv d'" by (rule disk_inv_files_open [OF i]) (use e in auto)
  with Destroy_file c show ?thesis by simp
next
  case (Open_file path)
  then show ?thesis using disk_inv_open [OF i] by (cases "open_file path d") simp
next
  case (Close_file fd)
  then show ?thesis using disk_inv_close [OF i] by (cases "close_file fd d") simp
next
  case (Write_log x)
  then show ?thesis using write_log_keeps(1) [OF i] by (cases "write_log x d") simp
next
  case (Read_log n off)
  then show ?thesis using open_log_keeps(1) [OF i] by (cases "open_log d") (simp add: read_log_snd)
qed

lemma disk_inv_run: "disk_inv d \<Longrightarrow> disk_inv (disk_run as d)"
  by (induction as arbitrary: d) (simp_all add: disk_inv_step)

lemma disk_page_close:
  assumes "close_file fd d = (r, d')" and "fd \<noteq> pid_fd p" and "disk_page d p = Some x"
  shows "disk_page d' p = Some x"
  using assms(1,2)
  by (intro disk_page_keep [OF assms(3)])
    (auto simp: close_file_def sys_close_def map_of_filter_fst split: option.splits if_splits)

lemma disk_page_step:
  assumes i: "disk_inv d" and n: "\<not> touches p a" and p: "disk_page d p = Some x"
  shows "disk_page (disk_step a d) p = Some x"
proof (cases a)
  case (Write_page fd pno y)
  then show ?thesis
    using disk_write_other [OF i, of y "PageId fd pno" _ _ p x] n p
    by (cases "write_page fd pno y d") (auto simp: disk_write_def)
next
  case (Allocate_page fd)
  then show ?thesis using p allocate_page_snd [of fd d] by auto
next
  case (Rollback_page fd pno)
  then show ?thesis using p rollback_page_snd [of fd pno d] by auto
next
  case (Create_file path)
  obtain r d' where c: "create_file path d = (r, d')" by fastforce
  show ?thesis
    by (rule disk_page_keep [OF p]) (use create_file_effect [OF c] c Create_file in auto)
next
  case (Destroy_file path)
  obtain r d' where c: "destroy_file path d = (r, d')" by fastforce
  have "path2fd d path' = Some fd" if "map_of (fds (os d)) fd = Some path'" for fd path'
    using that i unfolding disk_inv_def by metis
  then show ?thesis
    by (intro disk_page_keep [OF p]) (use destroy_file_effect [OF c] c Destroy_file in auto)
next
  case (Open_file path)
  then show ?thesis using disk_page_open [OF i _ p] by (cases "open_file path d") simp
next
  case (Close_file fd)
  then show ?thesis using disk_page_close [OF _ _ p] n by (cases "close_file fd d") simp
next
  case (Write_log y)
  then show ?thesis using write_log_keeps(2) [OF i _ p] by (cases "write_log y d") simp
next
  case (Read_log n off)
  then show ?thesis using open_log_keeps(2) [OF i _ p] by (cases "open_log d") (simp add: read_log_snd)
qed

lemma disk_page_run:
  "disk_inv d \<Longrightarrow> \<forall>a \<in> set as. \<not> touches p a \<Longrightarrow> disk_page d p = Some x \<Longrightarrow>
   disk_page (disk_run as d) p = Some x"
  by (induction as arbitrary: d) (simp_all add: disk_inv_step disk_page_step)

section \<open>The log file\<close>

text \<open>The content of the open log file.\<close>

definition log_content :: "DiskManager \<Rightarrow> bytes" where
  "log_content d =
     (case map_of (fds (os d)) (log_fd d) of
        None \<Rightarrow> []
      | Some path \<Rightarrow> (case files (os d) path of None \<Rightarrow> [] | Some c \<Rightarrow> c))"

definition log_ready :: "DiskManager \<Rightarrow> bool" where
  "log_ready d \<longleftrightarrow> disk_inv d \<and> log_fd d \<noteq> -1 \<and> map_of (fds (os d)) (log_fd d) \<noteq> None"

text \<open>
  What the log manager relies on: a successful append extends the log by exactly the bytes given,
  a failed one by some prefix of them.
\<close>

locale log_device =
  fixes app :: "bytes \<Rightarrow> 'd \<Rightarrow> unit result \<times> 'd"
    and cont :: "'d \<Rightarrow> bytes"
    and ready :: "'d \<Rightarrow> bool"
  assumes app_ok: "ready d \<Longrightarrow> app x d = (Ret (), d') \<Longrightarrow> cont d' = cont d @ x"
    and app_fail: "ready d \<Longrightarrow> app x d = (Throw e, d') \<Longrightarrow> \<exists>k. cont d' = cont d @ take k x"
    and app_ready: "ready d \<Longrightarrow> app x d = (r, d') \<Longrightarrow> ready d'"
begin

text \<open>Whatever the outcome, the old content stays and nothing but a prefix of the batch follows.\<close>

lemma app_extends:
  assumes "ready d" and "app x d = (r, d')"
  shows "\<exists>k. cont d' = cont d @ take k x"
proof (cases r)
  case (Inl e)
  then show ?thesis using app_fail assms by blast
next
  case (Inr u)
  then show ?thesis using app_ok [of d x d'] assms by (auto intro: exI [of _ "length x"])
qed

end

lemma log_readyE:
  assumes "log_ready d"
  obtains path c where "disk_inv d" and "log_fd d \<noteq> -1" and "map_of (fds (os d)) (log_fd d) = Some path"
    and "files (os d) path = Some c" and "log_content d = c"
proof -
  obtain path where p: "map_of (fds (os d)) (log_fd d) = Some path" and i: "disk_inv d" "log_fd d \<noteq> -1"
    using assms by (auto simp: log_ready_def)
  obtain c where "files (os d) path = Some c" using disk_inv_open_exists [OF i(1) p] by blast
  with p i show thesis by (intro that) (simp_all add: log_content_def)
qed

lemma write_log_ready:
  assumes "log_ready d" and "write_log x d = (r, d')"
  shows "log_ready d'" and "\<exists>k. log_content d' = log_content d @ take k x"
    and "r = Ret () \<Longrightarrow> log_content d' = log_content d @ x"
proof -
  from assms(1) obtain path c where d: "disk_inv d" "log_fd d \<noteq> -1" "map_of (fds (os d)) (log_fd d) = Some path"
      "files (os d) path = Some c" "log_content d = c"
    by (rule log_readyE)
  obtain n w where w: "sys_pwrite (log_fd d) x (int (length c)) (os d) = (n, w)" by fastforce
  have d': "d' = d\<lparr>os := w\<rparr>" and r: "r = Ret () \<longleftrightarrow> n = int (length x)"
    using assms(2) d w by (auto simp: write_log_def open_log_def split: if_splits)
  have inv: "disk_inv d'" using write_log_keeps(1) [OF d(1) assms(2)] .
  from w have "fds w = fds (os d) \<and> (\<exists>k. files w path = Some (c @ take k x)) \<and>
      (n = int (length x) \<longrightarrow> files w path = Some (c @ x))"
  proof (cases rule: sys_pwriteE)
    case fail
    then show ?thesis using d by (auto intro: exI [of _ 0])
  next
    case (wrote path' c')
    then show ?thesis
      using d delivered_take [of "os d" x] delivered_all [of "os d" x] by (auto simp: file_write_append)
  qed (use d in auto)
  then show "log_ready d'" "\<exists>k. log_content d' = log_content d @ take k x"
    "r = Ret () \<Longrightarrow> log_content d' = log_content d @ x"
    using inv d r by (auto simp: d' log_ready_def log_content_def)
qed

interpretation wal: log_device write_log log_content log_ready
proof
  fix d x d' r and e
  show "log_ready d \<Longrightarrow> write_log x d = (Ret (), d') \<Longrightarrow> log_content d' = log_content d @ x"
    using write_log_ready(3) [of d x "Ret ()" d'] by simp
  show "log_ready d \<Longrightarrow> write_log x d = (Throw e, d') \<Longrightarrow> \<exists>k. log_content d' = log_content d @ take k x"
    using write_log_ready(2) by blast
  show "log_ready d \<Longrightarrow> write_log x d = (r, d') \<Longrightarrow> log_ready d'"
    using write_log_ready(1) by blast
qed

text \<open>Disk operations that leave the log file alone.\<close>

fun touches_log :: "DiskManager \<Rightarrow> disk_op \<Rightarrow> bool" where
  "touches_log d (Write_page fd pno x) \<longleftrightarrow> fd = log_fd d"
| "touches_log d (Close_file fd) \<longleftrightarrow> fd = log_fd d"
| "touches_log d (Write_log x) \<longleftrightarrow> True"
| "touches_log d _ \<longleftrightarrow> False"

lemma log_keepI:
  assumes "log_ready d" and "disk_inv d'" and "log_fd d' = log_fd d"
    and "map_of (fds (os d')) (log_fd d) = map_of (fds (os d)) (log_fd d)"
    and "\<And>path. map_of (fds (os d)) (log_fd d) = Some path \<Longrightarrow> files (os d') path = files (os d) path"
  shows "log_ready d' \<and> log_content d' = log_content d"
  using assms by (auto simp: log_ready_def log_content_def split: option.split)

lemma log_fd_step: "log_fd d \<noteq> -1 \<Longrightarrow> \<not> touches_log d a \<Longrightarrow> log_fd (disk_step a d) = log_fd d"
  by (cases a) (auto simp: write_page_def allocate_page_def rollback_allocated_page_def create_file_def
      destroy_file_def open_file_def close_file_def read_log_snd open_log_def Let_def
      split: prod.split option.split)

lemma other_file_step:
  assumes i: "disk_inv d" and l: "log_fd d \<noteq> -1" and p: "map_of (fds (os d)) (log_fd d) = Some path"
    and n: "\<not> touches_log d a"
  shows "map_of (fds (os (disk_step a d))) (log_fd d) = Some path \<and>
         files (os (disk_step a d)) path = files (os d) path"
proof (cases a)
  case (Write_page fd pno x)
  obtain r d' where w: "write_page fd pno x d = (r, d')" by fastforce
  have "map_of (fds (os d)) fd \<noteq> Some path"
    using disk_fd_path_inj [OF i p, of fd] Write_page n by auto
  with w have "files (os d') path = files (os d) path"
    by (cases rule: write_pageE) auto
  with Write_page w p write_page_tables [OF w] show ?thesis by simp
next
  case (Create_file path')
  obtain r d' where c: "create_file path' d = (r, d')" by fastforce
  obtain c' where "files (os d) path = Some c'" using disk_inv_open_exists [OF i p] by blast
  with Create_file c p create_file_effect [OF c] show ?thesis by simp
next
  case (Destroy_file path')
  obtain r d' where c: "destroy_file path' d = (r, d')" by fastforce
  have "path2fd d path = Some (log_fd d)" using i p unfolding disk_inv_def by metis
  with Destroy_file c p destroy_file_effect [OF c] show ?thesis by simp
next
  case (Open_file path')
  obtain r d' where o: "open_file path' d = (r, d')" by fastforce
  have "log_fd d \<in> fst ` set (fds (os d))" using p by (force dest: map_of_SomeD)
  then have "fresh_fd (os d) \<noteq> log_fd d" using fresh_fd_props(1) [of "os d"] by metis
  from o this p have "map_of (fds (os d')) (log_fd d) = Some path \<and> files (os d') path = files (os d) path"
    by (cases rule: open_fileE) auto
  with Open_file o show ?thesis by simp
next
  case (Close_file fd)
  with n p show ?thesis
    by (auto simp: close_file_def sys_close_def map_of_filter_fst split: option.split)
next
  case (Allocate_page fd)
  then show ?thesis using p allocate_page_snd [of fd d] by auto
next
  case (Rollback_page fd pno)
  then show ?thesis using p rollback_page_snd [of fd pno d] by auto
next
  case (Read_log n off)
  with l p show ?thesis by (simp add: read_log_snd open_log_def)
qed (use n in simp)

lemma log_keeps_step:
  assumes r: "log_ready d" and n: "\<not> touches_log d a"
  shows "log_ready (disk_step a d) \<and> log_content (disk_step a d) = log_content d"
proof -
  from r obtain path where i: "disk_inv d" and l: "log_fd d \<noteq> -1"
      and p: "map_of (fds (os d)) (log_fd d) = Some path"
    by (rule log_readyE)
  note k = other_file_step [OF i l p n]
  show ?thesis
    by (rule log_keepI [OF r disk_inv_step [OF i] log_fd_step [OF l n]]) (use k p in auto)
qed

section \<open>Properties\<close>

text \<open>A file system with one empty file, and the disk manager that has opened it as descriptor 3.\<close>

definition sample_posix :: posix where
  "sample_posix = \<lparr>files = [''t'' \<mapsto> []], dirs = [], fds = [], write_fault = None, last_errno = None\<rparr>"

definition sample_disk :: DiskManager where
  "sample_disk = snd (open_file ''t'' (new_DiskManager sample_posix))"

lemma sample_disk_inv: "disk_inv sample_disk"
  unfolding sample_disk_def
  by (rule disk_inv_open [OF disk_inv_new surjective_pairing]) (simp add: sample_posix_def)

lemma sample_disk_eq:
  "sample_disk = \<lparr>path2fd = [''t'' \<mapsto> 3], fd2path = [3 \<mapsto> ''t''], log_fd = -1, fd2pageno = (\<lambda>_. 0),
     os = \<lparr>files = [''t'' \<mapsto> []], dirs = [], fds = [(3, ''t'')], write_fault = None, last_errno = None\<rparr>\<rparr>"
  by (simp add: sample_disk_def sample_posix_def open_file_def new_DiskManager_def sys_open_def fresh_fd_def)

text \<open>
  C21. A page that was written successfully reads back with exactly that content after any sequence
  of disk operations (including failing and torn writes of other pages, appends to the log, creating,
  opening, closing and destroying other files) that neither writes this page again nor closes its file.
\<close>

theorem written_page_persists:
  assumes "disk_inv d" and "length x = PAGE_SIZE" and "write_page fd pno x d = (Ret (), d')"
    and "\<forall>a \<in> set as. \<not> touches (PageId fd pno) a"
  shows "read_page fd pno PAGE_SIZE (disk_run as d') = (Ret (), x)"
proof -
  have w: "disk_write (PageId fd pno) x d = (Ret (), d')"
    using assms(3) by (simp add: disk_write_def)
  have "disk_page d' (PageId fd pno) = Some x" and "disk_inv d'"
    using disk.wr_same [OF assms(1,2) w] disk.wr_ok [OF assms(1) w] .
  then have "disk_page (disk_run as d') (PageId fd pno) = Some x"
    by (intro disk_page_run assms(4))
  then show ?thesis
    by (auto simp: disk_page_def split: prod.splits sum.splits)
qed

theorem written_page_persists_witness:
  "read_page 3 0 PAGE_SIZE
     (disk_run [Create_file ''u'', Open_file ''u'', Write_page 4 0 [1, 2], Close_file 4, Destroy_file ''u'']
        (snd (write_page 3 0 (replicate PAGE_SIZE 7) sample_disk))) = (Ret (), replicate PAGE_SIZE 7)"
proof (rule written_page_persists [OF sample_disk_inv])
  show "write_page 3 0 (replicate PAGE_SIZE 7) sample_disk =
        (Ret (), snd (write_page 3 0 (replicate PAGE_SIZE 7) sample_disk))"
    by (simp add: sample_disk_eq write_page_def sys_pwrite_def delivered_def)
qed (simp_all add: PAGE_SIZE_def)

text \<open>
  C30. From a start with no open descriptors, every sequence of disk operations leaves the two
  open-file tables inverse to each other and equal to the descriptors the process holds; in
  particular two open descriptors never name the same path, and an open file is never destroyed.
\<close>

theorem open_tables_consistent:
  assumes "fds w = []" and "d = disk_run as (new_DiskManager w)"
  shows "(fd2path d fd = Some path \<longleftrightarrow> path2fd d path = Some fd) \<and>
         (fd2path d fd = Some path \<longrightarrow> map_of (fds (os d)) fd = Some path \<and> 0 \<le> fd \<and> is_file path d)"
proof -
  have i: "disk_inv d"
    using assms disk_inv_run disk_inv_new by simp
  then have t: "fd2path d fd = Some path \<longleftrightarrow> path2fd d path = Some fd"
      "fd2path d fd = map_of (fds (os d)) fd"
    unfolding disk_inv_def by metis+
  moreover have "0 \<le> fd \<and> is_file path d" if "map_of (fds (os d)) fd = Some path"
    using map_of_SomeD [OF that] i by (auto simp: disk_inv_def is_file_def dest: bspec)
  ultimately show ?thesis by simp
qed

theorem open_tables_consistent_witness:
  "fd2path (disk_run [Open_file ''t''] (new_DiskManager sample_posix)) 3 = Some ''t'' \<and>
   path2fd (disk_run [Open_file ''t''] (new_DiskManager sample_posix)) ''t'' = Some 3 \<and>
   is_file ''t'' (disk_run [Open_file ''t''] (new_DiskManager sample_posix))"
  using open_tables_consistent [of sample_posix "disk_run [Open_file ''t''] (new_DiskManager sample_posix)"
      "[Open_file ''t'']" 3 "''t''"] sample_disk_eq
  by (simp add: sample_disk_def) (simp add: sample_posix_def)

end
