(* ===== verification/Log_Manager.thy ===== *)
theory Log_Manager
  imports Log_Record Disk_Manager
begin

text \<open>
  The log manager, \<^verbatim>\<open>LogBuffer\<close> and \<^verbatim>\<open>LogManager\<close> of \<^verbatim>\<open>src/src/recovery/log_manager.{h,cpp}\<close>. The
  content of a buffer is its first \<^verbatim>\<open>offset_\<close> bytes. The latch makes the code between lock and
  unlock atomic; a flush has two such parts, \<open>flush_start\<close> (before the write, which runs without the
  latch) and \<open>flush_finish\<close> (the write and what follows it). The inductive relation \<open>log_run\<close>
  interleaves these parts with appends and with page I/O of other threads. The sequential functions
  follow one thread; where it waits for \<^verbatim>\<open>flush_cv_\<close>, the flush of the other thread completes.
\<close>

section \<open>State and operations\<close>

record LogManager =
  global_lsn :: lsn_t
  flush_in_progress :: bool
  log_buffer :: bytes
  log_buffer_max_lsn :: lsn_t
  persist_lsn :: lsn_t
  flush_buffer :: bytes
  flush_lsn :: lsn_t

text \<open>\<open>flush_lsn\<close> is the local variable of the thread that is flushing.\<close>

definition new_LogManager :: LogManager where
  "new_LogManager =
     \<lparr>global_lsn = 0, flush_in_progress = False, log_buffer = [], log_buffer_max_lsn = INVALID_LSN,
      persist_lsn = INVALID_LSN, flush_buffer = [], flush_lsn = INVALID_LSN\<rparr>"

type_synonym log_state = "LogManager \<times> DiskManager"

definition is_full :: "int \<Rightarrow> LogManager \<Rightarrow> bool" where
  "is_full append_size lm \<longleftrightarrow> int (length (log_buffer lm)) + append_size > int LOG_BUFFER_SIZE"

definition flush_start :: "LogManager \<Rightarrow> LogManager" where
  "flush_start lm =
     lm\<lparr>flush_buffer := log_buffer lm, flush_lsn := log_buffer_max_lsn lm, log_buffer := [],
        log_buffer_max_lsn := INVALID_LSN, flush_in_progress := True\<rparr>"

definition flush_finish :: "log_state \<Rightarrow> unit result \<times> log_state" where
  "flush_finish s =
     (case s of (lm, d) \<Rightarrow>
        (case write_log (flush_buffer lm) d of
           (Inl e, d') \<Rightarrow> (Throw e, lm\<lparr>flush_in_progress := False\<rparr>, d')
         | (Inr _, d') \<Rightarrow>
             (Ret (), lm\<lparr>persist_lsn := max (persist_lsn lm) (flush_lsn lm), flush_in_progress := False\<rparr>, d')))"

definition await_flush :: "log_state \<Rightarrow> log_state" where
  "await_flush s = (if flush_in_progress (fst s) then snd (flush_finish s) else s)"

definition flush_buffer_locked :: "log_state \<Rightarrow> unit result \<times> log_state" where
  "flush_buffer_locked s =
     (case await_flush s of (lm, d) \<Rightarrow>
        (if log_buffer lm = [] then (Ret (), lm, d) else flush_finish (flush_start lm, d)))"

definition append_record :: "LogRecord \<Rightarrow> LogManager \<Rightarrow> lsn_t \<times> LogManager" where
  "append_record r lm =
     (let lsn = global_lsn lm in
      (lsn, lm\<lparr>global_lsn := to_i32 (global_lsn lm + 1),
               log_buffer := log_buffer lm @ serialize (set_lsn lsn r), log_buffer_max_lsn := lsn\<rparr>))"

lemma flush_finish_simps [simp]:
  "log_buffer (fst (snd (flush_finish s))) = log_buffer (fst s)"
  "flush_in_progress (fst (snd (flush_finish s))) = False"
  "global_lsn (fst (snd (flush_finish s))) = global_lsn (fst s)"
  "log_buffer_max_lsn (fst (snd (flush_finish s))) = log_buffer_max_lsn (fst s)"
  by (auto simp: flush_finish_def split: prod.split sum.split)

lemma await_flush_simps [simp]:
  "log_buffer (fst (await_flush s)) = log_buffer (fst s)"
  "flush_in_progress (fst (await_flush s)) = False"
  "global_lsn (fst (await_flush s)) = global_lsn (fst s)"
  by (simp_all add: await_flush_def)

lemma flush_buffer_locked_empties:
  "log_buffer (fst (snd (flush_buffer_locked s))) = []"
  "flush_in_progress (fst (snd (flush_buffer_locked s))) = False"
proof -
  obtain lm d where s: "await_flush s = (lm, d)" by fastforce
  then have "\<not> flush_in_progress lm" using await_flush_simps(2) [of s] by simp
  with s show "log_buffer (fst (snd (flush_buffer_locked s))) = []"
    "flush_in_progress (fst (snd (flush_buffer_locked s))) = False"
    by (auto simp: flush_buffer_locked_def flush_start_def)
qed

lemma flush_empties:
  "flush_buffer_locked s = (x, s') \<Longrightarrow> log_buffer (fst s') = [] \<and> \<not> flush_in_progress (fst s')"
  using flush_buffer_locked_empties [of s] by simp

lemma full_nonempty: "is_full n lm \<Longrightarrow> \<not> int LOG_BUFFER_SIZE < n \<Longrightarrow> log_buffer lm \<noteq> []"
  by (auto simp: is_full_def)

text \<open>The size test is repeated in each round of the loop; the length of the record does not change.\<close>

function add_log_to_buffer :: "LogRecord \<Rightarrow> log_state \<Rightarrow> lsn_t result \<times> log_state" where
  "add_log_to_buffer r s =
     (if log_tot_len r > int LOG_BUFFER_SIZE
      then (Throw (InternalError ''Log record is larger than log buffer''), s)
      else if is_full (log_tot_len r) (fst s)
      then (case flush_buffer_locked s of
              (Inl e, s') \<Rightarrow> (Throw e, s')
            | (Inr _, s') \<Rightarrow> add_log_to_buffer r s')
      else (case append_record r (fst s) of (lsn, lm) \<Rightarrow> (Ret lsn, lm, snd s)))"
  by pat_completeness auto

termination
  by (relation "measure (\<lambda>(r, s). length (log_buffer (fst s)))")
    (auto dest!: full_nonempty flush_empties [OF sym])

function flush_log_to_disk_loop :: "lsn_t \<Rightarrow> log_state \<Rightarrow> unit result \<times> log_state" where
  "flush_log_to_disk_loop target_lsn s =
     (if target_lsn > persist_lsn (fst s)
      then (if flush_in_progress (fst s) then flush_log_to_disk_loop target_lsn (await_flush s)
            else if log_buffer (fst s) = [] then (Ret (), s)
            else (case flush_buffer_locked s of
                    (Inl e, s') \<Rightarrow> (Throw e, s')
                  | (Inr _, s') \<Rightarrow> flush_log_to_disk_loop target_lsn s'))
      else (Ret (), s))"
  by pat_completeness auto

termination
  by (relation "measure (\<lambda>(t, s). of_bool (flush_in_progress (fst s)) + of_bool (log_buffer (fst s) \<noteq> []))")
    (auto dest: flush_empties [OF sym])

definition flush_log_to_disk :: "lsn_t \<Rightarrow> log_state \<Rightarrow> unit result \<times> log_state" where
  "flush_log_to_disk target_lsn s =
     (if target_lsn = INVALID_LSN then flush_buffer_locked s else flush_log_to_disk_loop target_lsn s)"

declare add_log_to_buffer.simps [simp del] flush_log_to_disk_loop.simps [simp del]

section \<open>Interleavings\<close>

text \<open>
  \<open>log_run s0 rs ok s\<close>: from \<open>s0\<close> the threads have appended the records \<open>rs\<close>, in this order and with
  these sequence numbers, and reached \<open>s\<close>; \<open>ok\<close> says that no write of the log has failed so far.
\<close>

inductive log_run :: "log_state \<Rightarrow> LogRecord list \<Rightarrow> bool \<Rightarrow> log_state \<Rightarrow> bool" for s0 where
  run_init: "log_run s0 [] True s0"
| run_append: "log_run s0 rs ok (lm, d) \<Longrightarrow> log_tot_len r \<le> int LOG_BUFFER_SIZE \<Longrightarrow>
     \<not> is_full (log_tot_len r) lm \<Longrightarrow> append_record r lm = (lsn, lm') \<Longrightarrow>
     log_run s0 (rs @ [set_lsn lsn r]) ok (lm', d)"
| run_start: "log_run s0 rs ok (lm, d) \<Longrightarrow> \<not> flush_in_progress lm \<Longrightarrow> log_buffer lm \<noteq> [] \<Longrightarrow>
     log_run s0 rs ok (flush_start lm, d)"
| run_finish: "log_run s0 rs ok (lm, d) \<Longrightarrow> flush_in_progress lm \<Longrightarrow> flush_finish (lm, d) = (r, s') \<Longrightarrow>
     log_run s0 rs (ok \<and> is_ret r) s'"
| run_other: "log_run s0 rs ok (lm, d) \<Longrightarrow> \<not> touches_log d a \<Longrightarrow> log_run s0 rs ok (lm, disk_step a d)"

section \<open>The stream of records\<close>

text \<open>
  As long as no write has failed, the records split into those on disk, those in the batch being
  flushed and those in the buffer; \<open>a\<close> and \<open>b\<close> are the two cuts.
\<close>

definition log_inv :: "bytes \<Rightarrow> LogRecord list \<Rightarrow> nat \<Rightarrow> nat \<Rightarrow> log_state \<Rightarrow> bool" where
  "log_inv c0 rs a b s \<longleftrightarrow> (case s of (lm, d) \<Rightarrow>
     a \<le> b \<and> b \<le> length rs \<and> log_ready d \<and>
     log_content d = c0 @ concat (map serialize (take a rs)) \<and>
     (if flush_in_progress lm
      then a < b \<and> flush_buffer lm = concat (map serialize (drop a (take b rs))) \<and> flush_lsn lm = int b - 1
      else a = b) \<and>
     log_buffer lm = concat (map serialize (drop b rs)) \<and>
     (b < length rs \<longrightarrow> log_buffer_max_lsn lm = int (length rs) - 1) \<and>
     persist_lsn lm = int a - 1 \<and> global_lsn lm = int (length rs) \<and>
     (\<forall>i < length rs. log_lsn (rs ! i) = int i))"

lemma serialize_nonempty [simp]: "serialize r \<noteq> []"
proof -
  have "length (serialize r) > 0" by (simp add: serialize_def log_offsets)
  then show ?thesis by force
qed

lemma length_serialize_ge: "n < 24 \<Longrightarrow> n < length (serialize r)"
  by (simp add: serialize_def log_offsets)

lemma concat_serialize_empty [simp]: "concat (map serialize xs) = [] \<longleftrightarrow> xs = []"
  by (cases xs) auto

lemma log_lsn_set_lsn [simp]: "log_lsn (set_lsn l r) = l"
  by (cases r) (simp_all add: set_lsn_def)

lemma log_tot_len_set_lsn [simp]: "log_tot_len (set_lsn l r) = log_tot_len r"
  by (cases r) (simp_all add: set_lsn_def)

lemma log_inv_new:
  assumes "log_ready d" shows "log_inv (log_content d) [] 0 0 (new_LogManager, d)"
  using assms by (simp add: log_inv_def new_LogManager_def)

lemma log_inv_append:
  assumes "log_inv c0 rs a b (lm, d)" and "append_record r lm = (lsn, lm')" and "Suc (length rs) < 2 ^ 31"
  shows "log_inv c0 (rs @ [set_lsn lsn r]) a b (lm', d)" and "lsn = int (length rs)"
proof -
  have g: "global_lsn lm = int (length rs)" and b: "b \<le> length rs"
    using assms(1) by (auto simp: log_inv_def)
  have w: "to_i32 (int (length rs) + 1) = int (length rs) + 1"
    using assms(3) by (intro to_i32_id) (simp add: in_i32_def)
  show lsn: "lsn = int (length rs)" using assms(2) g by (simp add: append_record_def Let_def)
  show "log_inv c0 (rs @ [set_lsn lsn r]) a b (lm', d)"
    using assms(1,2) g w b lsn
    by (auto simp: log_inv_def append_record_def Let_def nth_append less_Suc_eq)
qed

lemma log_inv_start:
  assumes "log_inv c0 rs a b (lm, d)" and "\<not> flush_in_progress lm" and "log_buffer lm \<noteq> []"
  shows "log_inv c0 rs a (length rs) (flush_start lm, d)"
  using assms by (auto simp: log_inv_def flush_start_def)

lemma log_inv_finish:
  assumes "log_inv c0 rs a b (lm, d)" and "flush_in_progress lm" and "flush_finish (lm, d) = (Ret (), s')"
  shows "log_inv c0 rs b b s'"
proof -
  obtain d' where w: "write_log (flush_buffer lm) d = (Ret (), d')"
      and s': "s' = (lm\<lparr>persist_lsn := max (persist_lsn lm) (flush_lsn lm), flush_in_progress := False\<rparr>, d')"
    using assms(3) by (auto simp: flush_finish_def split: prod.splits sum.splits)
  have r: "log_ready d" and ab: "a < b" "b \<le> length rs"
    using assms(1,2) by (auto simp: log_inv_def)
  have "take a (take b rs) @ drop a (take b rs) = take b rs" by (rule append_take_drop_id)
  then have "take b rs = take a rs @ drop a (take b rs)" using ab by (simp add: min_absorb1)
  then have "concat (map serialize (take b rs)) =
      concat (map serialize (take a rs)) @ concat (map serialize (drop a (take b rs)))"
    by (metis concat_append map_append)
  then show ?thesis
    using assms(1,2) wal.app_ok [OF r w] wal.app_ready [OF r w] s' ab
    by (simp add: log_inv_def max_def)
qed

lemma log_inv_other:
  assumes "log_inv c0 rs a b (lm, d)" and "\<not> touches_log d x"
  shows "log_inv c0 rs a b (lm, disk_step x d)"
  using assms log_keeps_step [OF _ assms(2)] by (auto simp: log_inv_def)

lemma log_run_inv:
  assumes "log_run s0 rs ok s" and "s0 = (new_LogManager, d0)" and "log_ready d0" and "ok" and "length rs < 2 ^ 31"
  shows "\<exists>a b. log_inv (log_content d0) rs a b s"
  using assms
proof (induction rule: log_run.induct)
  case run_init
  then show ?case using log_inv_new by blast
next
  case (run_append rs ok lm d r lsn lm')
  then obtain a b where "log_inv (log_content d0) rs a b (lm, d)" by auto
  then show ?case using log_inv_append(1) run_append by fastforce
next
  case (run_start rs ok lm d)
  then show ?case using log_inv_start by blast
next
  case (run_finish rs ok lm d r s')
  then have "r = Ret ()" by (cases r) auto
  then show ?case using run_finish log_inv_finish by blast
next
  case (run_other rs ok lm d a)
  then show ?case using log_inv_other by blast
qed

section \<open>Without write faults\<close>

definition no_fault :: "DiskManager \<Rightarrow> bool" where
  "no_fault d \<longleftrightarrow> log_ready d \<and> write_fault (os d) = None"

lemma write_log_no_fault:
  assumes "no_fault d"
  shows "\<exists>d'. write_log x d = (Ret (), d') \<and> no_fault d'"
proof -
  from assms have r: "log_ready d" and w: "write_fault (os d) = None" by (auto simp: no_fault_def)
  from r obtain path c where d: "log_fd d \<noteq> -1" "map_of (fds (os d)) (log_fd d) = Some path"
      "files (os d) path = Some c"
    by (rule log_readyE)
  have "\<exists>d'. write_log x d = (Ret (), d') \<and> write_fault (os d') = None"
    using d w by (auto simp: write_log_def open_log_def sys_pwrite_def delivered_def)
  then show ?thesis using write_log_ready(1) [OF r] by (auto simp: no_fault_def)
qed

lemma flush_finish_no_fault:
  assumes "no_fault (snd s)"
  shows "\<exists>s'. flush_finish s = (Ret (), s') \<and> no_fault (snd s')"
  using write_log_no_fault [OF assms, of "flush_buffer (fst s)"]
  by (cases s) (auto simp: flush_finish_def)

text \<open>One thread's calls are interleavings in which only this thread appends.\<close>

lemma await_flush_run:
  assumes "log_run s0 rs True s" and "no_fault (snd s)"
  shows "log_run s0 rs True (await_flush s)" and "no_fault (snd (await_flush s))"
proof -
  obtain lm d where s: "s = (lm, d)" by fastforce
  obtain s' where f: "flush_finish s = (Ret (), s')" "no_fault (snd s')"
    using flush_finish_no_fault [OF assms(2)] by blast
  show "log_run s0 rs True (await_flush s)" "no_fault (snd (await_flush s))"
    using assms f run_finish [of s0 rs True lm d "Ret ()" s'] by (auto simp: await_flush_def s)
qed

lemma flush_buffer_locked_run:
  assumes "log_run s0 rs True s" and "no_fault (snd s)"
  obtains s' where "flush_buffer_locked s = (Ret (), s')" and "log_run s0 rs True s'" and "no_fault (snd s')"
    and "log_buffer (fst s') = []" and "\<not> flush_in_progress (fst s')"
proof -
  obtain lm d where a: "await_flush s = (lm, d)" by fastforce
  have r: "log_run s0 rs True (lm, d)" "no_fault d" "\<not> flush_in_progress lm"
    using await_flush_run [OF assms] await_flush_simps(2) [of s] a by auto
  show thesis
  proof (cases "log_buffer lm = []")
    case True
    with a r show thesis by (intro that) (auto simp: flush_buffer_locked_def)
  next
    case False
    obtain s' where f: "flush_finish (flush_start lm, d) = (Ret (), s')" "no_fault (snd s')"
      using flush_finish_no_fault [of "(flush_start lm, d)"] r(2) by auto
    then have l: "flush_buffer_locked s = (Ret (), s')" using a False by (simp add: flush_buffer_locked_def)
    have "log_run s0 rs (True \<and> is_ret (Ret ())) s'"
      by (rule run_finish [OF run_start [OF r(1,3) False] _ f(1)]) (simp add: flush_start_def)
    then show thesis using l f(2) flush_empties [OF l] by (intro that) auto
  qed
qed

lemma flush_loop_run:
  assumes "log_run s0 rs True s" and "no_fault (snd s)"
  shows "\<exists>s'. flush_log_to_disk_loop t s = (Ret (), s') \<and> log_run s0 rs True s' \<and>
           (t \<le> persist_lsn (fst s') \<or> (log_buffer (fst s') = [] \<and> \<not> flush_in_progress (fst s')))"
  using assms
proof (induction t s rule: flush_log_to_disk_loop.induct)
  case (1 t s)
  show ?case
  proof (cases "t > persist_lsn (fst s) \<and> \<not> flush_in_progress (fst s) \<and> log_buffer (fst s) \<noteq> []")
    case True
    obtain s' where f: "flush_buffer_locked s = (Ret (), s')" "log_run s0 rs True s'" "no_fault (snd s')"
      using flush_buffer_locked_run [OF 1(3,4)] by blast
    then show ?thesis
      using 1(2) [of "Ret ()" s' "()"] True
      by (subst flush_log_to_disk_loop.simps) auto
  next
    case False
    then show ?thesis
      using 1(1) await_flush_run [OF 1(3,4)] 1(3)
      by (subst flush_log_to_disk_loop.simps) (auto simp del: split_paired_Ex)
  qed
qed

lemma add_log_run:
  assumes "log_run s0 rs True s" and "no_fault (snd s)" and "log_tot_len r \<le> int LOG_BUFFER_SIZE"
  shows "\<exists>lsn s'. add_log_to_buffer r s = (Ret lsn, s') \<and> log_run s0 (rs @ [set_lsn lsn r]) True s'"
  using assms
proof (induction r s rule: add_log_to_buffer.induct)
  case (1 r s)
  show ?case
  proof (cases "is_full (log_tot_len r) (fst s)")
    case True
    obtain s' where f: "flush_buffer_locked s = (Ret (), s')" "log_run s0 rs True s'" "no_fault (snd s')"
      using flush_buffer_locked_run [OF 1(2,3)] by blast
    then show ?thesis
      using 1(1) [of "Ret ()" s' "()"] 1(4) True
      by (subst add_log_to_buffer.simps) auto
  next
    case False
    obtain lsn lm where a: "append_record r (fst s) = (lsn, lm)" by fastforce
    have "log_run s0 (rs @ [set_lsn lsn r]) True (lm, snd s)"
      using 1(2,4) False a run_append [of s0 rs True "fst s" "snd s" r lsn lm] by simp
    then show ?thesis using a False 1(4) by (subst add_log_to_buffer.simps) auto
  qed
qed

text \<open>Whether the device accepts writes says nothing about what it holds.\<close>

lemma write_fault_irrelevant [simp]:
  "disk_inv (d\<lparr>os := (os d)\<lparr>write_fault := f\<rparr>\<rparr>) = disk_inv d"
  "log_content (d\<lparr>os := (os d)\<lparr>write_fault := f\<rparr>\<rparr>) = log_content d"
  "log_ready (d\<lparr>os := (os d)\<lparr>write_fault := f\<rparr>\<rparr>) = log_ready d"
  by (simp_all add: disk_inv_def log_content_def log_ready_def split: option.split)

lemma write_log_fault:
  assumes "log_ready d" and "write_fault (os d) = Some (k, err)" and "k < length x"
  shows "\<exists>d'. write_log x d = (Throw UnixError, d') \<and> log_content d' = log_content d @ take k x \<and> log_ready d'"
proof -
  from assms(1) obtain path c where d: "log_fd d \<noteq> -1" "map_of (fds (os d)) (log_fd d) = Some path"
      "files (os d) path = Some c" "log_content d = c"
    by (rule log_readyE)
  have "\<exists>d'. write_log x d = (Throw UnixError, d') \<and> log_content d' = log_content d @ take k x"
    using d assms(2,3)
    by (cases "k = 0") (auto simp: write_log_def open_log_def sys_pwrite_def delivered_def log_content_def file_write_append)
  then show ?thesis using write_log_ready(1) [OF assms(1)] by blast
qed

section \<open>What a flush guarantees and what it leaves alone\<close>

text \<open>
  The record with number \<open>l\<close> needs no further flush: there is none, it is persisted, or nothing is
  left to write.
\<close>

definition log_durable :: "LogManager \<Rightarrow> lsn_t \<Rightarrow> bool" where
  "log_durable lm l \<longleftrightarrow> l = INVALID_LSN \<or> l \<le> persist_lsn lm \<or> (log_buffer lm = [] \<and> \<not> flush_in_progress lm)"

text \<open>The effect of flushing on the rest of the system, whether it succeeds or fails.\<close>

definition flush_effect :: "log_state \<Rightarrow> log_state \<Rightarrow> bool" where
  "flush_effect s s' \<longleftrightarrow>
     (disk_inv (snd s) \<longrightarrow> disk_inv (snd s') \<and>
        (\<forall>q x. disk_page (snd s) q = Some x \<longrightarrow> disk_page (snd s') q = Some x)) \<and>
     (\<forall>l. log_durable (fst s) l \<longrightarrow> log_durable (fst s') l) \<and> global_lsn (fst s') = global_lsn (fst s)"

lemma flush_effect_refl [simp]: "flush_effect s s"
  by (simp add: flush_effect_def)

lemma flush_effect_trans: "flush_effect s t \<Longrightarrow> flush_effect t u \<Longrightarrow> flush_effect s u"
  by (simp add: flush_effect_def)

lemma flush_finish_effect:
  assumes "flush_in_progress (fst s)"
  shows "flush_effect s (snd (flush_finish s))"
proof -
  obtain lm d r d' where s: "s = (lm, d)" and w: "write_log (flush_buffer lm) d = (r, d')" by fastforce
  then show ?thesis
    using assms write_log_keeps [of d "flush_buffer lm" r d']
    by (cases r) (auto simp: flush_effect_def flush_finish_def log_durable_def)
qed

lemma flush_start_effect:
  assumes "log_buffer (fst s) \<noteq> []"
  shows "flush_effect s (flush_start (fst s), snd s)"
  using assms by (simp add: flush_effect_def flush_start_def log_durable_def)

lemma await_flush_effect: "flush_effect s (await_flush s)"
  by (simp add: await_flush_def flush_finish_effect)

lemma flush_buffer_locked_effect: "flush_effect s (snd (flush_buffer_locked s))"
proof -
  obtain lm d where a: "await_flush s = (lm, d)" by fastforce
  have "flush_effect (lm, d) (snd (flush_finish (flush_start lm, d)))" if "log_buffer lm \<noteq> []"
    using that flush_start_effect [of "(lm, d)"] flush_finish_effect [of "(flush_start lm, d)"]
    by (auto intro: flush_effect_trans simp: flush_start_def)
  then show ?thesis
    using await_flush_effect [of s] a by (auto simp: flush_buffer_locked_def intro: flush_effect_trans)
qed

lemma flush_loop_effect: "flush_effect s (snd (flush_log_to_disk_loop t s))"
proof (induction t s rule: flush_log_to_disk_loop.induct)
  case (1 t s)
  show ?case
    using 1 await_flush_effect [of s] flush_buffer_locked_effect [of s]
    by (subst flush_log_to_disk_loop.simps)
      (auto intro: flush_effect_trans split: prod.split sum.split)
qed

lemma flush_log_to_disk_effect: "flush_effect s (snd (flush_log_to_disk t s))"
  by (simp add: flush_log_to_disk_def flush_buffer_locked_effect flush_loop_effect)

lemma flush_loop_durable:
  "flush_log_to_disk_loop t s = (Ret (), s') \<Longrightarrow> log_durable (fst s') t"
proof (induction t s rule: flush_log_to_disk_loop.induct)
  case (1 t s)
  note eq = flush_log_to_disk_loop.simps [of t s]
  consider (reached) "t \<le> persist_lsn (fst s)" | (wait) "persist_lsn (fst s) < t" "flush_in_progress (fst s)"
    | (nothing) "persist_lsn (fst s) < t" "\<not> flush_in_progress (fst s)" "log_buffer (fst s) = []"
    | (flush) "persist_lsn (fst s) < t" "\<not> flush_in_progress (fst s)" "log_buffer (fst s) \<noteq> []"
    by linarith
  then show ?case
  proof cases
    case flush
    obtain r s1 where f: "flush_buffer_locked s = (r, s1)" by (rule prod.exhaust)
    then show ?thesis
      using 1 flush eq by (cases r) auto
  qed (use 1 eq in \<open>auto simp: log_durable_def\<close>)
qed

section \<open>Properties\<close>

text \<open>A small instance: an empty log file open as descriptor 3, and one begin record.\<close>

definition sample_log_disk :: DiskManager where
  "sample_log_disk =
     (snd (open_file LOG_FILE_NAME (new_DiskManager (sample_posix\<lparr>files := [LOG_FILE_NAME \<mapsto> []]\<rparr>))))\<lparr>log_fd := 3\<rparr>"

definition sample_log_manager :: LogManager where
  "sample_log_manager = snd (append_record (new_BeginLogRecord 1) new_LogManager)"

lemma sample_log_disk_eq:
  "sample_log_disk = \<lparr>path2fd = [LOG_FILE_NAME \<mapsto> 3], fd2path = [3 \<mapsto> LOG_FILE_NAME], log_fd = 3,
     fd2pageno = (\<lambda>_. 0), os = \<lparr>files = [LOG_FILE_NAME \<mapsto> []], dirs = [], fds = [(3, LOG_FILE_NAME)],
       write_fault = None, last_errno = None\<rparr>\<rparr>"
  by (simp add: sample_log_disk_def sample_posix_def open_file_def new_DiskManager_def sys_open_def fresh_fd_def)

lemma sample_log_ready: "log_ready sample_log_disk"
proof -
  have "disk_inv sample_log_disk"
    unfolding sample_log_disk_def disk_inv_log_fd
    by (rule disk_inv_open [OF disk_inv_new surjective_pairing]) (simp add: sample_posix_def)
  then show ?thesis by (simp add: log_ready_def) (simp add: sample_log_disk_eq)
qed

lemma sample_log_run:
  "log_run (new_LogManager, sample_log_disk) [set_lsn 0 (new_BeginLogRecord 1)] True
     (sample_log_manager, sample_log_disk)"
  using run_append [OF run_init [of "(new_LogManager, sample_log_disk)"], of "new_BeginLogRecord 1"]
  by (simp add: sample_log_manager_def append_record_def Let_def new_LogManager_def is_full_def
      new_BeginLogRecord_def new_header_def layout_simps)

text \<open>
  C18. Order and durability of the log: in every interleaving of appends, flushes and page I/O of
  other threads in which no log write failed, the log file holds exactly the appended records
  with sequence number up to \<^verbatim>\<open>persist_lsn_\<close>, serialised in sequence-number order; sequence numbers
  are consecutive from 0.
\<close>

theorem log_file_is_persisted_prefix:
  assumes "log_ready d0" and "log_run (new_LogManager, d0) rs True (lm, d)" and "length rs < 2 ^ 31"
  shows "persist_lsn lm < int (length rs) \<and>
         log_content d = log_content d0 @ concat (map serialize (take (nat (persist_lsn lm + 1)) rs)) \<and>
         (\<forall>i < length rs. log_lsn (rs ! i) = int i)"
proof -
  obtain a b where i: "log_inv (log_content d0) rs a b (lm, d)"
    using log_run_inv [OF assms(2) refl assms(1) _ assms(3)] by blast
  then have "nat (persist_lsn lm + 1) = a" by (simp add: log_inv_def)
  with i show ?thesis by (auto simp: log_inv_def)
qed

theorem log_file_is_persisted_prefix_witness:
  "log_content (snd (snd (flush_finish (flush_start sample_log_manager, sample_log_disk)))) =
     serialize (set_lsn 0 (new_BeginLogRecord 1))"
proof -
  let ?s = "snd (flush_finish (flush_start sample_log_manager, sample_log_disk))"
  let ?rs = "[set_lsn 0 (new_BeginLogRecord 1)]"
  have nf: "no_fault sample_log_disk" using sample_log_ready by (simp add: no_fault_def sample_log_disk_eq)
  obtain s' where f: "flush_finish (flush_start sample_log_manager, sample_log_disk) = (Ret (), s')"
    using flush_finish_no_fault [of "(flush_start sample_log_manager, sample_log_disk)"] nf by auto
  have "log_run (new_LogManager, sample_log_disk) ?rs True (flush_start sample_log_manager, sample_log_disk)"
    by (rule run_start [OF sample_log_run])
      (simp_all add: sample_log_manager_def append_record_def Let_def new_LogManager_def)
  moreover have "flush_in_progress (flush_start sample_log_manager)" by (simp add: flush_start_def)
  ultimately have r: "log_run (new_LogManager, sample_log_disk) ?rs True (fst ?s, snd ?s)"
    using run_finish [OF _ _ f] f by simp
  have p: "persist_lsn (fst ?s) = 0"
    using f by (auto simp: flush_finish_def flush_start_def sample_log_manager_def append_record_def Let_def
        new_LogManager_def split: prod.splits sum.splits)
  show ?thesis
    using log_file_is_persisted_prefix [OF sample_log_ready r] p
    by (simp add: log_content_def sample_log_disk_eq)
qed

text \<open>
  C19. \<^verbatim>\<open>flush_log_to_disk\<close> does what write-ahead logging needs: from any state reached without a
  failed log write, if the device accepts writes, the call returns normally, and then every record
  appended so far whose sequence number is at most the target is in the log file; with
  \<^verbatim>\<open>INVALID_LSN\<close> as target every record is.
\<close>

theorem flush_log_to_disk_durable:
  assumes "log_ready d0" and "log_run (new_LogManager, d0) rs True (lm, d)" and "length rs < 2 ^ 31"
    and "write_fault (os d) = None"
  shows "\<exists>lm' d' k. flush_log_to_disk target (lm, d) = (Ret (), lm', d') \<and>
           log_content d' = log_content d0 @ concat (map serialize (take k rs)) \<and>
           (\<forall>i < length rs. target = INVALID_LSN \<or> log_lsn (rs ! i) \<le> target \<longrightarrow> i < k)"
proof -
  obtain a b where i: "log_inv (log_content d0) rs a b (lm, d)"
    using log_run_inv [OF assms(2) refl assms(1) _ assms(3)] by blast
  then have nf: "no_fault (snd (lm, d))" using assms(4) by (simp add: log_inv_def no_fault_def)
  obtain s' where f: "flush_log_to_disk target (lm, d) = (Ret (), s')" "log_run (new_LogManager, d0) rs True s'"
      "(target \<noteq> INVALID_LSN \<and> target \<le> persist_lsn (fst s')) \<or> (log_buffer (fst s') = [] \<and> \<not> flush_in_progress (fst s'))"
    using flush_loop_run [OF assms(2) nf, of target] flush_buffer_locked_run [OF assms(2) nf]
    unfolding flush_log_to_disk_def by (cases "target = INVALID_LSN") (metis, metis)
  obtain lm' d' where s': "s' = (lm', d')" by fastforce
  obtain a' b' where i': "log_inv (log_content d0) rs a' b' (lm', d')"
    using log_run_inv [OF f(2) refl assms(1) _ assms(3)] s' by blast
  have "\<forall>i < length rs. target = INVALID_LSN \<or> log_lsn (rs ! i) \<le> target \<longrightarrow> i < a'"
    using f(3) i' unfolding s' by (auto simp: log_inv_def)
  then show ?thesis using f(1) i' s' by (auto simp: log_inv_def)
qed

theorem flush_log_to_disk_durable_witness:
  "\<exists>lm' d'. flush_log_to_disk 0 (sample_log_manager, sample_log_disk) = (Ret (), lm', d') \<and>
     log_content d' = serialize (set_lsn 0 (new_BeginLogRecord 1))"
proof -
  have c: "log_content sample_log_disk = []" by (simp add: log_content_def sample_log_disk_eq)
  obtain lm' d' k where "flush_log_to_disk 0 (sample_log_manager, sample_log_disk) = (Ret (), lm', d')"
      and "log_content d' = concat (map serialize (take k [set_lsn 0 (new_BeginLogRecord 1)]))" and "0 < k"
    using flush_log_to_disk_durable [OF sample_log_ready sample_log_run, of 0] c
    by (auto simp: sample_log_disk_eq)
  then show ?thesis by (cases k) auto
qed

text \<open>
  C31. \<^verbatim>\<open>add_log_to_buffer\<close> returns: for a record that fits the buffer, on a device that accepts
  writes, its loop ends, the record gets the next sequence number, and it is appended to the stream
  of records exactly once, after all earlier ones (possibly after flushing the full buffer).
\<close>

theorem add_log_to_buffer_appends:
  assumes "log_ready d0" and "log_run (new_LogManager, d0) rs True (lm, d)" and "Suc (length rs) < 2 ^ 31"
    and "write_fault (os d) = None" and "log_tot_len r \<le> int LOG_BUFFER_SIZE"
  shows "\<exists>s'. add_log_to_buffer r (lm, d) = (Ret (int (length rs)), s') \<and>
           log_run (new_LogManager, d0) (rs @ [set_lsn (int (length rs)) r]) True s'"
proof -
  obtain a b where i: "log_inv (log_content d0) rs a b (lm, d)"
    using log_run_inv [OF assms(2) refl assms(1)] assms(3) by auto
  then have nf: "no_fault (snd (lm, d))" using assms(4) by (simp add: log_inv_def no_fault_def)
  obtain lsn s' where f: "add_log_to_buffer r (lm, d) = (Ret lsn, s')"
      "log_run (new_LogManager, d0) (rs @ [set_lsn lsn r]) True s'"
    using add_log_run [OF assms(2) nf assms(5)] by blast
  obtain a' b' where "log_inv (log_content d0) (rs @ [set_lsn lsn r]) a' b' s'"
    using log_run_inv [OF f(2) refl assms(1)] assms(3) by auto
  then have "log_lsn ((rs @ [set_lsn lsn r]) ! length rs) = int (length rs)"
    by (cases s') (auto simp: log_inv_def)
  then have "lsn = int (length rs)" by simp
  with f show ?thesis by blast
qed

theorem add_log_to_buffer_appends_witness:
  "\<exists>s'. add_log_to_buffer (new_CommitLogRecord 1 0) (sample_log_manager, sample_log_disk) = (Ret 1, s')"
  using add_log_to_buffer_appends [OF sample_log_ready sample_log_run, of "new_CommitLogRecord 1 0"]
  by (auto simp: sample_log_disk_eq new_CommitLogRecord_def new_header_def layout_simps)

text \<open>
  C32. After a failed log write the batch is gone: if the device delivers only the first \<open>k\<close> bytes of
  a flush and recovers afterwards, the first flush throws, and yet the next append and flush succeed
  and move \<^verbatim>\<open>persist_lsn_\<close> past the lost record, whose torn bytes stay in the middle of the log file.
\<close>

theorem failed_flush_drops_batch:
  assumes "log_ready d" and "write_fault (os d) = Some (k, err)" and "k < length (serialize (set_lsn 0 r0))"
    and "0 \<le> log_tot_len r0" and "log_tot_len r0 \<le> int LOG_BUFFER_SIZE"
    and "0 \<le> log_tot_len r1" and "log_tot_len r1 \<le> int LOG_BUFFER_SIZE"
  shows "\<exists>s1 lm2 d2 s3 lm4 d4.
     add_log_to_buffer r0 (new_LogManager, d) = (Ret 0, s1) \<and>
     flush_log_to_disk 0 s1 = (Throw UnixError, lm2, d2) \<and>
     add_log_to_buffer r1 (lm2, d2\<lparr>os := (os d2)\<lparr>write_fault := None\<rparr>\<rparr>) = (Ret 1, s3) \<and>
     flush_log_to_disk 1 s3 = (Ret (), lm4, d4) \<and> persist_lsn lm4 = 1 \<and>
     log_content d4 = log_content d @ take k (serialize (set_lsn 0 r0)) @ serialize (set_lsn 1 r1)"
proof -
  let ?b0 = "serialize (set_lsn 0 r0)" and ?b1 = "serialize (set_lsn 1 r1)"
  define lm1 where "lm1 = snd (append_record r0 new_LogManager)"
  obtain d2 where w0: "write_log ?b0 d = (Throw UnixError, d2)"
      and c0: "log_content d2 = log_content d @ take k ?b0" and r0: "log_ready d2"
    using write_log_fault [OF assms(1-3)] by blast
  define d3 where "d3 = d2\<lparr>os := (os d2)\<lparr>write_fault := None\<rparr>\<rparr>"
  have nf: "no_fault d3" and c3: "log_content d3 = log_content d2"
    using r0 by (simp_all add: no_fault_def d3_def)
  obtain d4 where w1: "write_log ?b1 d3 = (Ret (), d4)" using write_log_no_fault [OF nf] by blast
  then have c4: "log_content d4 = log_content d3 @ ?b1"
    using nf wal.app_ok by (simp add: no_fault_def)
  define lm2 where "lm2 = (flush_start lm1)\<lparr>flush_in_progress := False\<rparr>"
  define lm3 where "lm3 = snd (append_record r1 lm2)"
  note d = lm1_def lm2_def lm3_def append_record_def Let_def new_LogManager_def flush_start_def
  have a0: "add_log_to_buffer r0 (new_LogManager, d) = (Ret 0, lm1, d)"
    using assms by (simp add: add_log_to_buffer.simps is_full_def d)
  have f0: "flush_log_to_disk 0 (lm1, d) = (Throw UnixError, lm2, d2)"
    using w0 by (simp add: flush_log_to_disk_def flush_log_to_disk_loop.simps flush_buffer_locked_def
        await_flush_def flush_finish_def d)
  have a1: "add_log_to_buffer r1 (lm2, d3) = (Ret 1, lm3, d3)"
    using assms by (simp add: add_log_to_buffer.simps is_full_def d to_i32_def)
  have f1: "\<exists>lm4. flush_log_to_disk 1 (lm3, d3) = (Ret (), lm4, d4) \<and> persist_lsn lm4 = 1"
    using w1 by (simp add: flush_log_to_disk_def flush_log_to_disk_loop.simps flush_buffer_locked_def
        await_flush_def flush_finish_def d to_i32_def)
  from a0 f0 a1 f1 c0 c3 c4 show ?thesis unfolding d3_def by auto
qed

theorem failed_flush_drops_batch_witness:
  "\<exists>(lm4 :: LogManager) (d4 :: DiskManager). persist_lsn lm4 = 1 \<and>
     log_content d4 = take 10 (serialize (set_lsn 0 (new_BeginLogRecord 1))) @
                      serialize (set_lsn 1 (new_CommitLogRecord 1 0))"
proof -
  let ?d = "sample_log_disk\<lparr>os := (os sample_log_disk)\<lparr>write_fault := Some (10, ENOSPC)\<rparr>\<rparr>"
  have c: "log_content sample_log_disk = []" by (simp add: log_content_def sample_log_disk_eq)
  have "log_tot_len (new_BeginLogRecord 1) = 24" "log_tot_len (new_CommitLogRecord 1 0) = 24"
    by (simp_all add: new_BeginLogRecord_def new_CommitLogRecord_def new_header_def layout_simps)
  moreover have "log_ready ?d" using sample_log_ready by simp
  ultimately have "\<exists>(lm4 :: LogManager) (d4 :: DiskManager). persist_lsn lm4 = 1 \<and> log_content d4 = log_content ?d @
      take 10 (serialize (set_lsn 0 (new_BeginLogRecord 1))) @ serialize (set_lsn 1 (new_CommitLogRecord 1 0))"
    using failed_flush_drops_batch [of ?d 10 ENOSPC "new_BeginLogRecord 1" "new_CommitLogRecord 1 0"]
    by (auto simp: LOG_BUFFER_SIZE_def PAGE_SIZE_def length_serialize_ge)
  then show ?thesis using c by auto
qed

end
