(* ===== verification/Buffer_Pool.thy ===== *)
theory Buffer_Pool
  imports Lru_Replacer Log_Manager
begin

text \<open>
  The buffer pool, \<^verbatim>\<open>src/src/storage/buffer_pool_manager.{h,cpp}\<close> and \<^verbatim>\<open>Page\<close> of
  \<^verbatim>\<open>src/src/storage/page.h\<close>: frames, shards with a page table, a free list and a replacer each, and the
  write-back of dirty pages after their log. A \<^verbatim>\<open>Page*\<close> is the number of its frame. The page table is
  an association list without repeated keys; its order stands for the iteration order of the hash map.
  Every operation holds the latch of its shard, so an operation is one step.
\<close>

unbundle bit_operations_syntax

section \<open>State\<close>

record Page =
  page_id :: PageId
  data :: bytes
  is_dirty :: bool
  pin_count :: nat

definition get_page_lsn :: "bytes \<Rightarrow> lsn_t" where
  "get_page_lsn d = get_i32 d 0"

definition set_page_lsn :: "bytes \<Rightarrow> lsn_t \<Rightarrow> bytes" where
  "set_page_lsn d lsn = put_i32 d 0 lsn"

text \<open>The memory of a page after \<^verbatim>\<open>reset_memory\<close>.\<close>

definition reset_memory :: bytes where
  "reset_memory = set_page_lsn (replicate PAGE_SIZE 0) INVALID_LSN"

record Shard =
  page_table :: "(PageId \<times> frame_id_t) list"
  free_list :: "frame_id_t list"
  replacer :: LRUReplacer

text \<open>The pool together with the log manager (if any) and the disk manager it points to.\<close>

record BufferPoolManager =
  shard_count :: nat
  pages :: "Page list"
  shards :: "Shard list"
  log_manager :: "LogManager option"
  dm :: DiskManager

definition choose_shard_count :: "nat \<Rightarrow> nat" where
  "choose_shard_count pool_size =
     (if pool_size < 1024 then 1 else if pool_size < 8192 then 8 else 32)"

definition new_BufferPoolManager :: "nat \<Rightarrow> DiskManager \<Rightarrow> BufferPoolManager" where
  "new_BufferPoolManager pool_size d =
     \<lparr>shard_count = choose_shard_count pool_size,
      pages = replicate pool_size
        \<lparr>page_id = PageId 0 INVALID_PAGE_ID, data = reset_memory, is_dirty = False, pin_count = 0\<rparr>,
      shards = map (\<lambda>i. \<lparr>page_table = [],
                          free_list = filter (\<lambda>f. f mod choose_shard_count pool_size = i) [0 ..< pool_size],
                          replacer = new_LRUReplacer pool_size\<rparr>) [0 ..< choose_shard_count pool_size],
      log_manager = None, dm = d\<rparr>"

text \<open>\<^verbatim>\<open>PageIdHash\<close>: the shift and the disjunction are on \<^verbatim>\<open>int\<close>, the result becomes a \<^verbatim>\<open>size_t\<close>.\<close>

definition PageIdHash :: "PageId \<Rightarrow> nat" where
  "PageIdHash p = nat ((to_i32 (pid_fd p * 2 ^ 16) OR pid_page_no p) mod 2 ^ 64)"

definition shard_index :: "PageId \<Rightarrow> BufferPoolManager \<Rightarrow> nat" where
  "shard_index p s = PageIdHash p mod shard_count s"

definition get_shard :: "PageId \<Rightarrow> BufferPoolManager \<Rightarrow> Shard" where
  "get_shard p s = shards s ! shard_index p s"

definition set_shard :: "nat \<Rightarrow> Shard \<Rightarrow> BufferPoolManager \<Rightarrow> BufferPoolManager" where
  "set_shard i sh s = s\<lparr>shards := (shards s)[i := sh]\<rparr>"

definition set_page :: "frame_id_t \<Rightarrow> Page \<Rightarrow> BufferPoolManager \<Rightarrow> BufferPoolManager" where
  "set_page f pg s = s\<lparr>pages := (pages s)[f := pg]\<rparr>"

definition mark_dirty :: "frame_id_t \<Rightarrow> BufferPoolManager \<Rightarrow> BufferPoolManager" where
  "mark_dirty f s = set_page f ((pages s ! f)\<lparr>is_dirty := True\<rparr>) s"

text \<open>The hash map: \<open>erase\<close> by key, and \<open>emplace\<close>, which keeps an entry that is already there.\<close>

definition erase :: "PageId \<Rightarrow> (PageId \<times> frame_id_t) list \<Rightarrow> (PageId \<times> frame_id_t) list" where
  "erase p t = filter (\<lambda>e. fst e \<noteq> p) t"

definition emplace :: "PageId \<Rightarrow> frame_id_t \<Rightarrow> (PageId \<times> frame_id_t) list \<Rightarrow> (PageId \<times> frame_id_t) list" where
  "emplace p f t = (if p \<in> fst ` set t then t else (p, f) # t)"

section \<open>Operations\<close>

definition flush_page_log :: "Page \<Rightarrow> BufferPoolManager \<Rightarrow> unit result \<times> BufferPoolManager" where
  "flush_page_log page s =
     (case log_manager s of
        None \<Rightarrow> (Ret (), s)
      | Some lm \<Rightarrow>
          (let page_lsn = get_page_lsn (data page) in
           if page_lsn \<noteq> INVALID_LSN
           then (case flush_log_to_disk page_lsn (lm, dm s) of
                   (r, lm', d') \<Rightarrow> (r, s\<lparr>log_manager := Some lm', dm := d'\<rparr>))
           else (Ret (), s)))"

text \<open>The two calls with which every operation writes a page back: first its log, then the page.\<close>

definition write_back :: "frame_id_t \<Rightarrow> PageId \<Rightarrow> BufferPoolManager \<Rightarrow> unit result \<times> BufferPoolManager" where
  "write_back f p s =
     (case flush_page_log (pages s ! f) s of
        (Inl e, s1) \<Rightarrow> (Throw e, s1)
      | (Inr _, s1) \<Rightarrow>
          (case write_page (pid_fd p) (pid_page_no p) (data (pages s ! f)) (dm s1) of
             (r, d') \<Rightarrow> (r, s1\<lparr>dm := d'\<rparr>)))"

definition find_victim_page :: "Shard \<Rightarrow> frame_id_t option \<times> Shard" where
  "find_victim_page sh =
     (if free_list sh \<noteq> []
      then (Some (last (free_list sh)), sh\<lparr>free_list := butlast (free_list sh)\<rparr>)
      else (case victim (replacer sh) of (f, r) \<Rightarrow> (f, sh\<lparr>replacer := r\<rparr>)))"

definition update_page :: "nat \<Rightarrow> frame_id_t \<Rightarrow> PageId \<Rightarrow> BufferPoolManager \<Rightarrow> unit result \<times> BufferPoolManager" where
  "update_page i f new_page_id s =
     (case (if is_dirty (pages s ! f) then write_back f (page_id (pages s ! f)) s else (Ret (), s)) of
        (Inl e, s1) \<Rightarrow> (Throw e, s1)
      | (Inr _, s1) \<Rightarrow>
          (let sh = shards s1 ! i;
               s2 = set_shard i
                      (sh\<lparr>page_table := emplace new_page_id f (erase (page_id (pages s1 ! f)) (page_table sh))\<rparr>) s1
           in (Ret (), set_page f \<lparr>page_id = new_page_id, data = reset_memory, is_dirty = False, pin_count = 0\<rparr> s2)))"

text \<open>\<^verbatim>\<open>page->pin_count_ = 1; shard.replacer_->pin(frame_id);\<close>\<close>

definition pin_frame :: "nat \<Rightarrow> frame_id_t \<Rightarrow> nat \<Rightarrow> BufferPoolManager \<Rightarrow> BufferPoolManager" where
  "pin_frame i f n s =
     set_shard i ((shards s ! i)\<lparr>replacer := pin f (replacer (shards s ! i))\<rparr>)
       (set_page f ((pages s ! f)\<lparr>pin_count := n\<rparr>) s)"

definition fetch_page :: "PageId \<Rightarrow> BufferPoolManager \<Rightarrow> frame_id_t option result \<times> BufferPoolManager" where
  "fetch_page p s =
     (let i = shard_index p s in
      case map_of (page_table (shards s ! i)) p of
        Some f \<Rightarrow>
          (let page = pages s ! f in
           if pin_count page = 0
           then (Ret (Some f), pin_frame i f (pin_count page + 1) s)
           else (Ret (Some f), set_page f (page\<lparr>pin_count := pin_count page + 1\<rparr>) s))
      | None \<Rightarrow>
          (case find_victim_page (shards s ! i) of
             (None, sh) \<Rightarrow> (Ret None, set_shard i sh s)
           | (Some f, sh) \<Rightarrow>
               (case update_page i f p (set_shard i sh s) of
                  (Inl e, s2) \<Rightarrow> (Throw e, s2)
                | (Inr _, s2) \<Rightarrow>
                    (case read_page (pid_fd p) (pid_page_no p) PAGE_SIZE (dm s2) of
                       (r, buf) \<Rightarrow>
                         (let page = pages s2 ! f;
                              s3 = set_page f (page\<lparr>data := put_bytes (data page) 0 buf\<rparr>) s2
                          in case r of
                               Inl e \<Rightarrow> (Throw e, s3)
                             | Inr _ \<Rightarrow> (Ret (Some f), pin_frame i f 1 s3))))))"

definition unpin_page :: "PageId \<Rightarrow> bool \<Rightarrow> BufferPoolManager \<Rightarrow> bool \<times> BufferPoolManager" where
  "unpin_page p dirty s =
     (let i = shard_index p s in
      case map_of (page_table (shards s ! i)) p of
        None \<Rightarrow> (False, s)
      | Some f \<Rightarrow>
          (let page = pages s ! f in
           if pin_count page = 0 then (False, s)
           else
             let page1 = page\<lparr>pin_count := pin_count page - 1\<rparr>;
                 s1 = (if pin_count page1 = 0
                       then set_shard i ((shards s ! i)\<lparr>replacer := unpin f (replacer (shards s ! i))\<rparr>) s
                       else s);
                 page2 = (if dirty then page1\<lparr>is_dirty := True\<rparr> else page1)
             in (True, set_page f page2 s1)))"

definition flush_page :: "PageId \<Rightarrow> BufferPoolManager \<Rightarrow> bool result \<times> BufferPoolManager" where
  "flush_page p s =
     (let i = shard_index p s in
      case map_of (page_table (shards s ! i)) p of
        None \<Rightarrow> (Ret False, s)
      | Some f \<Rightarrow>
          (case write_back f p s of
             (Inl e, s1) \<Rightarrow> (Throw e, s1)
           | (Inr _, s1) \<Rightarrow> (Ret True, set_page f ((pages s1 ! f)\<lparr>is_dirty := False\<rparr>) s1)))"

text \<open>The common tail of \<open>new_page\<close> and \<open>new_page_at\<close>.\<close>

definition claim_frame :: "nat \<Rightarrow> frame_id_t \<Rightarrow> PageId \<Rightarrow> BufferPoolManager \<Rightarrow> frame_id_t option result \<times> BufferPoolManager" where
  "claim_frame i f p s =
     (case update_page i f p s of
        (Inl e, s1) \<Rightarrow> (Throw e, s1)
      | (Inr _, s1) \<Rightarrow> (Ret (Some f), pin_frame i f 1 s1))"

definition new_page :: "int \<Rightarrow> BufferPoolManager \<Rightarrow> (PageId \<times> frame_id_t) option result \<times> BufferPoolManager" where
  "new_page fd s =
     (case allocate_page fd (dm s) of
        (Inl e, d1) \<Rightarrow> (Throw e, s\<lparr>dm := d1\<rparr>)
      | (Inr pno, d1) \<Rightarrow>
          (let s1 = s\<lparr>dm := d1\<rparr>; p = PageId fd pno; i = shard_index p s1 in
           case find_victim_page (shards s1 ! i) of
             (None, sh) \<Rightarrow>
               (case rollback_allocated_page fd pno d1 of
                  (Inl e, d2) \<Rightarrow> (Throw e, (set_shard i sh s1)\<lparr>dm := d2\<rparr>)
                | (Inr _, d2) \<Rightarrow> (Ret None, (set_shard i sh s1)\<lparr>dm := d2\<rparr>))
           | (Some f, sh) \<Rightarrow>
               (case claim_frame i f p (set_shard i sh s1) of
                  (Inl e, s2) \<Rightarrow> (Throw e, s2)
                | (Inr _, s2) \<Rightarrow> (Ret (Some (p, f)), s2))))"

definition new_page_at :: "PageId \<Rightarrow> BufferPoolManager \<Rightarrow> frame_id_t option result \<times> BufferPoolManager" where
  "new_page_at p s =
     (let i = shard_index p s in
      if p \<in> fst ` set (page_table (shards s ! i)) then (Ret None, s)
      else case find_victim_page (shards s ! i) of
          (None, sh) \<Rightarrow> (Ret None, set_shard i sh s)
        | (Some f, sh) \<Rightarrow> claim_frame i f p (set_shard i sh s))"

text \<open>The frame after its page was dropped: \<^verbatim>\<open>page->id_.page_no = INVALID_PAGE_ID\<close> and a reset.\<close>

definition freed_page :: "Page \<Rightarrow> Page" where
  "freed_page page =
     \<lparr>page_id = PageId (pid_fd (page_id page)) INVALID_PAGE_ID, data = reset_memory, is_dirty = False, pin_count = 0\<rparr>"

definition delete_page :: "PageId \<Rightarrow> BufferPoolManager \<Rightarrow> bool result \<times> BufferPoolManager" where
  "delete_page p s =
     (let i = shard_index p s in
      case map_of (page_table (shards s ! i)) p of
        None \<Rightarrow> (Ret True, s)
      | Some f \<Rightarrow>
          (if pin_count (pages s ! f) \<noteq> 0 then (Ret False, s)
           else case (if is_dirty (pages s ! f) then write_back f p s else (Ret (), s)) of
               (Inl e, s1) \<Rightarrow> (Throw e, s1)
             | (Inr _, s1) \<Rightarrow>
                 (let sh = shards s1 ! i in
                  (Ret True,
                   set_shard i (sh\<lparr>page_table := erase p (page_table sh), free_list := free_list sh @ [f]\<rparr>)
                     (set_page f (freed_page (pages s1 ! f)) s1)))))"

fun flush_entries :: "int \<Rightarrow> (PageId \<times> frame_id_t) list \<Rightarrow> BufferPoolManager \<Rightarrow> unit result \<times> BufferPoolManager" where
  "flush_entries fd [] s = (Ret (), s)"
| "flush_entries fd ((p, f) # t) s =
     (if pid_fd p \<noteq> fd then flush_entries fd t s
      else case write_back f p s of
          (Inl e, s1) \<Rightarrow> (Throw e, s1)
        | (Inr _, s1) \<Rightarrow> flush_entries fd t (set_page f ((pages s1 ! f)\<lparr>is_dirty := False\<rparr>) s1))"

fun flush_shards :: "int \<Rightarrow> nat list \<Rightarrow> BufferPoolManager \<Rightarrow> unit result \<times> BufferPoolManager" where
  "flush_shards fd [] s = (Ret (), s)"
| "flush_shards fd (i # is) s =
     (case flush_entries fd (page_table (shards s ! i)) s of
        (Inl e, s1) \<Rightarrow> (Throw e, s1)
      | (Inr _, s1) \<Rightarrow> flush_shards fd is s1)"

definition flush_all_pages :: "int \<Rightarrow> BufferPoolManager \<Rightarrow> unit result \<times> BufferPoolManager" where
  "flush_all_pages fd s = flush_shards fd [0 ..< length (shards s)] s"

fun delete_entries :: "nat \<Rightarrow> int \<Rightarrow> (PageId \<times> frame_id_t) list \<Rightarrow> BufferPoolManager \<Rightarrow> BufferPoolManager" where
  "delete_entries i fd [] s = s"
| "delete_entries i fd ((p, f) # t) s =
     (if pid_fd p \<noteq> fd then delete_entries i fd t s
      else
        let sh = shards s ! i in
        delete_entries i fd t
          (set_shard i (sh\<lparr>replacer := pin f (replacer sh), free_list := free_list sh @ [f],
                           page_table := erase p (page_table sh)\<rparr>)
             (set_page f (freed_page (pages s ! f)) s)))"

definition delete_all_pages :: "int \<Rightarrow> BufferPoolManager \<Rightarrow> BufferPoolManager" where
  "delete_all_pages fd s =
     foldl (\<lambda>s i. delete_entries i fd (page_table (shards s ! i)) s) s [0 ..< length (shards s)]"

section \<open>Writing back\<close>

lemma length_reset_memory [simp]: "length reset_memory = PAGE_SIZE"
  by (simp add: reset_memory_def set_page_lsn_def put_i32_def put_bytes_def PAGE_SIZE_def)

lemma flush_page_log_spec:
  assumes "flush_page_log page s = (r, s')"
  shows "pages s' = pages s" "shards s' = shards s" "shard_count s' = shard_count s"
    "log_manager s' = None \<longleftrightarrow> log_manager s = None"
    "disk_inv (dm s) \<Longrightarrow> disk_inv (dm s')"
    "disk_inv (dm s) \<Longrightarrow> disk_page (dm s) q = Some x \<Longrightarrow> disk_page (dm s') q = Some x"
    "log_manager s = Some lm \<Longrightarrow> log_durable lm l \<Longrightarrow> log_durable (the (log_manager s')) l"
    "r = Ret () \<Longrightarrow> log_manager s = Some lm \<Longrightarrow> log_durable (the (log_manager s')) (get_page_lsn (data page))"
proof -
  let ?l = "get_page_lsn (data page)"
  have e: "flush_effect (lm, dm s) (lm', d')" if "flush_log_to_disk ?l (lm, dm s) = (r', lm', d')" for lm r' lm' d'
    using flush_log_to_disk_effect [of "(lm, dm s)" ?l] that by simp
  show "pages s' = pages s" "shards s' = shards s" "shard_count s' = shard_count s"
    "log_manager s' = None \<longleftrightarrow> log_manager s = None"
    using assms by (auto simp: flush_page_log_def Let_def split: option.splits if_splits prod.splits)
  show "disk_inv (dm s) \<Longrightarrow> disk_inv (dm s')"
    "disk_inv (dm s) \<Longrightarrow> disk_page (dm s) q = Some x \<Longrightarrow> disk_page (dm s') q = Some x"
    "log_manager s = Some lm \<Longrightarrow> log_durable lm l \<Longrightarrow> log_durable (the (log_manager s')) l"
    using assms e
    by (auto simp: flush_page_log_def Let_def flush_effect_def split: option.splits if_splits prod.splits)
  show "log_durable (the (log_manager s')) ?l" if "r = Ret ()" "log_manager s = Some lm"
  proof (cases "?l = INVALID_LSN")
    case True
    then show ?thesis by (simp add: log_durable_def)
  next
    case False
    obtain r' lm' d' where f: "flush_log_to_disk ?l (lm, dm s) = (r', lm', d')" by (rule prod_cases3)
    with assms that False have "r' = Ret ()" "log_manager s' = Some lm'"
      by (auto simp: flush_page_log_def Let_def)
    with f False flush_loop_durable [of ?l "(lm, dm s)" "(lm', d')"] show ?thesis
      by (simp add: flush_log_to_disk_def)
  qed
qed

text \<open>
  Writing back a page, successfully or not, touches neither frames nor shards and keeps every page on
  disk except that the written page gets the content of the frame; on success it has it, and
  the log of that page is durable.
\<close>

lemma write_back_spec:
  assumes w: "write_back f p s = (r, s')" and i: "disk_inv (dm s)" and l: "length (data (pages s ! f)) = PAGE_SIZE"
  shows "pages s' = pages s" "shards s' = shards s" "shard_count s' = shard_count s"
    "log_manager s' = None \<longleftrightarrow> log_manager s = None"
    "disk_inv (dm s')"
    "q \<noteq> p \<or> data (pages s ! f) = x \<Longrightarrow> disk_page (dm s) q = Some x \<Longrightarrow> disk_page (dm s') q = Some x"
    "r = Ret () \<Longrightarrow> disk_page (dm s') p = Some (data (pages s ! f))"
    "log_manager s = Some lm \<Longrightarrow> log_durable lm n \<Longrightarrow> log_durable (the (log_manager s')) n"
    "r = Ret () \<Longrightarrow> log_manager s = Some lm \<Longrightarrow>
       log_durable (the (log_manager s')) (get_page_lsn (data (pages s ! f)))"
proof -
  obtain r1 s1 where f: "flush_page_log (pages s ! f) s = (r1, s1)" by fastforce
  note fs = flush_page_log_spec [OF f]
  consider (thrown) e where "r1 = Inl e" "r = Throw e" "s' = s1"
    | (written) d' where "r1 = Ret ()" "disk_write p (data (pages s ! f)) (dm s1) = (r, d')" "s' = s1\<lparr>dm := d'\<rparr>"
    using w f by (auto simp: write_back_def disk_write_def split: sum.splits prod.splits)
  note cases = this
  have i1: "disk_inv (dm s1)" by (rule fs(5) [OF i])
  have eq: "pages s' = pages s1" "shards s' = shards s1" "shard_count s' = shard_count s1"
      "log_manager s' = log_manager s1" and r1: "r = Ret () \<Longrightarrow> r1 = Ret ()"
    using cases by (cases; simp)+
  show "pages s' = pages s" "shards s' = shards s" "shard_count s' = shard_count s"
    "log_manager s' = None \<longleftrightarrow> log_manager s = None"
    "log_manager s = Some lm \<Longrightarrow> log_durable lm n \<Longrightarrow> log_durable (the (log_manager s')) n"
    "r = Ret () \<Longrightarrow> log_manager s = Some lm \<Longrightarrow>
       log_durable (the (log_manager s')) (get_page_lsn (data (pages s ! f)))"
    using fs(1-4) fs(7) [of lm n] fs(8) [of lm] r1 by (simp_all add: eq)
  show "disk_inv (dm s')"
    using cases by cases (use i1 disk.wr_ok [OF i1] in auto)
  show "disk_page (dm s') q = Some x" if "q \<noteq> p \<or> data (pages s ! f) = x" "disk_page (dm s) q = Some x"
    using cases
  proof cases
    case written
    with disk.wr_keeps [OF i1 l written(2) that(1) fs(6) [OF i that(2)]] show ?thesis by simp
  qed (use fs(6) [OF i that(2)] in simp)
  show "disk_page (dm s') p = Some (data (pages s ! f))" if "r = Ret ()"
    using cases by cases (use that disk.wr_same [OF i1 l] in auto)
qed

section \<open>Invariant\<close>

text \<open>
  Shard \<open>i\<close> of \<open>n\<close>: the page table maps distinct pages to frames that carry them, free frames are clean
  and carry no page, and a frame the replacer may evict is free or holds an unpinned page. A
  deleted page leaves its frame both in the free list and with the replacer, which is harmless
  because the free list is used first and a frame is pinned when it is handed out.
\<close>

definition shard_ok :: "nat \<Rightarrow> nat \<Rightarrow> Page list \<Rightarrow> Shard \<Rightarrow> bool" where
  "shard_ok n i pgs sh \<longleftrightarrow>
     lru_inv (replacer sh) \<and> max_size (replacer sh) = length pgs \<and>
     distinct (map fst (page_table sh)) \<and> distinct (free_list sh) \<and>
     (\<forall>p f. (p, f) \<in> set (page_table sh) \<longrightarrow>
        f < length pgs \<and> f mod n = i \<and> PageIdHash p mod n = i \<and> page_id (pgs ! f) = p \<and>
        f \<notin> set (free_list sh) \<and> pid_page_no p \<noteq> INVALID_PAGE_ID) \<and>
     (\<forall>f \<in> set (free_list sh).
        f < length pgs \<and> f mod n = i \<and> \<not> is_dirty (pgs ! f) \<and>
        pid_page_no (page_id (pgs ! f)) = INVALID_PAGE_ID) \<and>
     (\<forall>f \<in> set (evictable (replacer sh)).
        f \<in> set (free_list sh) \<or> (\<exists>p. (p, f) \<in> set (page_table sh) \<and> pin_count (pgs ! f) = 0))"

definition pool_ok :: "BufferPoolManager \<Rightarrow> bool" where
  "pool_ok s \<longleftrightarrow>
     shard_count s = length (shards s) \<and> 0 < length (shards s) \<and> disk_inv (dm s) \<and>
     (\<forall>f < length (pages s). length (data (pages s ! f)) = PAGE_SIZE) \<and>
     (\<forall>i < length (shards s). shard_ok (length (shards s)) i (pages s) (shards s ! i))"

lemma shard_okD:
  assumes "shard_ok n i pgs sh"
  shows "lru_inv (replacer sh)" "max_size (replacer sh) = length pgs" "distinct (map fst (page_table sh))"
    "distinct (free_list sh)"
    "(p, f) \<in> set (page_table sh) \<Longrightarrow> f < length pgs \<and> f mod n = i \<and> PageIdHash p mod n = i \<and>
       page_id (pgs ! f) = p \<and> f \<notin> set (free_list sh) \<and> pid_page_no p \<noteq> INVALID_PAGE_ID"
    "f \<in> set (free_list sh) \<Longrightarrow> f < length pgs \<and> f mod n = i \<and> \<not> is_dirty (pgs ! f) \<and>
       pid_page_no (page_id (pgs ! f)) = INVALID_PAGE_ID"
    "f \<in> set (evictable (replacer sh)) \<Longrightarrow>
       f \<in> set (free_list sh) \<or> (\<exists>p. (p, f) \<in> set (page_table sh) \<and> pin_count (pgs ! f) = 0)"
  using assms unfolding shard_ok_def by blast+

text \<open>A frame of another shard, and a frame whose page stays.\<close>

lemma shard_ok_other:
  assumes ok: "shard_ok n i pgs sh" and f: "f mod n \<noteq> i"
  shows "shard_ok n i (pgs[f := pg]) sh"
proof -
  have same: "pgs[f := pg] ! g = pgs ! g" if "g mod n = i" for g
    using that f by (cases "g = f") auto
  have ev: "g mod n = i" if "g \<in> set (evictable (replacer sh))" for g
    using shard_okD(5-7) [OF ok] that by blast
  show ?thesis
    using ok same ev unfolding shard_ok_def length_list_update by metis
qed

lemma shard_ok_touch:
  assumes ok: "shard_ok n i pgs sh" and e: "(p, f) \<in> set (page_table sh)" and id: "page_id pg = p"
    and pin: "f \<in> set (evictable (replacer sh)) \<Longrightarrow> pin_count pg = 0"
  shows "shard_ok n i (pgs[f := pg]) sh"
proof -
  have f: "f < length pgs" "f \<notin> set (free_list sh)" using shard_okD(5) [OF ok e] by auto
  then have upd: "pgs[f := pg] ! g = (if g = f then pg else pgs ! g)" for g by simp
  have "page_id (pgs ! f) = p" using shard_okD(5) [OF ok e] by simp
  then show ?thesis
    using ok f id pin unfolding shard_ok_def length_list_update upd by auto
qed

lemma shard_ok_pin:
  assumes ok: "shard_ok n i pgs sh" and "f < length pgs"
  shows "shard_ok n i pgs (sh\<lparr>replacer := pin f (replacer sh)\<rparr>)"
proof -
  have "f < max_size (replacer sh)" using assms shard_okD(2) [OF ok] by simp
  then show ?thesis
    using ok lru.pn_set [OF shard_okD(1) [OF ok]] lru.pn_inv [OF shard_okD(1) [OF ok]]
    by (simp add: shard_ok_def)
qed

lemma shard_ok_unpin:
  assumes ok: "shard_ok n i pgs sh" and e: "(p, f) \<in> set (page_table sh)" and "pin_count (pgs ! f) = 0"
  shows "shard_ok n i pgs (sh\<lparr>replacer := unpin f (replacer sh)\<rparr>)"
proof -
  have "f < max_size (replacer sh)" using shard_okD(2) [OF ok] shard_okD(5) [OF ok e] by simp
  then show ?thesis
    using ok e assms(3) lru.upn_set [OF shard_okD(1) [OF ok]] lru.upn_inv [OF shard_okD(1) [OF ok]]
    by (auto simp: shard_ok_def)
qed

text \<open>
  The frame that \<open>find_victim_page\<close> hands out: it is no longer free, and either no page is mapped to
  it and it is clean, or its page is unpinned and it can no longer be evicted.
\<close>

definition handed_out :: "nat \<Rightarrow> nat \<Rightarrow> Page list \<Rightarrow> Shard \<Rightarrow> frame_id_t \<Rightarrow> Shard \<Rightarrow> bool" where
  "handed_out n i pgs sh f sh' \<longleftrightarrow>
     page_table sh' = page_table sh \<and> f < length pgs \<and> f mod n = i \<and>
     set (free_list sh') = set (free_list sh) - {f} \<and> distinct (free_list sh') \<and>
     lru_inv (replacer sh') \<and> max_size (replacer sh') = length pgs \<and>
     set (evictable (replacer sh')) \<subseteq> set (evictable (replacer sh)) \<and>
     (if \<exists>p. (p, f) \<in> set (page_table sh) then pin_count (pgs ! f) = 0 \<and> shard_ok n i pgs sh'
      else \<not> is_dirty (pgs ! f) \<and> pid_page_no (page_id (pgs ! f)) = INVALID_PAGE_ID)"

lemma find_victim_handed_out:
  assumes ok: "shard_ok n i pgs sh" and v: "find_victim_page sh = (Some f, sh')"
  shows "handed_out n i pgs sh f sh'"
proof -
  note D = shard_okD [OF ok]
  show ?thesis
  proof (cases "free_list sh = []")
    case False
    then have f: "f = last (free_list sh)" "sh' = sh\<lparr>free_list := butlast (free_list sh)\<rparr>"
      using v by (auto simp: find_victim_page_def)
    then have m: "f \<in> set (free_list sh)" using False by simp
    have "set (butlast (free_list sh)) = set (free_list sh) - {f}"
      using set_butlast_distinct [OF D(4) False] f by simp
    then show ?thesis
      using f m D(1,2) D(6) [OF m] D(5) [of _ f] distinct_butlast [OF D(4)] by (auto simp: handed_out_def)
  next
    case True
    then obtain r where r: "victim (replacer sh) = (Some f, r)" "sh' = sh\<lparr>replacer := r\<rparr>"
      using v by (auto simp: find_victim_page_def split: prod.splits)
    note V = lru.vic_someD [OF D(1) r(1)]
    obtain p where p: "(p, f) \<in> set (page_table sh)" "pin_count (pgs ! f) = 0"
      using D(7) [OF V(1)] True by auto
    have "shard_ok n i pgs sh'"
      using ok V r(2) D(2) unfolding shard_ok_def by auto
    then show ?thesis
      using r V p D(2) D(5) [OF p(1)] True by (auto simp: handed_out_def)
  qed
qed

lemma find_victim_none:
  assumes ok: "shard_ok n i pgs sh" and v: "find_victim_page sh = (None, sh')"
  shows "sh' = sh" "free_list sh = []" "evictable (replacer sh) = []"
  using v lru.vic_noneD [OF shard_okD(1) [OF ok]]
  by (auto simp: find_victim_page_def split: if_splits prod.splits)

text \<open>The page table after a frame was given to another page.\<close>

lemma map_of_rebind:
  assumes "p \<notin> fst ` set t"
  shows "map_of (emplace p f (erase old t)) q =
    (if q = p then Some f else if q = old then None else map_of t q)"
proof -
  have "map_of (filter (\<lambda>e. fst e \<noteq> old) t) q = (if q = old then None else map_of t q)"
    by (induction t) auto
  then show ?thesis using assms by (auto simp: emplace_def erase_def)
qed

lemma mapped_unique:
  assumes "shard_ok n i pgs sh" and "(p, f) \<in> set (page_table sh)" and "(q, g) \<in> set (page_table sh)"
  shows "p = q \<longleftrightarrow> f = g"
  using assms shard_okD(3,5) by (metis eq_key_imp_eq_value)

lemma rebind_ok:
  assumes ok: "shard_ok n i pgs sh" and h: "handed_out n i pgs sh f sh'"
    and p: "p \<notin> fst ` set (page_table sh)" "PageIdHash p mod n = i" "pid_page_no p \<noteq> INVALID_PAGE_ID"
    and pg: "page_id pg = p" "pin_count pg = 0"
  shows "shard_ok n i (pgs[f := pg])
    (sh'\<lparr>page_table := emplace p f (erase (page_id (pgs ! f)) (page_table sh'))\<rparr>)"
proof -
  note D = shard_okD [OF ok]
  let ?t = "filter (\<lambda>e. fst e \<noteq> page_id (pgs ! f)) (page_table sh)"
  have H: "page_table sh' = page_table sh" "f < length pgs" "f mod n = i"
      "set (free_list sh') = set (free_list sh) - {f}" "distinct (free_list sh')"
      "lru_inv (replacer sh')" "max_size (replacer sh') = length pgs"
      "set (evictable (replacer sh')) \<subseteq> set (evictable (replacer sh))"
    using h unfolding handed_out_def by blast+
  have t: "emplace p f (erase (page_id (pgs ! f)) (page_table sh')) = (p, f) # ?t"
    using p(1) H(1) by (auto simp: emplace_def erase_def)
  have upd: "pgs[f := pg] ! g = (if g = f then pg else pgs ! g)" for g using H(2) by simp
  have keep: "(q, g) \<in> set ?t \<longleftrightarrow> (q, g) \<in> set (page_table sh) \<and> g \<noteq> f" for q g
  proof (cases "\<exists>q'. (q', f) \<in> set (page_table sh)")
    case True
    then obtain q' where q': "(q', f) \<in> set (page_table sh)" by blast
    then show ?thesis using D(5) [OF q'] mapped_unique [OF ok q', of q g] by auto
  next
    case False
    then have "pid_page_no (page_id (pgs ! f)) = INVALID_PAGE_ID" using h by (simp add: handed_out_def)
    with False show ?thesis using D(5) [of q g] by auto
  qed
  have "distinct (map fst ?t)" using D(3) by (rule map_filter_fst_distinct)
  moreover have "p \<notin> fst ` set ?t" using p(1) by auto
  moreover have "g = f \<or> g \<in> set (free_list sh') \<or> (\<exists>q. (q, g) \<in> set ?t \<and> pin_count (pgs ! g) = 0)"
    if "g \<in> set (evictable (replacer sh'))" for g
    using that D(7) [of g] H(4,8) keep by auto
  moreover have "g < length pgs \<and> g mod n = i \<and> PageIdHash q mod n = i \<and> page_id (if g = f then pg else pgs ! g) = q \<and>
      g \<notin> set (free_list sh') \<and> pid_page_no q \<noteq> INVALID_PAGE_ID" if "(q, g) \<in> set ((p, f) # ?t)" for q g
    using that keep [of q g] D(5) [of q g] H(2-4) p(2,3) pg(1) by auto
  moreover have "g < length pgs \<and> g mod n = i \<and> \<not> is_dirty (if g = f then pg else pgs ! g) \<and>
      pid_page_no (page_id (if g = f then pg else pgs ! g)) = INVALID_PAGE_ID" if "g \<in> set (free_list sh')" for g
    using that D(6) [of g] H(4) by auto
  ultimately show ?thesis
    unfolding shard_ok_def t upd length_list_update
    using H(5-7) pg(2) by (auto simp del: set_filter)
qed

lemma drop_ok:
  assumes ok: "shard_ok n i pgs sh" and e: "(p, f) \<in> set (page_table sh)"
    and pg: "\<not> is_dirty pg" "pid_page_no (page_id pg) = INVALID_PAGE_ID"
    and r: "lru_inv r" "max_size r = length pgs" "set (evictable r) \<subseteq> set (evictable (replacer sh))"
  shows "shard_ok n i (pgs[f := pg])
    (sh\<lparr>page_table := erase p (page_table sh), free_list := free_list sh @ [f], replacer := r\<rparr>)"
proof -
  note D = shard_okD [OF ok]
  have f: "f < length pgs" "f mod n = i" "f \<notin> set (free_list sh)" using D(5) [OF e] by auto
  have upd: "pgs[f := pg] ! g = (if g = f then pg else pgs ! g)" for g using f(1) by simp
  have keep: "(q, g) \<in> set (erase p (page_table sh)) \<longleftrightarrow> (q, g) \<in> set (page_table sh) \<and> g \<noteq> f" for q g
    using mapped_unique [OF ok e, of q g] e by (auto simp: erase_def)
  have "distinct (map fst (erase p (page_table sh)))"
    unfolding erase_def using D(3) by (rule map_filter_fst_distinct)
  moreover have "g = f \<or> g \<in> set (free_list sh) \<or> (\<exists>q. (q, g) \<in> set (erase p (page_table sh)) \<and> pin_count (pgs ! g) = 0)"
    if "g \<in> set (evictable r)" for g
    using that D(7) [of g] r(3) keep by auto
  ultimately show ?thesis
    unfolding shard_ok_def upd length_list_update
    using f D(4-6) pg r keep by auto
qed

section \<open>Pages as the clients see them\<close>

definition lookup :: "BufferPoolManager \<Rightarrow> PageId \<Rightarrow> frame_id_t option" where
  "lookup s p = map_of (page_table (shards s ! shard_index p s)) p"

text \<open>
  Page \<open>p\<close> safely holds \<open>x\<close>: if it is in the pool, its frame holds \<open>x\<close> and is dirty unless the disk has
  \<open>x\<close> too; otherwise the disk has \<open>x\<close>.
\<close>

definition holds :: "BufferPoolManager \<Rightarrow> PageId \<Rightarrow> bytes \<Rightarrow> bool" where
  "holds s p x \<longleftrightarrow>
     (case lookup s p of
        Some f \<Rightarrow> data (pages s ! f) = x \<and> (is_dirty (pages s ! f) \<or> disk_page (dm s) p = Some x)
      | None \<Rightarrow> disk_page (dm s) p = Some x)"

lemma pool_okD:
  assumes "pool_ok s"
  shows "shard_count s = length (shards s)" "0 < length (shards s)" "disk_inv (dm s)"
    "f < length (pages s) \<Longrightarrow> length (data (pages s ! f)) = PAGE_SIZE"
    "i < length (shards s) \<Longrightarrow> shard_ok (length (shards s)) i (pages s) (shards s ! i)"
    "shard_index p s < length (shards s)"
  using assms by (auto simp: pool_ok_def shard_index_def)

lemma lookup_shard:
  assumes "pool_ok s"
  shows "lookup s p = Some f \<longleftrightarrow> (p, f) \<in> set (page_table (shards s ! shard_index p s))"
  using shard_okD(3) [OF pool_okD(5) [OF assms pool_okD(6) [OF assms]]] by (auto simp: lookup_def)

lemma entry_lookup:
  assumes ok: "pool_ok s" and "i < length (shards s)" and "(p, f) \<in> set (page_table (shards s ! i))"
  shows "lookup s p = Some f" "shard_index p s = i" "f < length (pages s)" "f mod length (shards s) = i"
    "page_id (pages s ! f) = p"
proof -
  show i: "shard_index p s = i"
    using shard_okD(5) [OF pool_okD(5) [OF ok assms(2)] assms(3)] pool_okD(1) [OF ok] by (simp add: shard_index_def)
  show "lookup s p = Some f" using lookup_shard [OF ok] i assms(3) by simp
  show "f < length (pages s)" "f mod length (shards s) = i" "page_id (pages s ! f) = p"
    using shard_okD(5) [OF pool_okD(5) [OF ok assms(2)] assms(3)] by auto
qed

lemma lookupD:
  assumes ok: "pool_ok s" and l: "lookup s p = Some f"
  shows "f < length (pages s)" "page_id (pages s ! f) = p" "f mod length (shards s) = shard_index p s"
    "(p, f) \<in> set (page_table (shards s ! shard_index p s))"
    "length (data (pages s ! f)) = PAGE_SIZE" "pid_page_no p \<noteq> INVALID_PAGE_ID"
proof -
  show e: "(p, f) \<in> set (page_table (shards s ! shard_index p s))" using lookup_shard [OF ok] l by simp
  show f: "f < length (pages s)" and "page_id (pages s ! f) = p" "f mod length (shards s) = shard_index p s"
    "pid_page_no p \<noteq> INVALID_PAGE_ID"
    using shard_okD(5) [OF pool_okD(5) [OF ok pool_okD(6) [OF ok]] e] by auto
  show "length (data (pages s ! f)) = PAGE_SIZE" using pool_okD(4) [OF ok f] .
qed

lemma lookup_inj: "pool_ok s \<Longrightarrow> lookup s p = Some f \<Longrightarrow> lookup s q = Some f \<Longrightarrow> p = q"
  using lookupD(2) by metis

text \<open>An operation changes one frame and its shard, and the disk.\<close>

lemma pool_ok_update:
  assumes ok: "pool_ok s" and i: "i < length (shards s)" and f: "f mod length (shards s) = i"
    and d: "disk_inv d" and l: "length (data pg) = PAGE_SIZE"
    and sh: "shard_ok (length (shards s)) i ((pages s)[f := pg]) sh"
    and s': "pages s' = (pages s)[f := pg]" "shards s' = (shards s)[i := sh]" "shard_count s' = shard_count s" "dm s' = d"
  shows "pool_ok s'"
proof -
  have "shard_ok (length (shards s)) j ((pages s)[f := pg]) ((shards s)[i := sh] ! j)" if "j < length (shards s)" for j
    using that sh shard_ok_other [OF pool_okD(5) [OF ok that]] f by (cases "j = i") auto
  moreover have "length (data ((pages s)[f := pg] ! g)) = PAGE_SIZE" if "g < length (pages s)" for g
    using that l pool_okD(4) [OF ok that] by (cases "g = f") auto
  ultimately show ?thesis
    using pool_okD(1,2) [OF ok] d by (simp add: pool_ok_def s')
qed

section \<open>What each operation keeps\<close>

lemma pool_fields [pool_simps]:
  "pages (set_page f pg s) = (pages s)[f := pg]" "shards (set_page f pg s) = shards s"
  "shard_count (set_page f pg s) = shard_count s" "dm (set_page f pg s) = dm s"
  "log_manager (set_page f pg s) = log_manager s"
  "pages (set_shard i sh s) = pages s" "shards (set_shard i sh s) = (shards s)[i := sh]"
  "shard_count (set_shard i sh s) = shard_count s" "dm (set_shard i sh s) = dm s"
  "log_manager (set_shard i sh s) = log_manager s"
  by (simp_all add: set_page_def set_shard_def)

lemma shard_index_cong: "shard_count s' = shard_count s \<Longrightarrow> shard_index p s' = shard_index p s"
  by (simp add: shard_index_def)

text \<open>
  \<open>keeps X s s'\<close>: \<open>s'\<close> is well-formed and every page outside \<open>X\<close> still holds what it held.
\<close>

definition keeps :: "PageId set \<Rightarrow> BufferPoolManager \<Rightarrow> BufferPoolManager \<Rightarrow> bool" where
  "keeps X s s' \<longleftrightarrow> pool_ok s' \<and> length (shards s') = length (shards s) \<and> length (pages s') = length (pages s) \<and>
     (\<forall>q x. q \<notin> X \<longrightarrow> holds s q x \<longrightarrow> holds s' q x)"

lemma keeps_refl: "pool_ok s \<Longrightarrow> keeps X s s"
  by (simp add: keeps_def)

lemma keeps_trans: "keeps X s t \<Longrightarrow> keeps X t u \<Longrightarrow> keeps X s u"
  by (simp add: keeps_def)

lemma keeps_mono: "keeps X s t \<Longrightarrow> X \<subseteq> Y \<Longrightarrow> keeps Y s t"
  by (auto simp: keeps_def)

lemma keeps_close:
  assumes "keeps {p} s t" and "\<And>x. holds s p x \<Longrightarrow> holds t p x"
  shows "keeps {} s t"
  using assms unfolding keeps_def by (metis singletonD)

lemma keeps_ok: "keeps X s t \<Longrightarrow> pool_ok t"
  by (simp add: keeps_def)

lemma keeps_write_back:
  assumes ok: "pool_ok s" and l: "lookup s p = Some f" and w: "write_back f p s = (r, s')"
  shows "keeps {} s s'" "lookup s' = lookup s"
proof -
  note L = lookupD [OF ok l]
  note W = write_back_spec [OF w pool_okD(3) [OF ok] L(5)]
  have idx: "shard_index q s' = shard_index q s" for q using W(3) by (rule shard_index_cong)
  show lk: "lookup s' = lookup s" using W(2) idx by (simp add: lookup_def fun_eq_iff)
  have "holds s' q x" if "holds s q x" for q x
  proof (cases "q = p")
    case True
    with that l W(1) W(6) [of p x] show ?thesis by (auto simp: holds_def lk)
  next
    case False
    with that W(1) W(6) [of q x] show ?thesis by (auto simp: holds_def lk split: option.splits)
  qed
  moreover have "pool_ok s'" using ok W(1-3,5) by (simp add: pool_ok_def)
  ultimately show "keeps {} s s'" using W(1,2) by (simp add: keeps_def)
qed

text \<open>The write-back of a page that is about to leave the pool: afterwards the disk has it.\<close>

lemma leave_pool:
  assumes ok: "pool_ok s" and l: "lookup s p = Some f"
    and w: "(if is_dirty (pages s ! f) then write_back f p s else (Ret (), s)) = (r, s1)"
  shows "keeps {} s s1" "lookup s1 = lookup s" "pages s1 = pages s" "shards s1 = shards s"
    "shard_count s1 = shard_count s"
    "z \<noteq> p \<Longrightarrow> disk_page (dm s) z = Some x \<Longrightarrow> disk_page (dm s1) z = Some x"
    "r = Ret () \<Longrightarrow> holds s1 p x \<Longrightarrow> disk_page (dm s1) p = Some x"
proof -
  note L = lookupD [OF ok l]
  have "keeps {} s s1 \<and> lookup s1 = lookup s \<and> pages s1 = pages s \<and> shards s1 = shards s \<and> shard_count s1 = shard_count s \<and>
    (z \<noteq> p \<longrightarrow> disk_page (dm s) z = Some x \<longrightarrow> disk_page (dm s1) z = Some x) \<and>
    (r = Ret () \<longrightarrow> holds s1 p x \<longrightarrow> disk_page (dm s1) p = Some x)"
  proof (cases "is_dirty (pages s ! f)")
    case True
    with w have w': "write_back f p s = (r, s1)" by simp
    note W = write_back_spec [OF w' pool_okD(3) [OF ok] L(5)]
    note K = keeps_write_back [OF ok l w']
    have "disk_page (dm s1) p = Some x" if "r = Ret ()" "holds s1 p x"
      using that(2) W(7) [OF that(1)] W(1) K(2) l by (simp add: holds_def)
    then show ?thesis using K W(1-3) W(6) [of z x] by simp
  next
    case False
    with w have s1: "s1 = s" by simp
    have "disk_page (dm s) p = Some x" if "holds s p x" using that l False by (simp add: holds_def)
    then show ?thesis using keeps_refl [OF ok] by (simp add: s1)
  qed
  then show "keeps {} s s1" "lookup s1 = lookup s" "pages s1 = pages s" "shards s1 = shards s"
    "shard_count s1 = shard_count s"
    "z \<noteq> p \<Longrightarrow> disk_page (dm s) z = Some x \<Longrightarrow> disk_page (dm s1) z = Some x"
    "r = Ret () \<Longrightarrow> holds s1 p x \<Longrightarrow> disk_page (dm s1) p = Some x" by blast+
qed

text \<open>Changing the bookkeeping of a mapped frame: pin count, dirty flag, replacer.\<close>

lemma keeps_touch:
  assumes ok: "pool_ok s" and l: "lookup s p = Some f" and i: "i = shard_index p s"
    and pg: "page_id pg = p" "data pg = data (pages s ! f)"
      "is_dirty (pages s ! f) \<Longrightarrow> is_dirty pg \<or> disk_page (dm s) p = Some (data pg)"
    and sh: "page_table sh = page_table (shards s ! i)"
      "shard_ok (length (shards s)) i ((pages s)[f := pg]) sh"
  shows "keeps {} s (set_shard i sh (set_page f pg s))"
    "lookup (set_shard i sh (set_page f pg s)) = lookup s"
proof -
  let ?s = "set_shard i sh (set_page f pg s)"
  note L = lookupD [OF ok l]
  have il: "i < length (shards s)" using i pool_okD(6) [OF ok] by simp
  have idx: "shard_index q ?s = shard_index q s" for q by (rule shard_index_cong) (simp add: pool_simps)
  show lk: "lookup ?s = lookup s"
    using sh(1) il by (auto simp: lookup_def fun_eq_iff idx pool_simps nth_list_update)
  have "pool_ok ?s"
    by (rule pool_ok_update [OF ok il _ pool_okD(3) [OF ok] _ sh(2)]) (use L i pg(2) in \<open>simp_all add: pool_simps\<close>)
  moreover have "holds ?s q x" if h: "holds s q x" for q x
  proof (cases "q = p")
    case True
    with h l L(1) pg show ?thesis by (auto simp: holds_def lk pool_simps)
  next
    case False
    then have "lookup s q \<noteq> Some f" using lookup_inj [OF ok l] by auto
    with h show ?thesis by (auto simp: holds_def lk pool_simps nth_list_update split: option.splits)
  qed
  ultimately show "keeps {} s ?s" by (simp add: keeps_def pool_simps)
qed

lemma set_shard_same: "set_shard i (shards s ! i) (set_page f pg s) = set_page f pg s"
  by (simp add: set_shard_def set_page_def)

lemma keeps_page:
  assumes "pool_ok s" and "lookup s p = Some f" and "page_id pg = p" and "data pg = data (pages s ! f)"
    and "is_dirty (pages s ! f) \<Longrightarrow> is_dirty pg \<or> disk_page (dm s) p = Some (data pg)"
    and "f \<in> set (evictable (replacer (shards s ! shard_index p s))) \<Longrightarrow> pin_count pg = 0"
  shows "keeps {} s (set_page f pg s)" "lookup (set_page f pg s) = lookup s"
proof -
  let ?i = "shard_index p s"
  note sh = pool_okD(5) [OF assms(1) pool_okD(6) [OF assms(1), of p]]
  have "shard_ok (length (shards s)) ?i ((pages s)[f := pg]) (shards s ! ?i)"
    using sh lookupD(4) [OF assms(1,2)] assms(3,6) by (rule shard_ok_touch)
  from keeps_touch [OF assms(1,2) refl assms(3-5) refl this]
  show "keeps {} s (set_page f pg s)" "lookup (set_page f pg s) = lookup s"
    by (simp_all add: set_shard_same)
qed

text \<open>Giving the frame of \<open>find_victim_page\<close> to page \<open>p\<close>: the old page is on disk by then.\<close>

lemma lookup_set_shard:
  "i < length (shards s) \<Longrightarrow>
   lookup (set_shard i sh s) q = (if shard_index q s = i then map_of (page_table sh) q else lookup s q)"
  using shard_index_cong [of "set_shard i sh s" s q] by (simp add: lookup_def pool_simps)

lemma lookup_set_page [simp]: "lookup (set_page f pg s) = lookup s"
  using shard_index_cong [of "set_page f pg s" s] by (simp add: lookup_def fun_eq_iff pool_simps)

lemma keeps_rebind:
  assumes ok: "pool_ok s" and i: "i = shard_index p s" and p: "lookup s p = None" "pid_page_no p \<noteq> INVALID_PAGE_ID"
    and h: "handed_out (length (shards s)) i (pages s) (shards s ! i) f sh'"
    and clean: "\<And>q x. lookup s q = Some f \<Longrightarrow> holds s q x \<Longrightarrow> disk_page (dm s) q = Some x"
    and pg: "page_id pg = p" "pin_count pg = 0" "length (data pg) = PAGE_SIZE" "\<not> is_dirty pg"
    and s': "s' = set_page f pg (set_shard i (sh'\<lparr>page_table := emplace p f (erase (page_id (pages s ! f)) (page_table sh'))\<rparr>) s)"
  shows "keeps {p} s s'" "lookup s' p = Some f" "holds s' p x \<longleftrightarrow> data pg = x \<and> disk_page (dm s) p = Some x"
proof -
  have il: "i < length (shards s)" using i pool_okD(6) [OF ok] by simp
  note sh = pool_okD(5) [OF ok il]
  have H: "page_table sh' = page_table (shards s ! i)" "f < length (pages s)" "f mod length (shards s) = i"
    using h unfolding handed_out_def by blast+
  let ?old = "page_id (pages s ! f)"
  have pt: "p \<notin> fst ` set (page_table (shards s ! i))"
    using p(1) i by (simp add: lookup_def map_of_eq_None_iff)
  have hash: "PageIdHash p mod length (shards s) = i"
    using i pool_okD(1) [OF ok] by (simp add: shard_index_def)
  have lk: "lookup s' q = (if q = p then Some f else if shard_index q s = i \<and> q = ?old then None else lookup s q)" for q
  proof (cases "shard_index q s = i")
    case True
    then have "lookup s' q = map_of (emplace p f (erase ?old (page_table sh'))) q"
      by (simp add: s' lookup_set_shard il)
    moreover have "lookup s q = map_of (page_table (shards s ! i)) q" by (simp add: lookup_def True)
    ultimately show ?thesis using map_of_rebind [OF pt, of f ?old q] H(1) True by simp
  next
    case False
    then show ?thesis using il i by (auto simp: s' lookup_set_shard)
  qed
  show lp: "lookup s' p = Some f" by (simp add: lk)
  have sp: "pages s' = (pages s)[f := pg]" "dm s' = dm s" by (simp_all add: s' pool_simps)
  have "pool_ok s'"
    by (rule pool_ok_update [OF ok il H(3) pool_okD(3) [OF ok] pg(3) rebind_ok [OF sh h pt hash p(2) pg(1,2)]])
      (simp_all add: s' pool_simps)
  moreover have "holds s' q x" if q: "q \<noteq> p" and hx: "holds s q x" for q x
  proof (cases "lookup s q = Some f")
    case True
    then have "?old = q" "shard_index q s = i" using lookupD [OF ok True] H(3) by auto
    then show ?thesis using q clean [OF True hx] by (simp add: holds_def lk sp)
  next
    case False
    have "q \<noteq> ?old" if "lookup s q = Some g" for g
    proof
      assume o: "q = ?old"
      show False
      proof (cases "\<exists>p'. (p', f) \<in> set (page_table (shards s ! i))")
        case True
        then obtain p' where "(p', f) \<in> set (page_table (shards s ! i))" by blast
        then have "lookup s p' = Some f" "p' = ?old" using entry_lookup [OF ok il] by auto
        with o False show False by simp
      next
        case nm: False
        then have "pid_page_no ?old = INVALID_PAGE_ID" using h by (simp add: handed_out_def)
        with lookupD(6) [OF ok that] o show False by simp
      qed
    qed
    then have "lookup s' q = lookup s q" using q by (cases "lookup s q") (auto simp: lk)
    with hx False show ?thesis
      by (auto simp: holds_def sp nth_list_update split: option.splits)
  qed
  ultimately show "keeps {p} s s'" by (auto simp: keeps_def s' pool_simps)
  show "holds s' p x \<longleftrightarrow> data pg = x \<and> disk_page (dm s) p = Some x"
    using H(2) pg(4) by (auto simp: holds_def lp sp)
qed

lemma keeps_victim_shard:
  assumes ok: "pool_ok s" and i: "i < length (shards s)"
    and sh: "shard_ok (length (shards s)) i (pages s) sh'" "page_table sh' = page_table (shards s ! i)"
  shows "keeps {} s (set_shard i sh' s)" "lookup (set_shard i sh' s) = lookup s"
proof -
  show lk: "lookup (set_shard i sh' s) = lookup s"
    using i sh(2) by (auto simp: fun_eq_iff lookup_set_shard) (simp add: lookup_def)
  have "pool_ok (set_shard i sh' s)"
  proof -
    have "shard_ok (length (shards s)) j (pages s) ((shards s)[i := sh'] ! j)" if "j < length (shards s)" for j
      using that sh(1) pool_okD(5) [OF ok that] by (cases "j = i") auto
    then show ?thesis using ok by (simp add: pool_ok_def pool_simps)
  qed
  then show "keeps {} s (set_shard i sh' s)"
    by (auto simp: keeps_def pool_simps holds_def lk split: option.splits)
qed

lemma handed_out_self:
  assumes "handed_out n i pgs sh f sh'" and "(q, f) \<in> set (page_table sh)"
  shows "handed_out n i pgs sh' f sh'" "shard_ok n i pgs sh'" "page_table sh' = page_table sh"
proof -
  show ok: "shard_ok n i pgs sh'" and t: "page_table sh' = page_table sh"
    using assms by (auto simp: handed_out_def split: if_splits)
  show "handed_out n i pgs sh' f sh'"
    using assms ok t shard_okD [OF ok] by (auto simp: handed_out_def split: if_splits)
qed

definition fresh_frame :: "PageId \<Rightarrow> Page" where
  "fresh_frame p = \<lparr>page_id = p, data = reset_memory, is_dirty = False, pin_count = 0\<rparr>"

lemma update_page_eq:
  "update_page i f p s =
     (case (if is_dirty (pages s ! f) then write_back f (page_id (pages s ! f)) s else (Ret (), s)) of
        (Inl e, s1) \<Rightarrow> (Throw e, s1)
      | (Inr _, s1) \<Rightarrow>
          (Ret (), set_page f (fresh_frame p)
             (set_shard i ((shards s1 ! i)\<lparr>page_table :=
                emplace p f (erase (page_id (pages s1 ! f)) (page_table (shards s1 ! i)))\<rparr>) s1)))"
  by (simp add: update_page_def fresh_frame_def Let_def cong: sum.case_cong prod.case_cong if_cong)

lemma update_page_ok:
  assumes ok: "pool_ok s" and i: "i = shard_index p s" and p: "lookup s p = None" "pid_page_no p \<noteq> INVALID_PAGE_ID"
    and v: "find_victim_page (shards s ! i) = (Some f, sh')"
    and u: "update_page i f p (set_shard i sh' s) = (r, s')"
  shows "r = Throw e \<Longrightarrow> keeps {} s s'"
    and "r = Ret () \<Longrightarrow> keeps {p} s s' \<and> lookup s' p = Some f \<and> pages s' ! f = fresh_frame p \<and> f < length (pages s') \<and>
           (\<forall>x. disk_page (dm s) p = Some x \<longrightarrow> disk_page (dm s') p = Some x)"
proof -
  have il: "i < length (shards s)" using i pool_okD(6) [OF ok] by simp
  note sh = pool_okD(5) [OF ok il]
  note h = find_victim_handed_out [OF sh v]
  have fl: "f < length (pages s)" using h by (simp add: handed_out_def)
  have idx: "shard_index p (set_shard i sh' s) = i" using i shard_index_cong [of "set_shard i sh' s" s p] by (simp add: pool_simps)
  have ff: "page_id (fresh_frame p) = p" "pin_count (fresh_frame p) = 0" "length (data (fresh_frame p)) = PAGE_SIZE"
      "\<not> is_dirty (fresh_frame p)" by (simp_all add: fresh_frame_def)
  have "(r = Throw e \<longrightarrow> keeps {} s s') \<and>
    (r = Ret () \<longrightarrow> keeps {p} s s' \<and> lookup s' p = Some f \<and> pages s' ! f = fresh_frame p \<and> f < length (pages s') \<and>
       (\<forall>x. disk_page (dm s) p = Some x \<longrightarrow> disk_page (dm s') p = Some x))"
  proof (cases "\<exists>q. (q, f) \<in> set (page_table (shards s ! i))")
    case False
    then have nd: "\<not> is_dirty (pages s ! f)" using h by (simp add: handed_out_def)
    let ?s = "set_page f (fresh_frame p) (set_shard i (sh'\<lparr>page_table :=
                emplace p f (erase (page_id (pages s ! f)) (page_table sh'))\<rparr>) s)"
    have s': "r = Ret ()" "s' = ?s"
      using u nd il by (auto simp: update_page_eq pool_simps set_shard_def set_page_def)
    have nm: "lookup s q \<noteq> Some f" for q
    proof
      assume "lookup s q = Some f"
      then have "(q, f) \<in> set (page_table (shards s ! shard_index q s))" "shard_index q s = i"
        using lookupD [OF ok] h by (auto simp: handed_out_def)
      with False show False by auto
    qed
    note K = keeps_rebind [OF ok i p h _ ff refl]
    show ?thesis using K(1,2) nm fl by (auto simp: s' pool_simps)
  next
    case True
    then obtain q where q: "(q, f) \<in> set (page_table (shards s ! i))" by blast
    let ?s1 = "set_shard i sh' s"
    note S = handed_out_self [OF h q]
    note K1 = keeps_victim_shard [OF ok il S(2,3)]
    note ok1 = keeps_ok [OF K1(1)]
    have old: "page_id (pages s ! f) = q" and lq: "lookup ?s1 q = Some f"
      using entry_lookup [OF ok il q] K1(2) by auto
    obtain r2 s2 where w: "(if is_dirty (pages s ! f) then write_back f q ?s1 else (Ret (), ?s1)) = (r2, s2)"
      by (rule prod.exhaust)
    have w1: "(if is_dirty (pages ?s1 ! f) then write_back f q ?s1 else (Ret (), ?s1)) = (r2, s2)"
      using w by (simp add: pool_simps)
    note E = leave_pool [OF ok1 lq w1]
    note K2 = E(1) and lk2 = E(2)
    have eq2: "pages s2 = pages s" "shards s2 = (shards s)[i := sh']" "shard_count s2 = shard_count s"
      using E(3-5) by (simp_all add: pool_simps)
    have dk: "disk_page (dm s2) z = Some x" if "z \<noteq> q" "disk_page (dm s) z = Some x" for z x
      using E(6) that by (simp add: pool_simps)
    note ok2 = keeps_ok [OF K2]
    show ?thesis
    proof (cases r2)
      case (Inl err)
      then have "r = Throw err" "s' = s2" using u w old il by (auto simp: update_page_eq pool_simps split: if_splits)
      then show ?thesis using keeps_trans [OF K1(1) K2] by simp
    next
      case (Inr un)
      then have s': "r = Ret ()" "s' = set_page f (fresh_frame p) (set_shard i (sh'\<lparr>page_table :=
                emplace p f (erase (page_id (pages s2 ! f)) (page_table sh'))\<rparr>) s2)"
        using u w old il eq2 by (auto simp: update_page_eq pool_simps split: if_splits)
      have i2: "i = shard_index p s2" using i eq2(3) shard_index_cong [of s2 s p] by simp
      have h2: "handed_out (length (shards s2)) i (pages s2) (shards s2 ! i) f sh'"
        using S(1) il by (simp add: eq2)
      have p2: "lookup s2 p = None" using p(1) lk2 K1(2) by simp
      have clean: "disk_page (dm s2) z = Some x" if "lookup s2 z = Some f" "holds s2 z x" for z x
      proof -
        have "z = q" using that(1) lookup_inj [OF ok1 _ lq] lk2 by metis
        then show ?thesis using E(7) that(2) Inr by simp
      qed
      note K3 = keeps_rebind [OF ok2 i2 p2 p(2) h2 clean ff s'(2)]
      have pq: "p \<noteq> q" using p(1) entry_lookup(1) [OF ok il q] by auto
      have "keeps {p} s s'"
        using K1(1) K2 K3(1) by (meson keeps_mono keeps_trans empty_subsetI)
      moreover have "disk_page (dm s') p = Some x" if "disk_page (dm s) p = Some x" for x
        using dk [OF pq that] by (simp add: s' pool_simps)
      ultimately show ?thesis using K3(2) fl s' eq2 by (simp add: pool_simps)
    qed
  qed
  then show "r = Throw e \<Longrightarrow> keeps {} s s'"
    and "r = Ret () \<Longrightarrow> keeps {p} s s' \<and> lookup s' p = Some f \<and> pages s' ! f = fresh_frame p \<and> f < length (pages s') \<and>
           (\<forall>x. disk_page (dm s) p = Some x \<longrightarrow> disk_page (dm s') p = Some x)"
    by blast+
qed

lemma pin_frame_fields:
  "pages (pin_frame i f k s) = (pages s)[f := (pages s ! f)\<lparr>pin_count := k\<rparr>]" "dm (pin_frame i f k s) = dm s"
  by (simp_all add: pin_frame_def pool_simps)

lemma keeps_pin_frame:
  assumes ok: "pool_ok s" and l: "lookup s p = Some f" and i: "i = shard_index p s"
  shows "keeps {} s (pin_frame i f k s)" "lookup (pin_frame i f k s) = lookup s"
proof -
  have il: "i < length (shards s)" using i pool_okD(6) [OF ok] by simp
  note sh = pool_okD(5) [OF ok il]
  note L = lookupD [OF ok l]
  let ?sh = "(shards s ! i)\<lparr>replacer := pin f (replacer (shards s ! i))\<rparr>"
  have m: "f < max_size (replacer (shards s ! i))" using shard_okD(2) [OF sh] L(1) by simp
  have "shard_ok (length (shards s)) i ((pages s)[f := (pages s ! f)\<lparr>pin_count := k\<rparr>]) ?sh"
    by (rule shard_ok_touch [OF shard_ok_pin [OF sh L(1)]])
      (use L i lru.pn_protects [OF shard_okD(1) [OF sh] m] in auto)
  from keeps_touch [OF ok l i _ _ _ _ this]
  show "keeps {} s (pin_frame i f k s)" "lookup (pin_frame i f k s) = lookup s"
    using L(2) by (simp_all add: pin_frame_def pool_simps)
qed

text \<open>Reading the page into its fresh frame.\<close>

lemma read_page_disk:
  assumes "read_page (pid_fd p) (pid_page_no p) PAGE_SIZE d = (r, buf)"
  shows "r = Ret () \<Longrightarrow> disk_page d p = Some buf \<and> length buf = PAGE_SIZE"
    "r = Throw e \<Longrightarrow> disk_page d p = None" "length buf \<le> PAGE_SIZE"
  using assms by (auto simp: disk_page_def read_page_def sys_pread_def get_bytes_def
      split: if_splits option.splits prod.splits)

lemma keeps_fill:
  assumes ok: "pool_ok s" and l: "lookup s p = Some f" and x: "length x = PAGE_SIZE"
  shows "keeps {p} s (set_page f ((pages s ! f)\<lparr>data := x\<rparr>) s)"
proof -
  let ?pg = "(pages s ! f)\<lparr>data := x\<rparr>" and ?i = "shard_index p s"
  note L = lookupD [OF ok l]
  note sh = pool_okD(5) [OF ok pool_okD(6) [OF ok, of p]]
  have "shard_ok (length (shards s)) ?i ((pages s)[f := ?pg]) (shards s ! ?i)"
  proof (rule shard_ok_touch [OF sh L(4)])
    show "f \<in> set (evictable (replacer (shards s ! ?i))) \<Longrightarrow> pin_count ?pg = 0"
      using shard_okD(7) [OF sh] shard_okD(5) [OF sh L(4)] by auto
  qed (use L in simp)
  from pool_ok_update [OF ok pool_okD(6) [OF ok] L(3) pool_okD(3) [OF ok] _ this]
  have "pool_ok (set_page f ?pg s)" using x by (simp add: pool_simps)
  moreover have "holds (set_page f ?pg s) q y" if "q \<noteq> p" "holds s q y" for q y
  proof -
    have "lookup s q \<noteq> Some f" using lookup_inj [OF ok l] that(1) by auto
    then show ?thesis using that(2) by (auto simp: holds_def pool_simps nth_list_update split: option.splits)
  qed
  ultimately show ?thesis by (auto simp: keeps_def pool_simps)
qed

lemma fetch_hit:
  assumes ok: "pool_ok s" and l: "lookup s p = Some f" and fe: "fetch_page p s = (r, s')"
  shows "r = Ret (Some f) \<and> keeps {} s s' \<and> lookup s' = lookup s \<and> 0 < pin_count (pages s' ! f) \<and>
    data (pages s' ! f) = data (pages s ! f)"
proof -
  note L = lookupD [OF ok l]
  have l': "map_of (page_table (shards s ! shard_index p s)) p = Some f" using l by (simp add: lookup_def)
  show ?thesis
  proof (cases "pin_count (pages s ! f) = 0")
    case True
    then have "r = Ret (Some f)" "s' = pin_frame (shard_index p s) f 1 s"
      using fe l' by (auto simp: fetch_page_def Let_def)
    then show ?thesis using keeps_pin_frame [OF ok l refl, of 1] L(1) by (simp add: pin_frame_fields)
  next
    case False
    let ?pg = "(pages s ! f)\<lparr>pin_count := pin_count (pages s ! f) + 1\<rparr>"
    have s': "r = Ret (Some f)" "s' = set_page f ?pg s"
      using fe l' False by (auto simp: fetch_page_def Let_def)
    note sh = pool_okD(5) [OF ok pool_okD(6) [OF ok, of p]]
    have "f \<notin> set (evictable (replacer (shards s ! shard_index p s)))"
      using shard_okD(7) [OF sh, of f] shard_okD(5) [OF sh L(4)] False by auto
    then have "keeps {} s (set_page f ?pg s)" by (intro keeps_page(1) [OF ok l]) (use L in auto)
    then show ?thesis using s' L(1) by (simp add: pool_simps)
  qed
qed

lemma put_bytes_length_le: "length x \<le> length d \<Longrightarrow> length (put_bytes d 0 x) = length d"
  by (simp add: put_bytes_def)

lemma fetch_miss:
  assumes ok: "pool_ok s" and l: "lookup s p = None" and pv: "pid_page_no p \<noteq> INVALID_PAGE_ID"
    and fe: "fetch_page p s = (r, s')"
  shows "keeps {} s s' \<and> (\<forall>f. r = Ret (Some f) \<longrightarrow> lookup s' p = Some f \<and> 0 < pin_count (pages s' ! f) \<and>
           disk_page (dm s') p = Some (data (pages s' ! f)))"
proof -
  let ?i = "shard_index p s"
  have il: "?i < length (shards s)" using pool_okD(6) [OF ok] by simp
  note sh = pool_okD(5) [OF ok il]
  have l': "map_of (page_table (shards s ! ?i)) p = None" using l by (simp add: lookup_def)
  obtain fo sh' where v: "find_victim_page (shards s ! ?i) = (fo, sh')" by (rule prod.exhaust)
  show ?thesis
  proof (cases fo)
    case None
    then have "s' = set_shard ?i (shards s ! ?i) s" "r = Ret None"
      using fe l' v find_victim_none(1) [OF sh] by (auto simp: fetch_page_def Let_def)
    then show ?thesis using keeps_refl [OF ok] by (simp add: set_shard_def)
  next
    case (Some f)
    obtain r2 s2 where u: "update_page ?i f p (set_shard ?i sh' s) = (r2, s2)" by (rule prod.exhaust)
    note U = update_page_ok [OF ok refl l pv v [unfolded Some] u]
    show ?thesis
    proof (cases r2)
      case (Inl e)
      then have "r = Throw e" "s' = s2" using fe l' v Some u by (auto simp: fetch_page_def Let_def)
      then show ?thesis using U(1) Inl by simp
    next
      case (Inr un)
      then have K: "keeps {p} s s2" "lookup s2 p = Some f" "pages s2 ! f = fresh_frame p" "f < length (pages s2)"
          and dk: "\<And>x. disk_page (dm s) p = Some x \<Longrightarrow> disk_page (dm s2) p = Some x"
        using U(2) by auto
      note ok2 = keeps_ok [OF K(1)]
      obtain r3 buf where rd: "read_page (pid_fd p) (pid_page_no p) PAGE_SIZE (dm s2) = (r3, buf)" by (rule prod.exhaust)
      note R = read_page_disk [OF rd]
      let ?x = "put_bytes (data (pages s2 ! f)) 0 buf"
      let ?s3 = "set_page f ((pages s2 ! f)\<lparr>data := ?x\<rparr>) s2"
      have "length ?x = PAGE_SIZE" using R(3) K(3) by (simp add: put_bytes_length_le fresh_frame_def)
      note K3 = keeps_trans [OF K(1) keeps_fill [OF ok2 K(2) this]]
      note ok3 = keeps_ok [OF K3]
      have idx: "?i = shard_index p ?s3"
        using K(1) pool_okD(1) [OF ok] pool_okD(1) [OF ok3] by (simp add: shard_index_def keeps_def pool_simps)
      show ?thesis
      proof (cases r3)
        case (Inl e)
        then have s': "r = Throw e" "s' = ?s3"
          using fe l' v Some u Inr rd by (auto simp: fetch_page_def Let_def)
        have "\<not> holds s p x" for x using R(2) [of e] Inl dk l by (auto simp: holds_def)
        then show ?thesis using keeps_close [OF K3] s' by blast
      next
        case r3: (Inr un3)
        then have s': "r = Ret (Some f)" "s' = pin_frame ?i f 1 ?s3"
          using fe l' v Some u Inr rd by (auto simp: fetch_page_def Let_def)
        have b: "disk_page (dm s2) p = Some buf" "?x = buf"
          using R(1) r3 K(3) by (auto simp: fresh_frame_def put_bytes_full)
        have l3: "lookup ?s3 p = Some f" using K(2) by simp
        note P = keeps_pin_frame [OF ok3 l3 idx, of 1]
        have k4: "keeps {p} s s'" unfolding s' using K3 keeps_mono [OF P(1)] by (blast intro: keeps_trans)
        have fin: "data (pages s' ! f) = buf" "pin_count (pages s' ! f) = 1" "disk_page (dm s') p = Some buf" "lookup s' p = Some f"
          using K(4) b P(2) l3 by (simp_all add: s' pin_frame_fields pool_simps)
        have "holds s' p x" if "holds s p x" for x
          using that dk l b(1) fin by (auto simp: holds_def)
        then have "keeps {} s s'" by (rule keeps_close [OF k4])
        then show ?thesis using fin s' by simp
      qed
    qed
  qed
qed

lemma fetch_page_ok:
  assumes ok: "pool_ok s" and pv: "pid_page_no p \<noteq> INVALID_PAGE_ID" and fe: "fetch_page p s = (r, s')"
  shows "keeps {} s s'"
    "r = Ret (Some f) \<Longrightarrow> lookup s' p = Some f \<and> 0 < pin_count (pages s' ! f) \<and> (holds s p x \<longrightarrow> data (pages s' ! f) = x)"
proof -
  have "keeps {} s s' \<and>
    (r = Ret (Some f) \<longrightarrow> lookup s' p = Some f \<and> 0 < pin_count (pages s' ! f) \<and> (holds s p x \<longrightarrow> data (pages s' ! f) = x))"
  proof (cases "lookup s p")
    case None
    note M = fetch_miss [OF ok None pv fe]
    have "data (pages s' ! f) = x" if "r = Ret (Some f)" "holds s p x"
    proof -
      have "holds s' p x" using M that(2) by (auto simp: keeps_def)
      then show ?thesis using M that(1) by (simp add: holds_def)
    qed
    then show ?thesis using M by blast
  next
    case (Some g)
    note H = fetch_hit [OF ok Some fe]
    then show ?thesis using Some by (auto simp: holds_def)
  qed
  then show "keeps {} s s'"
    "r = Ret (Some f) \<Longrightarrow> lookup s' p = Some f \<and> 0 < pin_count (pages s' ! f) \<and> (holds s p x \<longrightarrow> data (pages s' ! f) = x)"
    by blast+
qed

lemma unpin_keeps:
  assumes ok: "pool_ok s" and u: "unpin_page p b s = (r, s')"
  shows "keeps {} s s'" "lookup s' = lookup s"
proof -
  let ?i = "shard_index p s"
  have il: "?i < length (shards s)" using pool_okD(6) [OF ok] by simp
  note sh = pool_okD(5) [OF ok il]
  have "keeps {} s s' \<and> lookup s' = lookup s"
  proof (cases "\<exists>f. lookup s p = Some f \<and> pin_count (pages s ! f) \<noteq> 0")
    case False
    then have "s' = s" using u by (auto simp: unpin_page_def Let_def lookup_def split: option.splits)
    then show ?thesis using keeps_refl [OF ok] by simp
  next
    case True
    then obtain f where l: "lookup s p = Some f" and pc: "pin_count (pages s ! f) \<noteq> 0" by blast
    note L = lookupD [OF ok l]
    have l': "map_of (page_table (shards s ! ?i)) p = Some f" using l by (simp add: lookup_def)
    let ?pg1 = "(pages s ! f)\<lparr>pin_count := pin_count (pages s ! f) - 1\<rparr>"
    let ?pg = "if b then ?pg1\<lparr>is_dirty := True\<rparr> else ?pg1"
    have ev: "f \<notin> set (evictable (replacer (shards s ! ?i)))"
      using shard_okD(7) [OF sh, of f] shard_okD(5) [OF sh L(4)] pc by auto
    have pg: "page_id ?pg = p" "data ?pg = data (pages s ! f)" "is_dirty (pages s ! f) \<Longrightarrow> is_dirty ?pg"
      using L by auto
    have ok1: "shard_ok (length (shards s)) ?i ((pages s)[f := ?pg]) (shards s ! ?i)"
      by (rule shard_ok_touch [OF sh L(4) pg(1)]) (use ev in simp)
    show ?thesis
    proof (cases "pin_count (pages s ! f) - 1 = 0")
      case True
      let ?sh = "(shards s ! ?i)\<lparr>replacer := unpin f (replacer (shards s ! ?i))\<rparr>"
      have "s' = set_shard ?i ?sh (set_page f ?pg s)"
        using u l' pc True by (auto simp: unpin_page_def Let_def set_shard_def set_page_def)
      moreover have "shard_ok (length (shards s)) ?i ((pages s)[f := ?pg]) ?sh"
        by (rule shard_ok_unpin [OF ok1 L(4)]) (use True L(1) in simp)
      ultimately show ?thesis using keeps_touch [OF ok l refl pg(1,2) _ _ \<open>shard_ok _ _ _ ?sh\<close>] pg(3) by simp
    next
      case False
      then have "s' = set_page f ?pg s" using u l' pc by (auto simp: unpin_page_def Let_def)
      then show ?thesis using keeps_page [OF ok l pg(1,2)] pg(3) ev by simp
    qed
  qed
  then show "keeps {} s s'" "lookup s' = lookup s" by blast+
qed

text \<open>Writing a mapped page back and clearing its dirty flag.\<close>

lemma keeps_clean:
  assumes ok: "pool_ok s" and l: "lookup s p = Some f" and w: "write_back f p s = (Ret (), s1)"
    and s': "s' = set_page f ((pages s1 ! f)\<lparr>is_dirty := False\<rparr>) s1"
  shows "keeps {} s s'" "lookup s' = lookup s" "disk_page (dm s') p = Some (data (pages s ! f))"
    "shards s' = shards s"
proof -
  note L = lookupD [OF ok l]
  note W = write_back_spec [OF w pool_okD(3) [OF ok] L(5)]
  note K = keeps_write_back [OF ok l w]
  have l1: "lookup s1 p = Some f" using K(2) l by simp
  have d: "disk_page (dm s1) p = Some (data (pages s ! f))" using W(7) by simp
  note sh = pool_okD(5) [OF keeps_ok [OF K(1)] pool_okD(6) [OF keeps_ok [OF K(1)], of p]]
  have pc: "f \<in> set (evictable (replacer (shards s1 ! shard_index p s1))) \<Longrightarrow> pin_count (pages s1 ! f) = 0"
    using shard_okD(7) [OF sh, of f] shard_okD(5) [OF sh lookupD(4) [OF keeps_ok [OF K(1)] l1]] by auto
  have "keeps {} s1 s'" unfolding s'
    by (rule keeps_page(1) [OF keeps_ok [OF K(1)] l1]) (use d W(1) L(2) pc in auto)
  then show "keeps {} s s'" using K(1) keeps_trans by blast
  show "lookup s' = lookup s" "shards s' = shards s" using K(2) W(2) by (simp_all add: s' pool_simps)
  show "disk_page (dm s') p = Some (data (pages s ! f))" using d by (simp add: s' pool_simps)
qed

lemma flush_page_keeps:
  assumes ok: "pool_ok s" and fl: "flush_page p s = (r, s')"
  shows "keeps {} s s'"
    and "r = Ret True \<Longrightarrow> \<exists>f. lookup s p = Some f \<and> disk_page (dm s') p = Some (data (pages s ! f))"
proof -
  have "keeps {} s s' \<and> (r = Ret True \<longrightarrow> (\<exists>f. lookup s p = Some f \<and> disk_page (dm s') p = Some (data (pages s ! f))))"
  proof (cases "lookup s p")
    case None
    then show ?thesis using fl keeps_refl [OF ok] by (auto simp: flush_page_def lookup_def Let_def)
  next
    case (Some f)
    obtain r1 s1 where w: "write_back f p s = (r1, s1)" by (rule prod.exhaust)
    show ?thesis
      using fl Some w keeps_write_back(1) [OF ok Some w] keeps_clean [OF ok Some, of s1]
      by (cases r1) (auto simp: flush_page_def lookup_def Let_def)
  qed
  then show "keeps {} s s'"
    "r = Ret True \<Longrightarrow> \<exists>f. lookup s p = Some f \<and> disk_page (dm s') p = Some (data (pages s ! f))"
    by blast+
qed

lemma claim_frame_keeps:
  assumes ok: "pool_ok s" and i: "i = shard_index p s" and p: "lookup s p = None" "pid_page_no p \<noteq> INVALID_PAGE_ID"
    and v: "find_victim_page (shards s ! i) = (Some f, sh')" and c: "claim_frame i f p (set_shard i sh' s) = (r, s')"
  shows "keeps {p} s s'" "r = Ret fo \<Longrightarrow> fo = Some f \<and> lookup s' p = Some f \<and>
           pages s' ! f = (fresh_frame p)\<lparr>pin_count := 1\<rparr>"
proof -
  obtain r2 s2 where u: "update_page i f p (set_shard i sh' s) = (r2, s2)" by (rule prod.exhaust)
  note U = update_page_ok [OF ok i p v u]
  have "keeps {p} s s' \<and> (r = Ret fo \<longrightarrow> fo = Some f \<and> lookup s' p = Some f \<and> pages s' ! f = (fresh_frame p)\<lparr>pin_count := 1\<rparr>)"
  proof (cases r2)
    case (Inl e)
    then show ?thesis using c u U(1) keeps_mono by (auto simp: claim_frame_def)
  next
    case (Inr un)
    then have K: "keeps {p} s s2" "lookup s2 p = Some f" "pages s2 ! f = fresh_frame p" "f < length (pages s2)"
      using U(2) by auto
    have s': "r = Ret (Some f)" "s' = pin_frame i f 1 s2" using c u Inr by (auto simp: claim_frame_def)
    have i2: "i = shard_index p s2"
      using i K(1) pool_okD(1) [OF ok] pool_okD(1) [OF keeps_ok [OF K(1)]] by (simp add: shard_index_def keeps_def)
    note P = keeps_pin_frame [OF keeps_ok [OF K(1)] K(2) i2, of 1]
    have "keeps {p} s s'" unfolding s' using K(1) keeps_mono [OF P(1)] by (blast intro: keeps_trans)
    then show ?thesis using s' P(2) K by (auto simp: pin_frame_fields)
  qed
  then show "keeps {p} s s'" "r = Ret fo \<Longrightarrow> fo = Some f \<and> lookup s' p = Some f \<and>
           pages s' ! f = (fresh_frame p)\<lparr>pin_count := 1\<rparr>" by blast+
qed

lemma new_page_at_keeps:
  assumes ok: "pool_ok s" and p: "pid_page_no p \<noteq> INVALID_PAGE_ID" and n: "new_page_at p s = (r, s')"
  shows "keeps {p} s s'" "r = Ret (Some f) \<Longrightarrow> lookup s' p = Some f \<and> pages s' ! f = (fresh_frame p)\<lparr>pin_count := 1\<rparr>"
proof -
  let ?i = "shard_index p s"
  note sh = pool_okD(5) [OF ok pool_okD(6) [OF ok, of p]]
  have mem: "p \<in> fst ` set (page_table (shards s ! ?i)) \<longleftrightarrow> lookup s p \<noteq> None"
    by (simp add: lookup_def map_of_eq_None_iff)
  obtain fo sh' where v: "find_victim_page (shards s ! ?i) = (fo, sh')" by (rule prod.exhaust)
  have "keeps {p} s s' \<and> (r = Ret (Some f) \<longrightarrow> lookup s' p = Some f \<and> pages s' ! f = (fresh_frame p)\<lparr>pin_count := 1\<rparr>)"
  proof (cases "lookup s p = None")
    case False
    then show ?thesis using n keeps_refl [OF ok] mem by (auto simp: new_page_at_def Let_def)
  next
    case True
    show ?thesis
    proof (cases fo)
      case None
      then have "s' = s" "r = Ret None"
        using n v True find_victim_none(1) [OF sh] mem by (auto simp: new_page_at_def Let_def set_shard_def)
      then show ?thesis using keeps_refl [OF ok] by simp
    next
      case (Some g)
      then have "claim_frame ?i g p (set_shard ?i sh' s) = (r, s')"
        using n v True mem by (auto simp: new_page_at_def Let_def)
      from claim_frame_keeps [OF ok refl True p v [unfolded Some] this] show ?thesis by auto
    qed
  qed
  then show "keeps {p} s s'"
    "r = Ret (Some f) \<Longrightarrow> lookup s' p = Some f \<and> pages s' ! f = (fresh_frame p)\<lparr>pin_count := 1\<rparr>" by blast+
qed

text \<open>Changes of the disk manager that no page sees.\<close>

lemma keeps_dm:
  assumes ok: "pool_ok s" and d: "disk_inv d" "disk_page d = disk_page (dm s)"
  shows "keeps {} s (s\<lparr>dm := d\<rparr>)" "lookup (s\<lparr>dm := d\<rparr>) = lookup s"
proof -
  show lk: "lookup (s\<lparr>dm := d\<rparr>) = lookup s"
    using shard_index_cong [of "s\<lparr>dm := d\<rparr>" s] by (simp add: lookup_def fun_eq_iff)
  show "keeps {} s (s\<lparr>dm := d\<rparr>)"
    using ok d by (simp add: keeps_def pool_ok_def holds_def lk cong: option.case_cong)
qed

lemma new_page_keeps:
  assumes ok: "pool_ok s" and a: "0 \<le> fd" "fd < MAX_FD"
    and p: "p = PageId fd (fd2pageno (dm s) fd)" "lookup s p = None" "pid_page_no p \<noteq> INVALID_PAGE_ID"
    and n: "new_page fd s = (r, s')"
  shows "keeps {p} s s'"
    "r = Ret (Some (q, f)) \<Longrightarrow> q = p \<and> lookup s' p = Some f \<and> pages s' ! f = (fresh_frame p)\<lparr>pin_count := 1\<rparr>"
proof -
  obtain d1 where al: "allocate_page fd (dm s) = (Ret (pid_page_no p), d1)"
      and d1: "disk_inv d1" "disk_page d1 = disk_page (dm s)"
    using a p(1) pool_okD(3) [OF ok] by (auto simp: allocate_page_def)
  let ?s1 = "s\<lparr>dm := d1\<rparr>" and ?i = "shard_index p s"
  note K1 = keeps_dm [OF ok d1]
  note ok1 = keeps_ok [OF K1(1)]
  have pq: "PageId fd (pid_page_no p) = p" using p(1) by simp
  have i1: "shard_index p ?s1 = ?i" by (rule shard_index_cong) simp
  note sh = pool_okD(5) [OF ok1 pool_okD(6) [OF ok1, of p]]
  obtain fo sh' where v: "find_victim_page (shards s ! ?i) = (fo, sh')" by (rule prod.exhaust)
  have "keeps {p} s s' \<and>
    (r = Ret (Some (q, f)) \<longrightarrow> q = p \<and> lookup s' p = Some f \<and> pages s' ! f = (fresh_frame p)\<lparr>pin_count := 1\<rparr>)"
  proof (cases fo)
    case None
    then have eq: "sh' = shards s ! ?i" using v find_victim_none(1) [OF sh] i1 by auto
    obtain r2 d2 where rb: "rollback_allocated_page fd (pid_page_no p) d1 = (r2, d2)" by (rule prod.exhaust)
    then have d2: "disk_inv d2" "disk_page d2 = disk_page (dm ?s1)"
      using rollback_page_snd [of fd "pid_page_no p" d1] d1 by auto
    have "r \<noteq> Ret (Some (q, f))" "s' = ?s1\<lparr>dm := d2\<rparr>"
      using n al v None rb i1 eq pq by (auto simp: new_page_def Let_def set_shard_def split: sum.splits)
    then show ?thesis using keeps_trans [OF K1(1) keeps_dm(1) [OF ok1 d2]] keeps_mono by blast
  next
    case (Some g)
    obtain r2 s2 where c: "claim_frame ?i g p (set_shard ?i sh' ?s1) = (r2, s2)" by (rule prod.exhaust)
    have l1: "lookup ?s1 p = None" using K1(2) p(2) by simp
    have v1: "find_victim_page (shards ?s1 ! ?i) = (Some g, sh')" using v Some by simp
    note C = claim_frame_keeps [OF ok1 i1 [symmetric] l1 p(3) v1 c]
    have "keeps {p} s s2" using keeps_mono [OF K1(1)] C(1) by (blast intro: keeps_trans)
    then show ?thesis
      using n al v Some c i1 pq C(2) by (cases r2) (auto simp: new_page_def Let_def)
  qed
  then show "keeps {p} s s'"
    "r = Ret (Some (q, f)) \<Longrightarrow> q = p \<and> lookup s' p = Some f \<and> pages s' ! f = (fresh_frame p)\<lparr>pin_count := 1\<rparr>"
    by blast+
qed

text \<open>Dropping a page from the pool, as both delete operations do.\<close>

lemma map_of_erase: "map_of (erase p t) q = (if q = p then None else map_of t q)"
  by (induction t) (auto simp: erase_def)

lemma keeps_drop:
  assumes ok: "pool_ok s" and l: "lookup s p = Some f" and i: "i = shard_index p s"
    and r: "lru_inv r" "max_size r = length (pages s)" "set (evictable r) \<subseteq> set (evictable (replacer (shards s ! i)))"
    and s': "s' = set_shard i ((shards s ! i)\<lparr>page_table := erase p (page_table (shards s ! i)),
                free_list := free_list (shards s ! i) @ [f], replacer := r\<rparr>)
              (set_page f (freed_page (pages s ! f)) s)"
  shows "keeps {p} s s'" "lookup s' q = (if q = p then None else lookup s q)" "dm s' = dm s"
proof -
  note L = lookupD [OF ok l]
  have il: "i < length (shards s)" using i pool_okD(6) [OF ok] by simp
  note sh = pool_okD(5) [OF ok il]
  have lk: "lookup s' z = (if z = p then None else lookup s z)" for z
  proof -
    have "shard_index z (set_page f (freed_page (pages s ! f)) s) = shard_index z s" for z
      by (rule shard_index_cong) (simp add: pool_simps)
    then show ?thesis
      using il i by (auto simp: s' lookup_set_shard pool_simps map_of_erase) (auto simp: lookup_def)
  qed
  then show "lookup s' q = (if q = p then None else lookup s q)" .
  show dm: "dm s' = dm s" by (simp add: s' pool_simps)
  have sp: "pages s' = (pages s)[f := freed_page (pages s ! f)]" by (simp add: s' pool_simps)
  have "shard_ok (length (shards s)) i ((pages s)[f := freed_page (pages s ! f)])
      ((shards s ! i)\<lparr>page_table := erase p (page_table (shards s ! i)),
         free_list := free_list (shards s ! i) @ [f], replacer := r\<rparr>)"
    by (rule drop_ok [OF sh _ _ _ r]) (use L i in \<open>auto simp: freed_page_def\<close>)
  then have "pool_ok s'"
    by (rule pool_ok_update [OF ok il _ pool_okD(3) [OF ok], rotated 2])
      (use L i in \<open>simp_all add: s' pool_simps freed_page_def\<close>)
  moreover have "holds s' z x" if z: "z \<noteq> p" and h: "holds s z x" for z x
  proof -
    have "lookup s z \<noteq> Some f" using lookup_inj [OF ok l] z by auto
    then show ?thesis using h z by (auto simp: holds_def lk dm sp nth_list_update split: option.splits)
  qed
  ultimately show "keeps {p} s s'" by (auto simp: keeps_def s' pool_simps)
qed

lemma delete_page_keeps:
  assumes ok: "pool_ok s" and d: "delete_page p s = (r, s')"
  shows "keeps {} s s'"
proof -
  let ?i = "shard_index p s"
  note sh = pool_okD(5) [OF ok pool_okD(6) [OF ok, of p]]
  show ?thesis
  proof (cases "\<exists>f. lookup s p = Some f \<and> pin_count (pages s ! f) = 0")
    case False
    then have "s' = s" using d by (auto simp: delete_page_def Let_def lookup_def split: option.splits)
    then show ?thesis using keeps_refl [OF ok] by simp
  next
    case True
    then obtain f where l: "lookup s p = Some f" and pc: "pin_count (pages s ! f) = 0" by blast
    note L = lookupD [OF ok l]
    obtain r1 s1 where w: "(if is_dirty (pages s ! f) then write_back f p s else (Ret (), s)) = (r1, s1)"
      by (rule prod.exhaust)
    note E = leave_pool [OF ok l w]
    note K1 = E(1,2)
    show ?thesis
    proof (cases r1)
      case (Inl e)
      then have "s' = s1" using d l pc w by (auto simp: delete_page_def Let_def lookup_def)
      then show ?thesis using K1 by simp
    next
      case (Inr un)
      note eq1 = E(3-5)
      let ?s2 = "set_shard ?i ((shards s1 ! ?i)\<lparr>page_table := erase p (page_table (shards s1 ! ?i)),
          free_list := free_list (shards s1 ! ?i) @ [f], replacer := replacer (shards s1 ! ?i)\<rparr>)
          (set_page f (freed_page (pages s1 ! f)) s1)"
      have s': "s' = ?s2" using d l pc w Inr by (auto simp: delete_page_def Let_def lookup_def)
      have l1: "lookup s1 p = Some f" using K1(2) l by simp
      have i1: "?i = shard_index p s1" using shard_index_cong [OF eq1(3)] by simp
      note sh1 = shard_okD [OF sh]
      note D = keeps_drop [OF keeps_ok [OF K1(1)] l1 i1 _ _ subset_refl refl]
      have D': "keeps {p} s1 ?s2" "lookup ?s2 p = None" "dm ?s2 = dm s1"
        using D sh1(1,2) eq1 by simp_all
      have "holds ?s2 p x" if "holds s1 p x" for x using E(7) [OF _ that] Inr D' by (simp add: holds_def)
      then have "keeps {} s1 ?s2" by (rule keeps_close [OF D'(1)])
      then show ?thesis unfolding s' using K1(1) keeps_trans by blast
    qed
  qed
qed

text \<open>The loops over the page tables.\<close>

lemma flush_entries_keeps:
  assumes "pool_ok s" and "\<And>p f. (p, f) \<in> set t \<Longrightarrow> lookup s p = Some f" and "flush_entries fd t s = (r, s')"
    and "distinct (map fst t)"
  shows "keeps {} s s' \<and> lookup s' = lookup s \<and> shards s' = shards s \<and>
    (\<forall>g. data (pages s' ! g) = data (pages s ! g)) \<and>
    (\<forall>q x. q \<notin> fst ` set t \<longrightarrow> disk_page (dm s) q = Some x \<longrightarrow> disk_page (dm s') q = Some x) \<and>
    (r = Ret () \<longrightarrow> (\<forall>p f. (p, f) \<in> set t \<longrightarrow> pid_fd p = fd \<longrightarrow> disk_page (dm s') p = Some (data (pages s ! f))))"
  using assms
proof (induction t arbitrary: s)
  case Nil
  then show ?case by (auto simp: keeps_refl)
next
  case (Cons e t)
  obtain p f where e: "e = (p, f)" by (rule prod.exhaust)
  show ?case
  proof (cases "pid_fd p = fd")
    case False
    then show ?thesis using Cons e by auto
  next
    case True
    have l: "lookup s p = Some f" using Cons.prems(2) e by simp
    obtain r1 s1 where w: "write_back f p s = (r1, s1)" by (rule prod.exhaust)
    note W = write_back_spec [OF w pool_okD(3) [OF Cons.prems(1)] lookupD(5) [OF Cons.prems(1) l]]
    show ?thesis
    proof (cases r1)
      case (Inl er)
      then have "r = Throw er" "s' = s1" using Cons.prems(3) e True w by auto
      then show ?thesis
        using keeps_write_back [OF Cons.prems(1) l w] W(1,2) W(6) e by auto
    next
      case (Inr un)
      let ?s2 = "set_page f ((pages s1 ! f)\<lparr>is_dirty := False\<rparr>) s1"
      have w': "write_back f p s = (Ret (), s1)" using w Inr by simp
      note K = keeps_clean [OF Cons.prems(1) l w' refl]
      have rest: "flush_entries fd t ?s2 = (r, s')" using Cons.prems(3) e True w Inr by simp
      have IH: "keeps {} ?s2 s'" "lookup s' = lookup ?s2" "shards s' = shards ?s2"
          "\<forall>g. data (pages s' ! g) = data (pages ?s2 ! g)"
          "\<forall>q x. q \<notin> fst ` set t \<longrightarrow> disk_page (dm ?s2) q = Some x \<longrightarrow> disk_page (dm s') q = Some x"
          "r = Ret () \<longrightarrow> (\<forall>p f. (p, f) \<in> set t \<longrightarrow> pid_fd p = fd \<longrightarrow> disk_page (dm s') p = Some (data (pages ?s2 ! f)))"
        using Cons.IH [OF keeps_ok [OF K(1)] _ rest] Cons.prems(2,4) e K(2) by auto
      have pd: "data (pages ?s2 ! g) = data (pages s ! g)" for g
        using W(1) lookupD(1) [OF Cons.prems(1) l] by (cases "g = f") (auto simp: pool_simps)
      have "p \<notin> fst ` set t" using Cons.prems(4) e by simp
      then have dp: "disk_page (dm s') p = Some (data (pages s ! f))" using IH(5) K(3) by blast
      have other: "disk_page (dm s') q = Some x" if "q \<notin> fst ` set (e # t)" "disk_page (dm s) q = Some x" for q x
        using IH(5) W(6) [of q x] that e by (simp add: pool_simps)
      show ?thesis
      proof (intro conjI)
        show "keeps {} s s'" using K(1) IH(1) keeps_trans by blast
        show "lookup s' = lookup s" "shards s' = shards s" using K(2,4) IH(2,3) by simp_all
        show "\<forall>g. data (pages s' ! g) = data (pages s ! g)" using IH(4) pd by simp
        show "\<forall>q x. q \<notin> fst ` set (e # t) \<longrightarrow> disk_page (dm s) q = Some x \<longrightarrow> disk_page (dm s') q = Some x"
          using other by blast
        show "r = Ret () \<longrightarrow> (\<forall>p f. (p, f) \<in> set (e # t) \<longrightarrow> pid_fd p = fd \<longrightarrow>
            disk_page (dm s') p = Some (data (pages s ! f)))"
          using IH(6) pd dp e by auto
      qed
    qed
  qed
qed

lemma flush_shards_keeps:
  assumes "pool_ok s" and "\<forall>i \<in> set is. i < length (shards s)" and "distinct is" and "flush_shards fd is s = (r, s')"
  shows "keeps {} s s' \<and> lookup s' = lookup s \<and> (\<forall>g. data (pages s' ! g) = data (pages s ! g)) \<and>
    (\<forall>q x. shard_index q s \<notin> set is \<longrightarrow> disk_page (dm s) q = Some x \<longrightarrow> disk_page (dm s') q = Some x) \<and>
    (r = Ret () \<longrightarrow> (\<forall>p f. lookup s p = Some f \<longrightarrow> shard_index p s \<in> set is \<longrightarrow> pid_fd p = fd \<longrightarrow>
       disk_page (dm s') p = Some (data (pages s ! f))))"
  using assms
proof (induction "is" arbitrary: s)
  case Nil
  then show ?case by (auto simp: keeps_refl)
next
  case (Cons i "is")
  let ?t = "page_table (shards s ! i)"
  have i: "i < length (shards s)" using Cons.prems(2) by simp
  note sh = pool_okD(5) [OF Cons.prems(1) i]
  obtain r1 s1 where fl: "flush_entries fd ?t s = (r1, s1)" by (rule prod.exhaust)
  have "keeps {} s s1 \<and> lookup s1 = lookup s \<and> shards s1 = shards s \<and>
    (\<forall>g. data (pages s1 ! g) = data (pages s ! g)) \<and>
    (\<forall>q x. q \<notin> fst ` set ?t \<longrightarrow> disk_page (dm s) q = Some x \<longrightarrow> disk_page (dm s1) q = Some x) \<and>
    (r1 = Ret () \<longrightarrow> (\<forall>p f. (p, f) \<in> set ?t \<longrightarrow> pid_fd p = fd \<longrightarrow> disk_page (dm s1) p = Some (data (pages s ! f))))"
    by (rule flush_entries_keeps [OF Cons.prems(1) _ fl])
      (use entry_lookup(1) [OF Cons.prems(1) i] shard_okD(3) [OF sh] in auto)
  then have E: "keeps {} s s1" "lookup s1 = lookup s" "shards s1 = shards s" "\<And>g. data (pages s1 ! g) = data (pages s ! g)"
      "\<And>q x. q \<notin> fst ` set ?t \<Longrightarrow> disk_page (dm s) q = Some x \<Longrightarrow> disk_page (dm s1) q = Some x"
      "\<And>p f. r1 = Ret () \<Longrightarrow> (p, f) \<in> set ?t \<Longrightarrow> pid_fd p = fd \<Longrightarrow> disk_page (dm s1) p = Some (data (pages s ! f))"
    by blast+
  have idx: "shard_index q s1 = shard_index q s" for q
    using E(1,3) pool_okD(1) [OF Cons.prems(1)] pool_okD(1) [OF keeps_ok [OF E(1)]] by (simp add: shard_index_def)
  have out: "q \<notin> fst ` set ?t" if "shard_index q s \<noteq> i" for q
    using that entry_lookup(2) [OF Cons.prems(1) i] by auto
  show ?case
  proof (cases r1)
    case (Inl e)
    then have "s' = s1" "r = Throw e" using Cons.prems(4) fl by auto
    then show ?thesis using E(1,2,4) E(5) out by auto
  next
    case (Inr un)
    then have r1: "r1 = Ret ()" by simp
    have rest: "flush_shards fd is s1 = (r, s')" using Cons.prems(4) fl Inr by simp
    have IH: "keeps {} s1 s'" "lookup s' = lookup s1" "\<forall>g. data (pages s' ! g) = data (pages s1 ! g)"
        "\<forall>q x. shard_index q s1 \<notin> set is \<longrightarrow> disk_page (dm s1) q = Some x \<longrightarrow> disk_page (dm s') q = Some x"
        "r = Ret () \<longrightarrow> (\<forall>p f. lookup s1 p = Some f \<longrightarrow> shard_index p s1 \<in> set is \<longrightarrow> pid_fd p = fd \<longrightarrow>
           disk_page (dm s') p = Some (data (pages s1 ! f)))"
      using Cons.IH [OF keeps_ok [OF E(1)] _ _ rest] Cons.prems(2,3) E(3) by auto
    have here: "disk_page (dm s') p = Some (data (pages s ! f))"
      if "lookup s p = Some f" "shard_index p s = i" "pid_fd p = fd" for p f
    proof -
      have "(p, f) \<in> set ?t" using lookupD(4) [OF Cons.prems(1) that(1)] that(2) by simp
      then have "disk_page (dm s1) p = Some (data (pages s ! f))" using E(6) r1 that(3) by blast
      then show ?thesis using IH(4) Cons.prems(3) that(2) idx by auto
    qed
    show ?thesis
    proof (intro conjI)
      show "keeps {} s s'" using E(1) IH(1) keeps_trans by blast
      show "lookup s' = lookup s" "\<forall>g. data (pages s' ! g) = data (pages s ! g)" using E(2,4) IH(2,3) by simp_all
      show "\<forall>q x. shard_index q s \<notin> set (i # is) \<longrightarrow> disk_page (dm s) q = Some x \<longrightarrow> disk_page (dm s') q = Some x"
        using E(5) IH(4) idx out by auto
      show "r = Ret () \<longrightarrow> (\<forall>p f. lookup s p = Some f \<longrightarrow> shard_index p s \<in> set (i # is) \<longrightarrow> pid_fd p = fd \<longrightarrow>
          disk_page (dm s') p = Some (data (pages s ! f)))"
        using IH(5) here E(2,4) idx by auto
    qed
  qed
qed

lemma flush_all_pages_keeps:
  assumes ok: "pool_ok s" and fl: "flush_all_pages fd s = (r, s')"
  shows "keeps {} s s'"
    and "r = Ret () \<Longrightarrow> lookup s p = Some f \<Longrightarrow> pid_fd p = fd \<Longrightarrow> disk_page (dm s') p = Some (data (pages s ! f))"
  using flush_shards_keeps [OF ok _ _ fl [unfolded flush_all_pages_def]] pool_okD(6) [OF ok] by auto

lemma delete_entries_keeps:
  assumes "pool_ok s" and "i < length (shards s)" and "\<And>p f. (p, f) \<in> set t \<Longrightarrow> lookup s p = Some f \<and> shard_index p s = i"
    and "distinct (map fst t)"
  shows "keeps {q. pid_fd q = fd} s (delete_entries i fd t s) \<and>
    (\<forall>q. lookup (delete_entries i fd t s) q = (if q \<in> fst ` set t \<and> pid_fd q = fd then None else lookup s q))"
  using assms
proof (induction t arbitrary: s)
  case Nil
  then show ?case by (auto simp: keeps_refl)
next
  case (Cons e t)
  obtain p f where e: "e = (p, f)" by (rule prod.exhaust)
  have l: "lookup s p = Some f" "i = shard_index p s" using Cons.prems(3) e by auto
  have pt: "p \<notin> fst ` set t" using Cons.prems(4) e by simp
  show ?case
  proof (cases "pid_fd p = fd")
    case False
    have prem: "lookup s q = Some g \<and> shard_index q s = i" if "(q, g) \<in> set t" for q g
      using Cons.prems(3) [of q g] that by simp
    have "distinct (map fst t)" using Cons.prems(4) by simp
    from Cons.IH [OF Cons.prems(1,2) prem this] show ?thesis using False by (auto simp: e)
  next
    case True
    let ?r = "pin f (replacer (shards s ! i))"
    let ?s1 = "set_shard i ((shards s ! i)\<lparr>replacer := ?r, free_list := free_list (shards s ! i) @ [f],
                 page_table := erase p (page_table (shards s ! i))\<rparr>) (set_page f (freed_page (pages s ! f)) s)"
    note sh = shard_okD [OF pool_okD(5) [OF Cons.prems(1,2)]]
    have m: "f < max_size (replacer (shards s ! i))" using sh(2) lookupD(1) [OF Cons.prems(1) l(1)] by simp
    have upd: "?s1 = set_shard i ((shards s ! i)\<lparr>page_table := erase p (page_table (shards s ! i)),
        free_list := free_list (shards s ! i) @ [f], replacer := ?r\<rparr>) (set_page f (freed_page (pages s ! f)) s)"
      by (cases "shards s ! i") simp
    note D = keeps_drop [OF Cons.prems(1) l lru.pn_inv [OF sh(1) m] _ _ upd]
    have K: "keeps {p} s ?s1" "\<And>q. lookup ?s1 q = (if q = p then None else lookup s q)"
      using D sh(2) lru.pn_set [OF sh(1) m] by auto
    have idx: "shard_index q ?s1 = shard_index q s" for q by (rule shard_index_cong) (simp add: pool_simps)
    have prem: "lookup ?s1 q = Some g \<and> shard_index q ?s1 = i" if "(q, g) \<in> set t" for q g
    proof -
      have "q \<noteq> p" using that pt by force
      then show ?thesis using Cons.prems(3) [of q g] that K(2) idx by simp
    qed
    have IH: "keeps {q. pid_fd q = fd} ?s1 (delete_entries i fd t ?s1)"
      "\<forall>q. lookup (delete_entries i fd t ?s1) q = (if q \<in> fst ` set t \<and> pid_fd q = fd then None else lookup ?s1 q)"
      using Cons.IH [OF keeps_ok [OF K(1)] _ prem] Cons.prems(2,4) by (auto simp: pool_simps)
    have "keeps {q. pid_fd q = fd} s ?s1" using K(1) by (rule keeps_mono) (use True in simp)
    then have "keeps {q. pid_fd q = fd} s (delete_entries i fd t ?s1)" using IH(1) keeps_trans by blast
    then show ?thesis using IH(2) K(2) True pt by (auto simp: e Let_def)
  qed
qed

lemma delete_all_pages_keeps:
  assumes ok: "pool_ok s"
  shows "keeps {q. pid_fd q = fd} s (delete_all_pages fd s)"
    "pid_fd q = fd \<Longrightarrow> lookup (delete_all_pages fd s) q = None"
proof -
  let ?g = "\<lambda>s i. delete_entries i fd (page_table (shards s ! i)) s"
  have "keeps {q. pid_fd q = fd} s (foldl ?g s [0 ..< n]) \<and>
    (\<forall>q. pid_fd q = fd \<longrightarrow> shard_index q s < n \<longrightarrow> lookup (foldl ?g s [0 ..< n]) q = None)"
    if "n \<le> length (shards s)" for n
    using that
  proof (induction n)
    case 0
    then show ?case by (simp add: keeps_refl [OF ok])
  next
    case (Suc n)
    let ?s = "foldl ?g s [0 ..< n]"
    have K: "keeps {q. pid_fd q = fd} s ?s" and lk: "\<And>q. pid_fd q = fd \<Longrightarrow> shard_index q s < n \<Longrightarrow> lookup ?s q = None"
      using Suc by auto
    note ok1 = keeps_ok [OF K]
    have n: "n < length (shards ?s)" using K Suc.prems by (simp add: keeps_def)
    have idx: "shard_index q ?s = shard_index q s" for q
      using K pool_okD(1) [OF ok] pool_okD(1) [OF ok1] by (simp add: shard_index_def keeps_def)
    have D: "keeps {q. pid_fd q = fd} ?s (?g ?s n)"
      "\<forall>q. lookup (?g ?s n) q = (if q \<in> fst ` set (page_table (shards ?s ! n)) \<and> pid_fd q = fd then None else lookup ?s q)"
      using delete_entries_keeps [OF ok1 n] entry_lookup [OF ok1 n] shard_okD(3) [OF pool_okD(5) [OF ok1 n]] by auto
    have "lookup (?g ?s n) q = None" if q: "pid_fd q = fd" "shard_index q s < Suc n" for q
    proof (cases "shard_index q s = n")
      case True
      then have "lookup ?s q = map_of (page_table (shards ?s ! n)) q" using idx by (simp add: lookup_def)
      then show ?thesis using D(2) q(1) by (auto simp: map_of_eq_None_iff)
    next
      case False
      then show ?thesis using D(2) lk [OF q(1)] q(2) by auto
    qed
    then show ?case using keeps_trans [OF K D(1)] by simp
  qed
  from this [of "length (shards s)"]
  show "keeps {q. pid_fd q = fd} s (delete_all_pages fd s)"
    "pid_fd q = fd \<Longrightarrow> lookup (delete_all_pages fd s) q = None"
    using pool_okD(6) [OF ok] by (simp_all add: delete_all_pages_def)
qed

lemma pool_ok_new:
  assumes "disk_inv d" shows "pool_ok (new_BufferPoolManager n d)"
proof -
  have "0 < choose_shard_count n" by (simp add: choose_shard_count_def)
  then show ?thesis
    using assms by (auto simp: pool_ok_def shard_ok_def new_BufferPoolManager_def lru_inv_new)
qed

section \<open>Sequences of pool operations\<close>

datatype pool_op =
    Fetch PageId
  | Unpin_page PageId bool
  | Flush PageId
  | New_page int
  | New_page_at PageId
  | Delete PageId
  | Flush_all int
  | Delete_all int

fun pool_step :: "pool_op \<Rightarrow> BufferPoolManager \<Rightarrow> BufferPoolManager" where
  "pool_step (Fetch p) s = snd (fetch_page p s)"
| "pool_step (Unpin_page p b) s = snd (unpin_page p b s)"
| "pool_step (Flush p) s = snd (flush_page p s)"
| "pool_step (New_page fd) s = snd (new_page fd s)"
| "pool_step (New_page_at p) s = snd (new_page_at p s)"
| "pool_step (Delete p) s = snd (delete_page p s)"
| "pool_step (Flush_all fd) s = snd (flush_all_pages fd s)"
| "pool_step (Delete_all fd) s = delete_all_pages fd s"

text \<open>
  What the callers observe: they never use the invalid page number, and \<open>new_page\<close> is called when the
  number to be allocated belongs to no page in the pool.
\<close>

fun op_valid :: "BufferPoolManager \<Rightarrow> pool_op \<Rightarrow> bool" where
  "op_valid s (Fetch p) \<longleftrightarrow> pid_page_no p \<noteq> INVALID_PAGE_ID"
| "op_valid s (New_page_at p) \<longleftrightarrow> pid_page_no p \<noteq> INVALID_PAGE_ID"
| "op_valid s (New_page fd) \<longleftrightarrow> 0 \<le> fd \<and> fd < MAX_FD \<and> fd2pageno (dm s) fd \<noteq> INVALID_PAGE_ID \<and>
     lookup s (PageId fd (fd2pageno (dm s) fd)) = None"
| "op_valid s _ \<longleftrightarrow> True"

text \<open>The pages an operation creates or drops.\<close>

fun op_pages :: "BufferPoolManager \<Rightarrow> pool_op \<Rightarrow> PageId set" where
  "op_pages s (New_page fd) = {PageId fd (fd2pageno (dm s) fd)}"
| "op_pages s (New_page_at p) = {p}"
| "op_pages s (Delete_all fd) = {q. pid_fd q = fd}"
| "op_pages s _ = {}"

lemma pool_step_keeps:
  assumes "pool_ok s" and "op_valid s a"
  shows "keeps (op_pages s a) s (pool_step a s)"
proof (cases a)
  case (Fetch p)
  then show ?thesis
    using assms(2) fetch_page_ok(1) [OF assms(1), of p] by (cases "fetch_page p s") auto
next
  case (Unpin_page p b)
  then show ?thesis using unpin_keeps(1) [OF assms(1)] by (cases "unpin_page p b s") auto
next
  case (Flush p)
  then show ?thesis using flush_page_keeps(1) [OF assms(1)] by (cases "flush_page p s") auto
next
  case (New_page fd)
  then show ?thesis using new_page_keeps(1) [OF assms(1) _ _ refl] assms(2) by (cases "new_page fd s") auto
next
  case (New_page_at p)
  then show ?thesis using new_page_at_keeps(1) [OF assms(1)] assms(2) by (cases "new_page_at p s") auto
next
  case (Delete p)
  then show ?thesis using delete_page_keeps [OF assms(1)] by (cases "delete_page p s") auto
next
  case (Flush_all fd)
  then show ?thesis using flush_all_pages_keeps(1) [OF assms(1)] by (cases "flush_all_pages fd s") auto
next
  case (Delete_all fd)
  then show ?thesis using delete_all_pages_keeps(1) [OF assms(1)] by simp
qed

text \<open>Runs of operations that leave page \<open>p\<close> to the pool.\<close>

fun pool_run :: "PageId \<Rightarrow> pool_op list \<Rightarrow> BufferPoolManager \<Rightarrow> BufferPoolManager option" where
  "pool_run p [] s = Some s"
| "pool_run p (a # as) s = (if op_valid s a \<and> p \<notin> op_pages s a then pool_run p as (pool_step a s) else None)"

lemma pool_run_holds:
  "pool_ok s \<Longrightarrow> pool_run p as s = Some s' \<Longrightarrow> pool_ok s' \<and> (holds s p x \<longrightarrow> holds s' p x)"
proof (induction as arbitrary: s)
  case Nil
  then show ?case by simp
next
  case (Cons a as)
  then have v: "op_valid s a" "p \<notin> op_pages s a" "pool_run p as (pool_step a s) = Some s'"
    by (auto split: if_splits)
  note K = pool_step_keeps [OF Cons.prems(1) v(1)]
  show ?case using Cons.IH [OF keeps_ok [OF K] v(3)] K v(2) by (auto simp: keeps_def)
qed

section \<open>Properties\<close>

text \<open>A pool of three frames over the sample disk, whose file has one page of sevens.\<close>

definition sample_pool :: BufferPoolManager where
  "sample_pool = new_BufferPoolManager 3 (snd (write_page 3 0 (replicate PAGE_SIZE 7) sample_disk))"

lemma sample_pool_ok: "pool_ok sample_pool" "holds sample_pool (PageId 3 0) (replicate PAGE_SIZE 7)"
proof -
  let ?d = "snd (write_page 3 0 (replicate PAGE_SIZE 7) sample_disk)"
  have w: "disk_write (PageId 3 0) (replicate PAGE_SIZE 7) sample_disk = (Ret (), ?d)"
    by (simp add: disk_write_def sample_disk_eq write_page_def sys_pwrite_def delivered_def)
  have "disk_page ?d (PageId 3 0) = Some (replicate PAGE_SIZE 7)"
    by (rule disk.wr_same [OF sample_disk_inv _ w]) simp
  moreover have "lookup sample_pool (PageId 3 0) = None"
    by (simp add: lookup_def sample_pool_def new_BufferPoolManager_def shard_index_def choose_shard_count_def)
  ultimately show "holds sample_pool (PageId 3 0) (replicate PAGE_SIZE 7)"
    by (simp add: holds_def sample_pool_def new_BufferPoolManager_def)
  show "pool_ok sample_pool"
    unfolding sample_pool_def by (rule pool_ok_new [OF disk.wr_ok [OF sample_disk_inv w]])
qed

text \<open>The sample pool after its page was fetched once.\<close>

definition sample_fetched :: BufferPoolManager where
  "sample_fetched = pool_step (Fetch (PageId 3 0)) sample_pool"

lemma sample_pool_page: "disk_page (dm sample_pool) (PageId 3 0) = Some (replicate PAGE_SIZE 7)"
  using sample_pool_ok(2)
  by (simp add: holds_def lookup_def sample_pool_def new_BufferPoolManager_def shard_index_def choose_shard_count_def)

lemma sample_fetch: "fetch_page (PageId 3 0) sample_pool = (Ret (Some 2), sample_fetched)"
  and sample_fetched_fields:
    "log_manager sample_fetched = None" "dm sample_fetched = dm sample_pool" "length (shards sample_fetched) = 1"
    "page_table (shards sample_fetched ! 0) = [(PageId 3 0, 2)]"
proof -
  obtain r buf where b: "read_page 3 0 PAGE_SIZE (dm sample_pool) = (r, buf)" by fastforce
  have "r = Ret ()" using read_page_disk [of "PageId 3 0"] b sample_pool_page by (cases r) auto
  then have "fst (fetch_page (PageId 3 0) sample_pool) = Ret (Some 2) \<and> log_manager sample_fetched = None \<and>
    dm sample_fetched = dm sample_pool \<and> length (shards sample_fetched) = 1 \<and>
    page_table (shards sample_fetched ! 0) = [(PageId 3 0, 2)]"
    using b
    by (simp add: sample_fetched_def fetch_page_def find_victim_page_def update_page_def sample_pool_def new_BufferPoolManager_def
        choose_shard_count_def shard_index_def set_shard_def set_page_def pin_frame_def erase_def emplace_def numeral_3_eq_3)
  then show "fetch_page (PageId 3 0) sample_pool = (Ret (Some 2), sample_fetched)"
    "log_manager sample_fetched = None" "dm sample_fetched = dm sample_pool" "length (shards sample_fetched) = 1"
    "page_table (shards sample_fetched ! 0) = [(PageId 3 0, 2)]"
    by (simp_all add: sample_fetched_def prod_eq_iff)
qed

lemma sample_fetched_ok:
  "pool_ok sample_fetched" "holds sample_fetched (PageId 3 0) (replicate PAGE_SIZE 7)"
  "lookup sample_fetched (PageId 3 0) = Some 2"
proof -
  have k: "keeps {} sample_pool sample_fetched"
    by (rule fetch_page_ok(1) [OF sample_pool_ok(1) _ sample_fetch]) (simp add: INVALID_PAGE_ID_def)
  then show "pool_ok sample_fetched" "holds sample_fetched (PageId 3 0) (replicate PAGE_SIZE 7)"
    using sample_pool_ok(2) by (simp_all add: keeps_def)
  then show "lookup sample_fetched (PageId 3 0) = Some 2"
    using lookup_shard [of sample_fetched "PageId 3 0" 2] pool_okD(6) [of sample_fetched "PageId 3 0"]
    by (simp add: sample_fetched_fields)
qed

text \<open>
  C3. The buffer pool is transparent: if page \<open>p\<close> holds \<open>x\<close> (in its frame or on disk), then after any
  sequence of fetches, unpins, flushes, deletions and creations of pages, with any evictions they
  cause and with writes of pages and log that may fail or be torn, a fetch of \<open>p\<close> that
  returns a frame returns one that holds \<open>x\<close> and is pinned.
\<close>

theorem pool_transparent:
  assumes "pool_ok s" and "holds s p x" and "pool_run p as s = Some s1" and "pid_page_no p \<noteq> INVALID_PAGE_ID"
    and "fetch_page p s1 = (Ret (Some f), s2)"
  shows "page_id (pages s2 ! f) = p \<and> data (pages s2 ! f) = x \<and> 0 < pin_count (pages s2 ! f)"
proof -
  have r: "pool_ok s1" "holds s1 p x" using pool_run_holds [OF assms(1,3)] assms(2) by auto
  note F = fetch_page_ok [OF r(1) assms(4,5)]
  have "lookup s2 p = Some f" using F(2) by blast
  then show ?thesis using F(2) [of f x] r(2) lookupD(2) [OF keeps_ok [OF F(1)]] by simp
qed

theorem pool_transparent_witness:
  "\<exists>s1 s2. pool_run (PageId 3 0) [Fetch (PageId 3 0), Flush_all 4] sample_pool = Some s1 \<and>
     fetch_page (PageId 3 0) s1 = (Ret (Some 2), s2) \<and> page_id (pages s2 ! 2) = PageId 3 0 \<and>
     data (pages s2 ! 2) = replicate PAGE_SIZE 7 \<and> 0 < pin_count (pages s2 ! 2)"
proof -
  obtain r s1 where fl: "flush_all_pages 4 sample_fetched = (r, s1)" by (rule prod.exhaust)
  have r: "pool_run (PageId 3 0) [Fetch (PageId 3 0), Flush_all 4] sample_pool = Some s1"
    using sample_fetch fl by simp
  have "lookup s1 (PageId 3 0) = Some 2"
    using flush_shards_keeps [OF sample_fetched_ok(1) _ _ fl [unfolded flush_all_pages_def]] sample_fetched_ok(3) by auto
  then obtain s2 where "fetch_page (PageId 3 0) s1 = (Ret (Some 2), s2)"
    by (cases "pin_count (pages s1 ! 2) = 0") (simp_all add: fetch_page_def lookup_def Let_def)
  with pool_transparent [OF sample_pool_ok r _ this] r show ?thesis by auto
qed

text \<open>
  C17. A \<open>flush_all_pages\<close> of a file that returns normally has put every page of the file that is in the
  pool on disk, with the content of its frame, and left all pages in the pool as they were.
\<close>

theorem flush_all_pages_durable:
  assumes "pool_ok s" and "flush_all_pages fd s = (Ret (), s')" and "lookup s p = Some f" and "pid_fd p = fd"
  shows "disk_page (dm s') p = Some (data (pages s ! f)) \<and> lookup s' p = Some f \<and> data (pages s' ! f) = data (pages s ! f)"
  using flush_shards_keeps [OF assms(1) _ _ assms(2) [unfolded flush_all_pages_def]] pool_okD(6) [OF assms(1)] assms(3,4) by auto

theorem flush_all_pages_durable_witness:
  "\<exists>s'. flush_all_pages 3 sample_fetched = (Ret (), s') \<and>
     disk_page (dm s') (PageId 3 0) = Some (data (pages sample_fetched ! 2))"
proof -
  have "flush_all_pages 3 sample_fetched = (Ret (), snd (flush_all_pages 3 sample_fetched))"
    by (simp add: flush_all_pages_def sample_fetched_fields write_back_def flush_page_log_def write_page_def
        sys_pwrite_def delivered_def sample_pool_def new_BufferPoolManager_def sample_disk_eq lookupD(5) [OF sample_fetched_ok(1,3)]
        pool_okD prod_eq_iff split: prod.splits)
  from flush_all_pages_durable [OF sample_fetched_ok(1) this sample_fetched_ok(3)] this show ?thesis by auto
qed



text \<open>
  C33. A fetch whose read fails has already mapped the page to its frame: the first fetch of a page that
  is not on disk throws, but a second one finds the page in the page table and returns the
  frame with whatever the failed read left there, as if the page had been read.
\<close>

theorem fetch_after_failed_read:
  assumes "pool_ok s" and "pid_page_no p \<noteq> INVALID_PAGE_ID" and "lookup s p = None" and "disk_page (dm s) p = None"
    and "find_victim_page (shards s ! shard_index p s) = (Some f, sh)" and "\<not> is_dirty (pages s ! f)"
  shows "\<exists>e s1 s2. fetch_page p s = (Throw e, s1) \<and> fetch_page p s1 = (Ret (Some f), s2)"
proof -
  obtain r buf where b: "read_page (pid_fd p) (pid_page_no p) PAGE_SIZE (dm s) = (r, buf)" by (rule prod.exhaust)
  then obtain e where e: "r = Throw e" using read_page_disk(1) assms(4) by (cases r) auto
  have il: "shard_index p s < length (shards s)" by (rule pool_okD(6) [OF assms(1)])
  have pt: "page_table sh = page_table (shards s ! shard_index p s)"
    using assms(5) by (auto simp: find_victim_page_def split: if_splits prod.splits)
  have no: "p \<notin> fst ` set (page_table (shards s ! shard_index p s))"
    using assms(3) by (simp add: lookup_def map_of_eq_None_iff)
  have fst: "fst (fetch_page p s) = Throw e"
    and idx: "shard_index p (snd (fetch_page p s)) = shard_index p s"
    and tab: "page_table (shards (snd (fetch_page p s)) ! shard_index p s) =
      emplace p f (erase (page_id (pages s ! f)) (page_table (shards s ! shard_index p s)))"
    using assms(3,5,6) b e il pt
    by (simp_all add: fetch_page_def update_page_def lookup_def Let_def pool_simps shard_index_def)
  have "fst (fetch_page p (snd (fetch_page p s))) = Ret (Some f)"
    using map_of_rebind [OF no, of f _ p] tab by (simp add: fetch_page_def [of p "snd _"] idx Let_def)
  with fst show ?thesis by (metis prod.collapse)
qed

theorem fetch_after_failed_read_witness:
  "\<exists>e s1 s2. fetch_page (PageId 3 9) sample_pool = (Throw e, s1) \<and> fetch_page (PageId 3 9) s1 = (Ret (Some 2), s2)"
  by (rule fetch_after_failed_read [OF sample_pool_ok(1)])
    (simp_all add: sample_pool_def new_BufferPoolManager_def lookup_def shard_index_def choose_shard_count_def
      find_victim_page_def numeral_3_eq_3 INVALID_PAGE_ID_def disk_page_def read_page_def sys_pread_def write_page_def
      sys_pwrite_def delivered_def sample_disk_eq get_bytes_def file_write_def PAGE_SIZE_def)

end
