(* ===== verification/Record_File.thy ===== *)
theory Record_File
  imports Bitmap Buffer_Pool Txn_Defs "HOL-Library.AList" "HOL-Library.List_Lexorder" "HOL-Library.Product_Lexorder"
begin

text \<open>
  Record files: \<^verbatim>\<open>src/src/record/rm_defs.h\<close>, \<^verbatim>\<open>rm_file_handle.{h,cpp}\<close>, \<^verbatim>\<open>rm_manager.h\<close> and
  \<^verbatim>\<open>rm_scan.{h,cpp}\<close> on the buffer pool. Pages are bytes: page header at 4, bitmap at 12, then the slots.

  File handles and shared record states are objects with addresses, because several handles share the
  state of their file; \<open>RmSystem\<close> is the memory that holds them together with the buffer pool. A handle's
  own copy of the file header is refreshed at the start of an operation and published at its
  end. The shared record map is an association list. Every handle is closed before it is destroyed, so the weak
  pointers in \<^verbatim>\<open>shared_states_\<close> are live as long as they are listed. A page that the pool cannot provide is a
  null pointer, whose use stops the process.

  The loop of \<open>remove_page_from_free_list\<close> runs at most once per page of the file unless the free list is
  cyclic, when it never ends; its fuel is the number of pages.
\<close>

section \<open>rm\_defs.h\<close>

definition RM_NO_PAGE :: int where "RM_NO_PAGE = -1"
definition RM_FILE_HDR_PAGE :: int where "RM_FILE_HDR_PAGE = 0"
definition RM_FIRST_RECORD_PAGE :: int where "RM_FIRST_RECORD_PAGE = 1"
definition RM_MAX_RECORD_SIZE :: int where "RM_MAX_RECORD_SIZE = 512"

lemmas rm_consts = RM_NO_PAGE_def RM_FILE_HDR_PAGE_def RM_FIRST_RECORD_PAGE_def RM_MAX_RECORD_SIZE_def

record RmFileHdr =
  record_size :: int
  num_pages :: int
  num_records_per_page :: int
  first_free_page_no :: int
  bitmap_size :: int

definition RmFileHdr_bytes :: "RmFileHdr \<Rightarrow> bytes" where
  "RmFileHdr_bytes h =
     le_bytes 4 (record_size h) @ le_bytes 4 (num_pages h) @ le_bytes 4 (num_records_per_page h) @
     le_bytes 4 (first_free_page_no h) @ le_bytes 4 (bitmap_size h)"

definition RmFileHdr_of :: "bytes \<Rightarrow> RmFileHdr" where
  "RmFileHdr_of b =
     \<lparr>record_size = get_i32 b 0, num_pages = get_i32 b 4, num_records_per_page = get_i32 b 8,
      first_free_page_no = get_i32 b 12, bitmap_size = get_i32 b 16\<rparr>"

definition sizeof_RmFileHdr :: nat where "sizeof_RmFileHdr = 20"

section \<open>Layout of a record page\<close>

definition OFFSET_PAGE_HDR :: nat where "OFFSET_PAGE_HDR = 4"
definition OFFSET_BITMAP :: nat where "OFFSET_BITMAP = OFFSET_PAGE_HDR + 8"

declare OFFSET_PAGE_HDR_def [layout_simps] OFFSET_BITMAP_def [layout_simps]

definition next_free_page_no :: "bytes \<Rightarrow> int" where
  "next_free_page_no d = get_i32 d OFFSET_PAGE_HDR"

definition set_next_free_page_no :: "int \<Rightarrow> bytes \<Rightarrow> bytes" where
  "set_next_free_page_no x d = put_i32 d OFFSET_PAGE_HDR x"

definition num_records :: "bytes \<Rightarrow> int" where
  "num_records d = get_i32 d (OFFSET_PAGE_HDR + 4)"

definition set_num_records :: "int \<Rightarrow> bytes \<Rightarrow> bytes" where
  "set_num_records x d = put_i32 d (OFFSET_PAGE_HDR + 4) x"

definition bitmap :: "RmFileHdr \<Rightarrow> bytes \<Rightarrow> bytes" where
  "bitmap h d = get_bytes d OFFSET_BITMAP (nat (bitmap_size h))"

definition set_bitmap :: "bytes \<Rightarrow> bytes \<Rightarrow> bytes" where
  "set_bitmap bm d = put_bytes d OFFSET_BITMAP bm"

definition get_slot :: "RmFileHdr \<Rightarrow> nat \<Rightarrow> nat" where
  "get_slot h k = OFFSET_BITMAP + nat (bitmap_size h) + k * nat (record_size h)"

definition read_slot :: "RmFileHdr \<Rightarrow> nat \<Rightarrow> bytes \<Rightarrow> bytes" where
  "read_slot h k d = get_bytes d (get_slot h k) (nat (record_size h))"

text \<open>\<^verbatim>\<open>memcpy(slot, buf, file_hdr_.record_size)\<close>.\<close>

definition write_slot :: "RmFileHdr \<Rightarrow> nat \<Rightarrow> bytes \<Rightarrow> bytes \<Rightarrow> bytes" where
  "write_slot h k buf d = put_bytes d (get_slot h k) (take (nat (record_size h)) buf)"

text \<open>The two edits of a page, as \<open>store_record\<close> and \<open>delete_record\<close> make them.\<close>

definition put_row :: "RmFileHdr \<Rightarrow> nat \<Rightarrow> bytes \<Rightarrow> bytes \<Rightarrow> bytes" where
  "put_row H k buf d =
     (let d1 = write_slot H k buf d; d2 = set_bitmap (bitmap_set (bitmap H d1) k) d1
      in set_num_records (num_records d2 + 1) d2)"

definition drop_row :: "RmFileHdr \<Rightarrow> nat \<Rightarrow> bytes \<Rightarrow> bytes" where
  "drop_row H k d =
     (let d1 = set_bitmap (bitmap_reset (bitmap H d) k) d in set_num_records (num_records d1 - 1) d1)"

section \<open>State\<close>

record SharedRecordState =
  ss_file_hdr :: RmFileHdr
  header_loaded :: bool
  records_loaded :: bool
  active_handles :: nat
  records :: "(int \<times> bytes) list"

record RmFileHandle =
  fh_fd :: int
  file_hdr :: RmFileHdr
  file_name :: string
  closed :: bool
  shared_state :: nat

record RmSystem =
  bpm :: BufferPoolManager
  shared_states :: "string \<Rightarrow> nat option"
  states :: "nat \<Rightarrow> SharedRecordState"
  next_state :: nat
  handles :: "nat \<Rightarrow> RmFileHandle"
  next_handle :: nat

type_synonym 'a rm_op = "(RmSystem, 'a) op"

definition zero_hdr :: RmFileHdr where
  "zero_hdr = \<lparr>record_size = 0, num_pages = 0, num_records_per_page = 0, first_free_page_no = 0, bitmap_size = 0\<rparr>"

definition new_SharedRecordState :: SharedRecordState where
  "new_SharedRecordState =
     \<lparr>ss_file_hdr = zero_hdr, header_loaded = False, records_loaded = False, active_handles = 0, records = []\<rparr>"

definition new_RmSystem :: "BufferPoolManager \<Rightarrow> RmSystem" where
  "new_RmSystem b =
     \<lparr>bpm = b, shared_states = Map.empty, states = (\<lambda>_. new_SharedRecordState), next_state = 0,
      handles = (\<lambda>_. \<lparr>fh_fd = -1, file_hdr = zero_hdr, file_name = [], closed = True, shared_state = 0\<rparr>),
      next_handle = 0\<rparr>"

text \<open>Access to the objects.\<close>

abbreviation fd_of :: "nat \<Rightarrow> RmSystem \<Rightarrow> int" where "fd_of h s \<equiv> fh_fd (handles s h)"
abbreviation hdr_of :: "nat \<Rightarrow> RmSystem \<Rightarrow> RmFileHdr" where "hdr_of h s \<equiv> file_hdr (handles s h)"
abbreviation state_of :: "nat \<Rightarrow> RmSystem \<Rightarrow> SharedRecordState" where
  "state_of h s \<equiv> states s (shared_state (handles s h))"

definition upd_hdr :: "nat \<Rightarrow> (RmFileHdr \<Rightarrow> RmFileHdr) \<Rightarrow> RmSystem \<Rightarrow> RmSystem" where
  "upd_hdr h f s = s\<lparr>handles := (handles s)(h := (handles s h)\<lparr>file_hdr := f (hdr_of h s)\<rparr>)\<rparr>"

definition upd_state :: "nat \<Rightarrow> (SharedRecordState \<Rightarrow> SharedRecordState) \<Rightarrow> RmSystem \<Rightarrow> RmSystem" where
  "upd_state h f s = s\<lparr>states := (states s)(shared_state (handles s h) := f (state_of h s))\<rparr>"

definition upd_bpm :: "(BufferPoolManager \<Rightarrow> BufferPoolManager) \<Rightarrow> RmSystem \<Rightarrow> RmSystem" where
  "upd_bpm f s = s\<lparr>bpm := f (bpm s)\<rparr>"

text \<open>A call of the buffer pool.\<close>

definition pool :: "(BufferPoolManager \<Rightarrow> 'a result \<times> BufferPoolManager) \<Rightarrow> 'a rm_op" where
  "pool c s = (case c (bpm s) of (r, b) \<Rightarrow> (r, s\<lparr>bpm := b\<rparr>))"

definition page_bytes :: "frame_id_t \<Rightarrow> RmSystem \<Rightarrow> bytes" where
  "page_bytes f s = data (pages (bpm s) ! f)"

definition page_id_of :: "frame_id_t \<Rightarrow> RmSystem \<Rightarrow> PageId" where
  "page_id_of f s = page_id (pages (bpm s) ! f)"

text \<open>Writing into the memory of a page, and giving the page back to the pool as every operation does.\<close>

definition upd_page :: "frame_id_t \<Rightarrow> (bytes \<Rightarrow> bytes) \<Rightarrow> RmSystem \<Rightarrow> RmSystem" where
  "upd_page f g = upd_bpm (\<lambda>b. set_page f ((pages b ! f)\<lparr>data := g (data (pages b ! f))\<rparr>) b)"

definition unpin_frame :: "frame_id_t \<Rightarrow> bool \<Rightarrow> RmSystem \<Rightarrow> RmSystem" where
  "unpin_frame f dirty s = upd_bpm (\<lambda>b. snd (unpin_page (page_id (pages b ! f)) dirty b)) s"

definition done_dirty :: "frame_id_t \<Rightarrow> RmSystem \<Rightarrow> RmSystem" where
  "done_dirty f s = unpin_frame f True (upd_bpm (mark_dirty f) s)"

definition memory_key :: "Rid \<Rightarrow> int" where
  "memory_key rid = page_no rid * 2 ^ 32 + slot_no rid mod 2 ^ 32"

definition key_to_rid :: "int \<Rightarrow> Rid" where
  "key_to_rid key = Rid (to_i32 (key div 2 ^ 32)) (to_i32 (key mod 2 ^ 32))"

section \<open>rm\_file\_handle.cpp\<close>

definition ensure_open_locked :: "nat \<Rightarrow> unit rm_op" where
  "ensure_open_locked h s =
     (if closed (handles s h)
      then (Throw (RMDBError (''Record file handle is closed: '' @ file_name (handles s h))), s) else (Ret (), s))"

text \<open>The lines with which every operation starts: open, latched, with the published header.\<close>

definition start_op :: "nat \<Rightarrow> unit rm_op" where
  "start_op h =
     bind_op (ensure_open_locked h) (\<lambda>_. modify (\<lambda>s. upd_hdr h (\<lambda>_. ss_file_hdr (state_of h s)) s))"

definition get_file_hdr :: "nat \<Rightarrow> RmFileHdr rm_op" where
  "get_file_hdr h = bind_op (ensure_open_locked h) (\<lambda>_. gets (\<lambda>s. ss_file_hdr (state_of h s)))"

definition GetFd :: "nat \<Rightarrow> int rm_op" where
  "GetFd h = bind_op (ensure_open_locked h) (\<lambda>_. gets (fd_of h))"

definition flush_file_hdr :: "nat \<Rightarrow> unit rm_op" where
  "flush_file_hdr h =
     bind_op (ensure_open_locked h) (\<lambda>_ s.
       pool (\<lambda>b. case write_page (fd_of h s) RM_FILE_HDR_PAGE (RmFileHdr_bytes (ss_file_hdr (state_of h s))) (dm b) of
                   (r, d) \<Rightarrow> (r, b\<lparr>dm := d\<rparr>)) s)"

definition is_record :: "nat \<Rightarrow> Rid \<Rightarrow> bool rm_op" where
  "is_record h rid =
     bind_op (ensure_open_locked h) (\<lambda>_. gets (\<lambda>s. map_of (records (state_of h s)) (memory_key rid) \<noteq> None))"

definition get_record :: "nat \<Rightarrow> Rid \<Rightarrow> bytes rm_op" where
  "get_record h rid =
     bind_op (ensure_open_locked h) (\<lambda>_. lift (\<lambda>s.
       case map_of (records (state_of h s)) (memory_key rid) of
         None \<Rightarrow> Throw (RecordNotFoundError (page_no rid) (slot_no rid))
       | Some rec \<Rightarrow> Ret rec))"

definition fetch_page_handle_unlocked :: "nat \<Rightarrow> int \<Rightarrow> frame_id_t rm_op" where
  "fetch_page_handle_unlocked h pno s =
     (if pno < RM_FIRST_RECORD_PAGE \<or> pno \<ge> num_pages (hdr_of h s)
      then (case get_file_name (fd_of h s) (dm (bpm s)) of
              Inl e \<Rightarrow> (Throw e, s)
            | Inr name \<Rightarrow> (Throw (PageNotExistError name pno), s))
      else case pool (fetch_page (PageId (fd_of h s) pno)) s of
          (Inl e, s1) \<Rightarrow> (Throw e, s1)
        | (Inr None, s1) \<Rightarrow> (Throw AssertionFailure, s1)
        | (Inr (Some f), s1) \<Rightarrow> (Ret f, s1))"

definition fetch_page_handle :: "nat \<Rightarrow> int \<Rightarrow> frame_id_t rm_op" where
  "fetch_page_handle h pno = bind_op (ensure_open_locked h) (\<lambda>_. fetch_page_handle_unlocked h pno)"

text \<open>The memory of a new page: a page header and an empty bitmap.\<close>

definition init_page :: "RmFileHdr \<Rightarrow> bytes \<Rightarrow> bytes" where
  "init_page fhdr d =
     set_bitmap (bitmap_init (nat (bitmap_size fhdr)))
       (set_num_records 0 (set_next_free_page_no (first_free_page_no fhdr) d))"

definition create_new_page_handle_unlocked :: "nat \<Rightarrow> frame_id_t rm_op" where
  "create_new_page_handle_unlocked h s =
     (let pno = num_pages (hdr_of h s) in
      case pool (new_page_at (PageId (fd_of h s) pno)) s of
        (Inl e, s1) \<Rightarrow> (Throw e, s1)
      | (Inr None, s1) \<Rightarrow> (Throw (InternalError ''BufferPoolManager::new_page_at failed''), s1)
      | (Inr (Some f), s1) \<Rightarrow>
          (let s2 = upd_bpm (\<lambda>b. b\<lparr>dm := set_fd2pageno (fd_of h s) (pno + 1) (dm b)\<rparr>) s1;
               s3 = upd_hdr h (\<lambda>hd. hd\<lparr>num_pages := num_pages hd + 1\<rparr>) s2;
               s4 = upd_page f (init_page (hdr_of h s3)) s3
           in (Ret f, upd_hdr h (\<lambda>hd. hd\<lparr>first_free_page_no := pno\<rparr>) s4)))"

definition create_new_page_handle :: "nat \<Rightarrow> frame_id_t rm_op" where
  "create_new_page_handle h =
     bind_op (start_op h) (\<lambda>_.
     bind_op (create_new_page_handle_unlocked h) (\<lambda>f.
     bind_op (modify (\<lambda>s. upd_state h (\<lambda>st. st\<lparr>ss_file_hdr := hdr_of h s\<rparr>) s)) (\<lambda>_.
     ret f)))"

definition create_page_handle :: "nat \<Rightarrow> frame_id_t rm_op" where
  "create_page_handle h s =
     (if first_free_page_no (hdr_of h s) = RM_NO_PAGE then create_new_page_handle_unlocked h s
      else fetch_page_handle_unlocked h (first_free_page_no (hdr_of h s)) s)"

definition release_page_handle :: "nat \<Rightarrow> frame_id_t \<Rightarrow> RmSystem \<Rightarrow> RmSystem" where
  "release_page_handle h f s =
     (let s1 = upd_page f (set_next_free_page_no (first_free_page_no (hdr_of h s))) s
      in upd_hdr h (\<lambda>hd. hd\<lparr>first_free_page_no := pid_page_no (page_id_of f s1)\<rparr>) s1)"

fun unlink_free_page :: "nat \<Rightarrow> nat \<Rightarrow> int \<Rightarrow> int \<Rightarrow> int \<Rightarrow> unit rm_op" where
  "unlink_free_page fuel h pno next_free prev s =
     (if prev = RM_NO_PAGE then (Ret (), s)
      else case fuel of
          0 \<Rightarrow> (Throw NonTermination, s)
        | Suc n \<Rightarrow>
            (case fetch_page_handle_unlocked h prev s of
               (Inl e, s1) \<Rightarrow> (Throw e, s1)
             | (Inr f, s1) \<Rightarrow>
                 (let prev_next = next_free_page_no (page_bytes f s1) in
                  if prev_next = pno
                  then (Ret (), done_dirty f (upd_page f (set_next_free_page_no next_free) s1))
                  else unlink_free_page n h pno next_free prev_next (unpin_frame f False s1))))"

declare unlink_free_page.simps [simp del]

definition remove_page_from_free_list :: "nat \<Rightarrow> frame_id_t \<Rightarrow> unit rm_op" where
  "remove_page_from_free_list h f s =
     (let pno = pid_page_no (page_id_of f s);
          next_free = next_free_page_no (page_bytes f s)
      in
      if first_free_page_no (hdr_of h s) = pno
      then (Ret (), upd_page f (set_next_free_page_no RM_NO_PAGE)
                      (upd_hdr h (\<lambda>hd. hd\<lparr>first_free_page_no := next_free\<rparr>) s))
      else bind_op (unlink_free_page (nat (num_pages (hdr_of h s))) h pno next_free (first_free_page_no (hdr_of h s)))
             (\<lambda>_. modify (upd_page f (set_next_free_page_no RM_NO_PAGE))) s)"

text \<open>The common part of the two insertions: fill the slot of a pinned page and publish.\<close>

definition store_record :: "nat \<Rightarrow> frame_id_t \<Rightarrow> int \<Rightarrow> nat \<Rightarrow> bytes \<Rightarrow> unit rm_op" where
  "store_record h f pno slot buf =
     bind_op (modify (\<lambda>s. upd_page f (put_row (hdr_of h s) slot buf) s)) (\<lambda>_.
     bind_op (\<lambda>s. if num_records (page_bytes f s) = num_records_per_page (hdr_of h s)
                  then remove_page_from_free_list h f s else (Ret (), s)) (\<lambda>_.
     modify (\<lambda>s. done_dirty f
       (upd_state h (\<lambda>st. st\<lparr>records := AList.update (memory_key (Rid pno (int slot)))
                                             (take (nat (record_size (hdr_of h s))) buf) (records st),
                                  ss_file_hdr := hdr_of h s\<rparr>) s))))"

definition insert_record :: "nat \<Rightarrow> bytes \<Rightarrow> Rid rm_op" where
  "insert_record h buf =
     bind_op (start_op h) (\<lambda>_.
     bind_op (create_page_handle h) (\<lambda>f s.
       let slot = first_bit False (bitmap (hdr_of h s) (page_bytes f s)) (nat (num_records_per_page (hdr_of h s)));
           pno = pid_page_no (page_id_of f s)
       in bind_op (store_record h f pno slot buf) (\<lambda>_. ret (Rid pno (int slot))) s))"

definition insert_record_at :: "nat \<Rightarrow> Rid \<Rightarrow> bytes \<Rightarrow> unit rm_op" where
  "insert_record_at h rid buf =
     bind_op (start_op h) (\<lambda>_.
     bind_op (fetch_page_handle_unlocked h (page_no rid)) (\<lambda>f s.
       if slot_no rid < 0 \<or> slot_no rid \<ge> num_records_per_page (hdr_of h s)
       then (Throw (RecordNotFoundError (page_no rid) (slot_no rid)), unpin_frame f False s)
       else if is_set (bitmap (hdr_of h s) (page_bytes f s)) (nat (slot_no rid))
       then (Throw (RMDBError (''Record already exists: ('' @ int_to_string (page_no rid) @ '','' @
                                int_to_string (slot_no rid) @ '')'')), unpin_frame f False s)
       else store_record h f (page_no rid) (nat (slot_no rid)) buf s))"

definition record_exists_on_page :: "nat \<Rightarrow> Rid \<Rightarrow> frame_id_t \<Rightarrow> RmSystem \<Rightarrow> bool" where
  "record_exists_on_page h rid f s \<longleftrightarrow>
     slot_no rid \<ge> 0 \<and> slot_no rid < num_records_per_page (hdr_of h s) \<and>
     is_set (bitmap (hdr_of h s) (page_bytes f s)) (nat (slot_no rid))"

definition delete_record :: "nat \<Rightarrow> Rid \<Rightarrow> unit rm_op" where
  "delete_record h rid =
     bind_op (start_op h) (\<lambda>_.
     bind_op (fetch_page_handle_unlocked h (page_no rid)) (\<lambda>f s.
       if \<not> record_exists_on_page h rid f s
       then (Throw (RecordNotFoundError (page_no rid) (slot_no rid)), unpin_frame f False s)
       else
         let s1 = upd_page f (drop_row (hdr_of h s) (nat (slot_no rid))) s;
             s2 = (if num_records (page_bytes f s1) = num_records_per_page (hdr_of h s1) - 1
                   then release_page_handle h f s1 else s1);
             s3 = upd_state h (\<lambda>st. st\<lparr>records := AList.delete (memory_key rid) (records st),
                                       ss_file_hdr := hdr_of h s2\<rparr>) s2
         in (Ret (), done_dirty f s3)))"

definition update_record :: "nat \<Rightarrow> Rid \<Rightarrow> bytes \<Rightarrow> unit rm_op" where
  "update_record h rid buf =
     bind_op (start_op h) (\<lambda>_.
     bind_op (fetch_page_handle_unlocked h (page_no rid)) (\<lambda>f s.
       if \<not> record_exists_on_page h rid f s
       then (Throw (RecordNotFoundError (page_no rid) (slot_no rid)), unpin_frame f False s)
       else
         let s1 = upd_page f (write_slot (hdr_of h s) (nat (slot_no rid)) buf) s;
             key = memory_key rid;
             s2 = upd_state h (\<lambda>st.
                    st\<lparr>records := (case map_of (records st) key of
                                     Some old \<Rightarrow> AList.update key (take (length old) buf) (records st)
                                   | None \<Rightarrow> AList.update key (take (nat (record_size (hdr_of h s1))) buf) (records st)),
                       ss_file_hdr := hdr_of h s1\<rparr>) s1
         in (Ret (), done_dirty f s2)))"

definition rm_set_page_lsn :: "nat \<Rightarrow> Rid \<Rightarrow> lsn_t \<Rightarrow> unit rm_op" where
  "rm_set_page_lsn h rid lsn =
     (if lsn = INVALID_LSN then ret ()
      else
        bind_op (start_op h) (\<lambda>_.
        bind_op (fetch_page_handle_unlocked h (page_no rid)) (\<lambda>f.
        modify (\<lambda>s. done_dirty f (upd_page f (\<lambda>d. set_page_lsn d lsn) s)))))"

definition reset_data_pages :: "nat \<Rightarrow> unit rm_op" where
  "reset_data_pages h =
     bind_op (start_op h) (\<lambda>_.
     bind_op (\<lambda>s. mapM_op (\<lambda>pno. bind_op (pool (delete_page (PageId (fd_of h s) pno))) (\<lambda>_. ret ()))
                [RM_FIRST_RECORD_PAGE .. num_pages (hdr_of h s) - 1] s) (\<lambda>_.
     modify (\<lambda>s.
       let s1 = upd_hdr h (\<lambda>hd. hd\<lparr>num_pages := RM_FIRST_RECORD_PAGE, first_free_page_no := RM_NO_PAGE\<rparr>) s;
           s2 = upd_bpm (\<lambda>b. b\<lparr>dm := set_fd2pageno (fd_of h s1) RM_FIRST_RECORD_PAGE (dm b)\<rparr>) s1
       in upd_state h (\<lambda>st. st\<lparr>records := [], ss_file_hdr := hdr_of h s2, records_loaded := True\<rparr>) s2)))"

definition snapshot_rids :: "nat \<Rightarrow> Rid list rm_op" where
  "snapshot_rids h =
     bind_op (ensure_open_locked h) (\<lambda>_. gets (\<lambda>s.
       map (\<lambda>(p, n). Rid p n)
         (sort (map (\<lambda>e. (page_no (key_to_rid (fst e)), slot_no (key_to_rid (fst e)))) (records (state_of h s))))))"

definition load_page :: "nat \<Rightarrow> int \<Rightarrow> unit rm_op" where
  "load_page h pno s =
     (case pool (fetch_page (PageId (fd_of h s) pno)) s of
        (Inl e, s1) \<Rightarrow> (Throw e, s1)
      | (Inr None, s1) \<Rightarrow> (Throw AssertionFailure, s1)
      | (Inr (Some f), s1) \<Rightarrow>
          (let hd = hdr_of h s1; d = page_bytes f s1;
               slots = filter (is_set (bitmap hd d)) [0 ..< nat (num_records_per_page hd)];
               s2 = upd_state h (\<lambda>st. st\<lparr>records := foldl (\<lambda>rs slot.
                      AList.update (memory_key (Rid pno (int slot))) (read_slot hd slot d) rs) (records st) slots\<rparr>) s1
           in (Ret (), unpin_frame f False s2)))"

definition load_memory_records :: "nat \<Rightarrow> unit rm_op" where
  "load_memory_records h s =
     (if records_loaded (state_of h s) then (Ret (), upd_hdr h (\<lambda>_. ss_file_hdr (state_of h s)) s)
      else
        bind_op (modify (upd_state h (\<lambda>st. st\<lparr>records := []\<rparr>))) (\<lambda>_.
        bind_op (lift (\<lambda>s. get_file_name (fd_of h s) (dm (bpm s)))) (\<lambda>name.
        bind_op (\<lambda>s.
            let file_pages = get_file_size name (dm (bpm s)) div int PAGE_SIZE;
                loaded_pages = min (num_pages (hdr_of h s)) file_pages
            in mapM_op (load_page h) [RM_FIRST_RECORD_PAGE .. loaded_pages - 1] s) (\<lambda>_.
        modify (upd_state h (\<lambda>st. st\<lparr>records_loaded := True\<rparr>))))) s)"

definition get_shared_state :: "string \<Rightarrow> RmSystem \<Rightarrow> nat \<times> RmSystem" where
  "get_shared_state name s =
     (case shared_states s name of
        Some a \<Rightarrow> (a, s)
      | None \<Rightarrow>
          (next_state s,
           s\<lparr>shared_states := (shared_states s)(name \<mapsto> next_state s),
             states := (states s)(next_state s := new_SharedRecordState), next_state := Suc (next_state s)\<rparr>))"

definition detach_shared_state :: "nat \<Rightarrow> RmSystem \<Rightarrow> RmSystem" where
  "detach_shared_state h s =
     (if shared_states s (file_name (handles s h)) = Some (shared_state (handles s h))
      then s\<lparr>shared_states := (shared_states s)(file_name (handles s h) := None)\<rparr> else s)"

definition new_RmFileHandle :: "int \<Rightarrow> nat rm_op" where
  "new_RmFileHandle fd s =
     (case get_file_name fd (dm (bpm s)) of
        Inl e \<Rightarrow> (Throw e, s)
      | Inr name \<Rightarrow>
          (case get_shared_state name s of (a, s1) \<Rightarrow>
             (case read_page fd RM_FILE_HDR_PAGE sizeof_RmFileHdr (dm (bpm s1)) of
                (Inl e, _) \<Rightarrow> (Throw e, s1)
              | (Inr _, buf) \<Rightarrow>
                  (let h = next_handle s1;
                       st = states s1 a;
                       hd = (if header_loaded st then ss_file_hdr st else RmFileHdr_of buf);
                       s2 = s1\<lparr>states := (states s1)(a := st\<lparr>ss_file_hdr := hd, header_loaded := True,
                                                              active_handles := active_handles st + 1\<rparr>),
                               handles := (handles s1)(h := \<lparr>fh_fd = fd, file_hdr = hd, file_name = name,
                                                              closed = False, shared_state = a\<rparr>),
                               next_handle := Suc h\<rparr>;
                       s3 = upd_bpm (\<lambda>b. b\<lparr>dm := set_fd2pageno fd (num_pages hd) (dm b)\<rparr>) s2
                   in bind_op (load_memory_records h) (\<lambda>_. ret h) s3))))"

section \<open>rm\_scan.cpp\<close>

record RmScan =
  rids :: "Rid list"
  scan_pos :: nat
  scan_rid :: Rid

definition no_rid :: Rid where "no_rid = Rid RM_NO_PAGE RM_NO_PAGE"

definition new_RmScan :: "nat \<Rightarrow> RmScan rm_op" where
  "new_RmScan h =
     bind_op (snapshot_rids h) (\<lambda>rs. ret \<lparr>rids = rs, scan_pos = 0, scan_rid = (if rs = [] then no_rid else hd rs)\<rparr>)"

definition scan_next :: "RmScan \<Rightarrow> RmScan" where
  "scan_next sc =
     (if scan_pos sc + 1 < length (rids sc)
      then sc\<lparr>scan_pos := scan_pos sc + 1, scan_rid := rids sc ! (scan_pos sc + 1)\<rparr>
      else sc\<lparr>scan_pos := length (rids sc), scan_rid := no_rid\<rparr>)"

definition scan_is_end :: "RmScan \<Rightarrow> bool" where
  "scan_is_end sc \<longleftrightarrow> page_no (scan_rid sc) = RM_NO_PAGE"

section \<open>rm\_manager.h\<close>

definition on_disk :: "(DiskManager \<Rightarrow> 'a result \<times> DiskManager) \<Rightarrow> 'a rm_op" where
  "on_disk c = pool (\<lambda>b. case c (dm b) of (r, d) \<Rightarrow> (r, b\<lparr>dm := d\<rparr>))"

definition new_file_hdr :: "int \<Rightarrow> RmFileHdr" where
  "new_file_hdr rsize =
     (let n = (int BITMAP_WIDTH * (int PAGE_SIZE - 1 - int sizeof_RmFileHdr) + 1) div (1 + rsize * int BITMAP_WIDTH)
      in \<lparr>record_size = rsize, num_pages = 1, num_records_per_page = n, first_free_page_no = RM_NO_PAGE,
          bitmap_size = (n + int BITMAP_WIDTH - 1) div int BITMAP_WIDTH\<rparr>)"

definition rm_create_file :: "string \<Rightarrow> int \<Rightarrow> unit rm_op" where
  "rm_create_file name rsize =
     (if rsize < 1 \<or> rsize > RM_MAX_RECORD_SIZE then throw (InvalidRecordSizeError rsize)
      else
        bind_op (on_disk (create_file name)) (\<lambda>_.
        bind_op (on_disk (open_file name)) (\<lambda>fd.
        bind_op (on_disk (write_page fd RM_FILE_HDR_PAGE (RmFileHdr_bytes (new_file_hdr rsize)))) (\<lambda>_.
        on_disk (close_file fd)))))"

definition rm_destroy_file :: "string \<Rightarrow> unit rm_op" where
  "rm_destroy_file name = on_disk (destroy_file name)"

definition rm_open_file :: "string \<Rightarrow> nat rm_op" where
  "rm_open_file name = bind_op (on_disk (open_file name)) new_RmFileHandle"

definition rm_close_file :: "nat \<Rightarrow> unit rm_op" where
  "rm_close_file h s =
     (if closed (handles s h) then (Ret (), s)
      else
        let st = state_of h s;
            hd = (if num_pages (hdr_of h s) > num_pages (ss_file_hdr st) then hdr_of h s else ss_file_hdr st);
            n = active_handles st - 1;
            s1 = upd_state h (\<lambda>st. st\<lparr>ss_file_hdr := hd, active_handles := n\<rparr>) s;
            s2 = s1\<lparr>handles := (handles s1)(h := (handles s1 h)\<lparr>closed := True\<rparr>)\<rparr>
        in
        bind_op (on_disk (write_page (fd_of h s2) RM_FILE_HDR_PAGE (RmFileHdr_bytes hd))) (\<lambda>_.
        bind_op (pool (flush_all_pages (fd_of h s2))) (\<lambda>_.
          if n = 0
          then bind_op (on_disk (close_file (fd_of h s2))) (\<lambda>_. modify (detach_shared_state h))
          else ret ())) s2)"

section \<open>Layout\<close>

definition layout_ok :: "RmFileHdr \<Rightarrow> bool" where
  "layout_ok H \<longleftrightarrow>
     1 \<le> record_size H \<and> 1 \<le> num_records_per_page H \<and> num_records_per_page H \<le> 8 * bitmap_size H \<and>
     int OFFSET_BITMAP + bitmap_size H + num_records_per_page H * record_size H \<le> int PAGE_SIZE"

text \<open>The rows of a page: slot to record.\<close>

definition page_rows :: "RmFileHdr \<Rightarrow> bytes \<Rightarrow> nat \<Rightarrow> bytes option" where
  "page_rows H d k =
     (if k < nat (num_records_per_page H) \<and> is_set (bitmap H d) k then Some (read_slot H k d) else None)"

lemma layout_new_file_hdr:
  assumes "1 \<le> r" "r \<le> RM_MAX_RECORD_SIZE"
  shows "layout_ok (new_file_hdr r)"
proof -
  define n where "n = (32601 :: int) div (1 + r * 8)"
  have r: "1 \<le> r" "r \<le> 512" using assms by (simp_all add: rm_consts)
  have H: "new_file_hdr r = \<lparr>record_size = r, num_pages = 1, num_records_per_page = n, first_free_page_no = RM_NO_PAGE,
      bitmap_size = (n + 7) div 8\<rparr>"
    by (simp add: new_file_hdr_def n_def PAGE_SIZE_def sizeof_RmFileHdr_def BITMAP_WIDTH_def Let_def add.commute)
  have "n * (1 + r * 8) \<le> 32601" 
    unfolding n_def using r div_mult_mod_eq [of 32601 "1 + r * 8"] pos_mod_sign [of "1 + r * 8" 32601] by linarith
  then have a: "n + 8 * (n * r) \<le> 32601" by (simp add: algebra_simps)
  have b: "1 \<le> n" unfolding n_def using r by (simp add: int_one_le_iff_zero_less pos_imp_zdiv_pos_iff)
  have c: "8 * ((n + 7) div 8) \<le> n + 7" "n \<le> 8 * ((n + 7) div 8)" by linarith+
  show ?thesis using a b c r by (simp add: layout_ok_def H layout_simps)
qed

lemma layout_nat:
  assumes "layout_ok H" and "k < nat (num_records_per_page H)"
  shows "k div 8 < nat (bitmap_size H)" "get_slot H k + nat (record_size H) \<le> PAGE_SIZE"
    "OFFSET_BITMAP + nat (bitmap_size H) \<le> get_slot H k"
    "j \<noteq> k \<Longrightarrow> get_slot H j + nat (record_size H) \<le> get_slot H k \<or> get_slot H k + nat (record_size H) \<le> get_slot H j"
proof -
  show "k div 8 < nat (bitmap_size H)" using assms by (simp add: layout_ok_def) linarith
  show "OFFSET_BITMAP + nat (bitmap_size H) \<le> get_slot H k" by (simp add: get_slot_def)
  obtain a b n where H: "record_size H = int a" "bitmap_size H = int b" "num_records_per_page H = int n"
    using assms(1) nonneg_int_cases by (metis layout_ok_def order_trans zero_le_one mult_nonneg_nonneg zero_le_mult_iff
        linorder_not_le mult_less_0_iff zero_less_numeral not_one_le_zero)
  have "Suc k * a \<le> n * a" using assms(2) H by (intro mult_le_mono1) simp
  moreover have "OFFSET_BITMAP + b + n * a \<le> PAGE_SIZE"
    using assms(1) unfolding layout_ok_def H by (metis of_nat_add of_nat_le_iff of_nat_mult)
  ultimately show "get_slot H k + nat (record_size H) \<le> PAGE_SIZE" by (simp add: get_slot_def H)
  show "get_slot H j + nat (record_size H) \<le> get_slot H k \<or> get_slot H k + nat (record_size H) \<le> get_slot H j" if "j \<noteq> k"
  proof -
    have "Suc j * nat (record_size H) \<le> k * nat (record_size H) \<or> Suc k * nat (record_size H) \<le> j * nat (record_size H)"
      using that by (metis Suc_leI linorder_neqE_nat mult_le_mono1)
    then show ?thesis by (simp add: get_slot_def add.commute)
  qed
qed

section \<open>Storing and dropping a row\<close>

lemma bitmap_room: "layout_ok H \<Longrightarrow> OFFSET_BITMAP + nat (bitmap_size H) \<le> PAGE_SIZE"
  using layout_nat(2,3) [of H 0] by (simp add: layout_ok_def)

lemma length_bitmap_of: "layout_ok H \<Longrightarrow> length d = PAGE_SIZE \<Longrightarrow> length (bitmap H d) = nat (bitmap_size H)"
  using bitmap_room [of H] by (simp add: bitmap_def)

lemma length_page_edits [simp]:
  assumes "length d = PAGE_SIZE"
  shows "length (set_next_free_page_no x d) = PAGE_SIZE" "length (set_num_records x d) = PAGE_SIZE"
    "layout_ok H \<Longrightarrow> length bm = nat (bitmap_size H) \<Longrightarrow> length (set_bitmap bm d) = PAGE_SIZE"
    "layout_ok H \<Longrightarrow> k < nat (num_records_per_page H) \<Longrightarrow> length (write_slot H k buf d) = PAGE_SIZE"
proof -
  show "length (set_next_free_page_no x d) = PAGE_SIZE" "length (set_num_records x d) = PAGE_SIZE"
    using assms by (simp_all add: set_next_free_page_no_def set_num_records_def layout_simps)
  show "length (set_bitmap bm d) = PAGE_SIZE" if "layout_ok H" "length bm = nat (bitmap_size H)"
    using that assms bitmap_room [of H] by (simp add: set_bitmap_def)
  show "length (write_slot H k buf d) = PAGE_SIZE" if "layout_ok H" "k < nat (num_records_per_page H)"
    using assms layout_nat(2) [OF that] unfolding write_slot_def by (subst length_put_bytes) simp_all
qed

text \<open>Page header, bitmap and slots do not overlap.\<close>

lemma bitmap_of_edits [simp]:
  assumes d: "length d = PAGE_SIZE" and H: "layout_ok H"
  shows "bitmap H (set_next_free_page_no x d) = bitmap H d" "bitmap H (set_num_records x d) = bitmap H d"
    "length bm = nat (bitmap_size H) \<Longrightarrow> bitmap H (set_bitmap bm d) = bm"
    "k < nat (num_records_per_page H) \<Longrightarrow> bitmap H (write_slot H k buf d) = bitmap H d"
proof -
  show "bitmap H (set_next_free_page_no x d) = bitmap H d" "bitmap H (set_num_records x d) = bitmap H d"
    unfolding bitmap_def set_next_free_page_no_def set_num_records_def
    by (rule get_bytes_put_i32_disjoint; use d in \<open>simp add: layout_simps\<close>)+
  show "bitmap H (set_bitmap bm d) = bm" if "length bm = nat (bitmap_size H)"
    unfolding bitmap_def set_bitmap_def by (rule get_put_same_len) (use that d bitmap_room [OF H] in simp_all)
  show "bitmap H (write_slot H k buf d) = bitmap H d" if "k < nat (num_records_per_page H)"
    unfolding bitmap_def write_slot_def
    by (rule get_put_disjoint) (use layout_nat(2,3) [OF H that] d in \<open>simp_all\<close>)
qed

lemma read_slot_edits [simp]:
  assumes d: "length d = PAGE_SIZE" and H: "layout_ok H" and k: "k < nat (num_records_per_page H)"
  shows "read_slot H k (set_next_free_page_no x d) = read_slot H k d" "read_slot H k (set_num_records x d) = read_slot H k d"
    "length bm = nat (bitmap_size H) \<Longrightarrow> read_slot H k (set_bitmap bm d) = read_slot H k d"
    "length buf = nat (record_size H) \<Longrightarrow> j < nat (num_records_per_page H) \<Longrightarrow>
       read_slot H k (write_slot H j buf d) = (if j = k then buf else read_slot H k d)"
proof -
  note L = layout_nat [OF H k]
  show "read_slot H k (set_next_free_page_no x d) = read_slot H k d" "read_slot H k (set_num_records x d) = read_slot H k d"
    unfolding read_slot_def set_next_free_page_no_def set_num_records_def
    by (rule get_bytes_put_i32_disjoint; use d L(3) in \<open>simp add: layout_simps\<close>)+
  show "read_slot H k (set_bitmap bm d) = read_slot H k d" if "length bm = nat (bitmap_size H)"
    unfolding read_slot_def set_bitmap_def
    by (rule get_put_disjoint) (use that d L bitmap_room [OF H] in simp_all)
  show "read_slot H k (write_slot H j buf d) = (if j = k then buf else read_slot H k d)"
    if "length buf = nat (record_size H)" "j < nat (num_records_per_page H)"
  proof (cases "j = k")
    case True
    then show ?thesis using that d L(2) unfolding read_slot_def write_slot_def by (simp add: get_put_same_len)
  next
    case False
    then show ?thesis
      using that d L(4) [OF False] layout_nat(2) [OF H that(2)] unfolding read_slot_def write_slot_def
      by (simp, intro get_put_disjoint) auto
  qed
qed

lemma num_records_edits [simp]:
  assumes "length d = PAGE_SIZE"
  shows "in_i32 x \<Longrightarrow> num_records (set_num_records x d) = x" "num_records (set_next_free_page_no y d) = num_records d"
    "in_i32 y \<Longrightarrow> next_free_page_no (set_next_free_page_no y d) = y" "next_free_page_no (set_num_records x d) = next_free_page_no d"
    "layout_ok H \<Longrightarrow> length bm = nat (bitmap_size H) \<Longrightarrow> num_records (set_bitmap bm d) = num_records d"
    "layout_ok H \<Longrightarrow> length bm = nat (bitmap_size H) \<Longrightarrow> next_free_page_no (set_bitmap bm d) = next_free_page_no d"
    "layout_ok H \<Longrightarrow> k < nat (num_records_per_page H) \<Longrightarrow> num_records (write_slot H k buf d) = num_records d"
    "layout_ok H \<Longrightarrow> k < nat (num_records_per_page H) \<Longrightarrow> next_free_page_no (write_slot H k buf d) = next_free_page_no d"
proof -
  have s: "OFFSET_PAGE_HDR + 8 \<le> PAGE_SIZE" by (simp add: layout_simps)
  show "in_i32 x \<Longrightarrow> num_records (set_num_records x d) = x" "num_records (set_next_free_page_no y d) = num_records d"
    "in_i32 y \<Longrightarrow> next_free_page_no (set_next_free_page_no y d) = y" "next_free_page_no (set_num_records x d) = next_free_page_no d"
    using assms s unfolding num_records_def set_num_records_def next_free_page_no_def set_next_free_page_no_def
    by (auto simp: get_put_i32 intro: get_i32_put_i32_disjoint)
  show "num_records (set_bitmap bm d) = num_records d" "next_free_page_no (set_bitmap bm d) = next_free_page_no d"
    if "layout_ok H" "length bm = nat (bitmap_size H)"
    using assms s that bitmap_room [of H] unfolding num_records_def next_free_page_no_def set_bitmap_def
    by (auto simp: OFFSET_BITMAP_def intro!: get_i32_put_disjoint)
  show "num_records (write_slot H k buf d) = num_records d" "next_free_page_no (write_slot H k buf d) = next_free_page_no d"
    if "layout_ok H" "k < nat (num_records_per_page H)"
    using assms s layout_nat(2,3) [OF that] unfolding num_records_def next_free_page_no_def write_slot_def
    by (auto simp: OFFSET_BITMAP_def intro!: get_i32_put_disjoint)
qed

lemma page_rows_put:
  assumes "length d = PAGE_SIZE" "layout_ok H" "k < nat (num_records_per_page H)" "length buf = nat (record_size H)"
  shows "page_rows H (put_row H k buf d) = (page_rows H d)(k \<mapsto> buf)" "length (put_row H k buf d) = PAGE_SIZE"
    "next_free_page_no (put_row H k buf d) = next_free_page_no d"
    "in_i32 (num_records d + 1) \<Longrightarrow> num_records (put_row H k buf d) = num_records d + 1"
proof -
  have b: "length (bitmap H d) = nat (bitmap_size H)" using assms length_bitmap_of by blast
  show "page_rows H (put_row H k buf d) = (page_rows H d)(k \<mapsto> buf)"
    using assms b layout_nat(1) [OF assms(2,3)]
    by (auto simp: page_rows_def put_row_def Let_def fun_eq_iff is_set_bitmap_set)
  show "length (put_row H k buf d) = PAGE_SIZE" "next_free_page_no (put_row H k buf d) = next_free_page_no d"
    "in_i32 (num_records d + 1) \<Longrightarrow> num_records (put_row H k buf d) = num_records d + 1"
    using assms b by (auto simp: put_row_def Let_def)
qed

lemma page_rows_drop:
  assumes "length d = PAGE_SIZE" "layout_ok H" "k < nat (num_records_per_page H)"
  shows "page_rows H (drop_row H k d) = (page_rows H d)(k := None)" "length (drop_row H k d) = PAGE_SIZE"
    "next_free_page_no (drop_row H k d) = next_free_page_no d"
    "in_i32 (num_records d - 1) \<Longrightarrow> num_records (drop_row H k d) = num_records d - 1"
proof -
  have b: "length (bitmap H d) = nat (bitmap_size H)" using assms length_bitmap_of by blast
  show "page_rows H (drop_row H k d) = (page_rows H d)(k := None)"
    using assms b layout_nat(1) [OF assms(2,3)]
    by (auto simp: page_rows_def drop_row_def Let_def fun_eq_iff is_set_bitmap_reset)
  show "length (drop_row H k d) = PAGE_SIZE" "next_free_page_no (drop_row H k d) = next_free_page_no d"
    "in_i32 (num_records d - 1) \<Longrightarrow> num_records (drop_row H k d) = num_records d - 1"
    using assms b by (auto simp: drop_row_def Let_def)
qed

section \<open>Properties\<close>

text \<open>
  C34. For every record size \<open>create_file\<close> accepts, the header it writes lays a page out without overflow:
  a page holds at least one record, the bitmap has a bit for each slot, every slot ends inside the page
  after the bitmap, and different slots do not overlap.
\<close>

theorem record_page_layout:
  assumes "1 \<le> r" "r \<le> RM_MAX_RECORD_SIZE" "k < nat (num_records_per_page (new_file_hdr r))"
  shows "1 \<le> num_records_per_page (new_file_hdr r) \<and> k div 8 < nat (bitmap_size (new_file_hdr r)) \<and>
    OFFSET_BITMAP + nat (bitmap_size (new_file_hdr r)) \<le> get_slot (new_file_hdr r) k \<and>
    get_slot (new_file_hdr r) k + nat r \<le> PAGE_SIZE \<and>
    (\<forall>j. j \<noteq> k \<longrightarrow> get_slot (new_file_hdr r) j + nat r \<le> get_slot (new_file_hdr r) k \<or>
                 get_slot (new_file_hdr r) k + nat r \<le> get_slot (new_file_hdr r) j)"
proof -
  have H: "layout_ok (new_file_hdr r)" by (rule layout_new_file_hdr [OF assms(1,2)])
  have "record_size (new_file_hdr r) = r" by (simp add: new_file_hdr_def Let_def)
  then show ?thesis using layout_nat [OF H assms(3)] H by (simp add: layout_ok_def)
qed

theorem record_page_layout_witness:
  "1 \<le> num_records_per_page (new_file_hdr 512) \<and> get_slot (new_file_hdr 512) 6 + 512 \<le> PAGE_SIZE"
  using record_page_layout [of 512 6] by (simp add: rm_consts) (simp add: new_file_hdr_def BITMAP_WIDTH_def PAGE_SIZE_def sizeof_RmFileHdr_def)

text \<open>
  C35. Storing a record in a slot of a page and clearing a slot change exactly that row: all
  other slots keep their records, and the stored one reads back byte for byte.
\<close>

theorem page_rows_edit:
  assumes "length d = PAGE_SIZE" and "layout_ok H" and "k < nat (num_records_per_page H)" and "length buf = nat (record_size H)"
  shows "page_rows H (put_row H k buf d) = (page_rows H d)(k \<mapsto> buf) \<and>
    page_rows H (drop_row H k d) = (page_rows H d)(k := None)"
  using page_rows_put(1) [OF assms] page_rows_drop(1) [OF assms(1-3)] by simp

theorem page_rows_edit_witness:
  "page_rows (new_file_hdr 8) (put_row (new_file_hdr 8) 3 [1, 2, 3, 4, 5, 6, 7, 8] (replicate PAGE_SIZE 0)) 3 =
     Some [1, 2, 3, 4, 5, 6, 7, 8]"
  using page_rows_edit [of "replicate PAGE_SIZE 0" "new_file_hdr 8" 3 "[1, 2, 3, 4, 5, 6, 7, 8]"] layout_new_file_hdr [of 8]
  by (simp add: rm_consts) (simp add: new_file_hdr_def BITMAP_WIDTH_def PAGE_SIZE_def sizeof_RmFileHdr_def)

fun scan_steps :: "nat \<Rightarrow> RmScan \<Rightarrow> RmScan" where
  "scan_steps 0 sc = sc"
| "scan_steps (Suc n) sc = scan_steps n (scan_next sc)"

lemma scan_steps_pos:
  "scan_pos sc + n < length (rids sc) \<Longrightarrow> scan_rid sc = rids sc ! scan_pos sc \<Longrightarrow>
   scan_steps n sc = sc\<lparr>scan_pos := scan_pos sc + n, scan_rid := rids sc ! (scan_pos sc + n)\<rparr>"
  by (induction n arbitrary: sc) (simp_all add: scan_next_def)

lemma key_to_rid_memory_key:
  "0 \<le> page_no r \<Longrightarrow> page_no r < 2 ^ 31 \<Longrightarrow> 0 \<le> slot_no r \<Longrightarrow> slot_no r < 2 ^ 31 \<Longrightarrow> key_to_rid (memory_key r) = r"
  by (cases r) (simp add: key_to_rid_def memory_key_def to_i32_def)

text \<open>The record map of a file has one entry per record, under the key of a valid record id.\<close>

definition rids_ok :: "(int \<times> bytes) list \<Rightarrow> bool" where
  "rids_ok rs \<longleftrightarrow> distinct (map fst rs) \<and>
     (\<forall>k \<in> fst ` set rs. memory_key (key_to_rid k) = k \<and> 0 \<le> page_no (key_to_rid k))"

definition sorted_rids :: "(int \<times> bytes) list \<Rightarrow> Rid list" where
  "sorted_rids rs = map (\<lambda>(p, n). Rid p n)
     (sort (map (\<lambda>e. (page_no (key_to_rid (fst e)), slot_no (key_to_rid (fst e)))) rs))"

lemma sorted_rids_props:
  assumes "rids_ok rs"
  shows "length (sorted_rids rs) = length rs" "distinct (sorted_rids rs)"
    "sorted (map (\<lambda>r. (page_no r, slot_no r)) (sorted_rids rs))"
    "set (sorted_rids rs) = key_to_rid ` fst ` set rs" "\<forall>r \<in> set (sorted_rids rs). 0 \<le> page_no r"
proof -
  let ?f = "\<lambda>e. (page_no (key_to_rid (fst e)), slot_no (key_to_rid (fst e)))"
  have R: "(\<lambda>(p, n). Rid p n) (?f e) = key_to_rid (fst e)" for e :: "int \<times> bytes" by (cases "key_to_rid (fst e)") simp
  show "length (sorted_rids rs) = length rs" by (simp add: sorted_rids_def)
  show s: "set (sorted_rids rs) = key_to_rid ` fst ` set rs" by (simp add: sorted_rids_def image_image R)
  show "\<forall>r \<in> set (sorted_rids rs). 0 \<le> page_no r" unfolding s using assms by (auto simp: rids_ok_def)
  show "sorted (map (\<lambda>r. (page_no r, slot_no r)) (sorted_rids rs))"
    by (simp add: sorted_rids_def comp_def split_def)
  have "inj_on key_to_rid (fst ` set rs)" using assms by (metis inj_onI rids_ok_def)
  then have "distinct (map (key_to_rid \<circ> fst) rs)"
    using assms by (simp add: distinct_map rids_ok_def comp_inj_on)
  then have "distinct (map (\<lambda>(p, n). Rid p n) (map ?f rs))" by (simp only: map_map comp_def R)
  then have "distinct (map ?f rs)" unfolding distinct_map by (rule conjunct1)
  then show "distinct (sorted_rids rs)"
    by (auto simp: sorted_rids_def distinct_map inj_on_def)
qed

text \<open>
  C20. A scan ends and visits exactly the records the file had when it was opened, each once and in
  the order of page and slot: it is not at its end before the last one and at its end after it.
\<close>

theorem scan_enumerates:
  assumes "\<not> closed (handles s h)" and "rids_ok (records (state_of h s))" and "new_RmScan h s = (Ret sc, s')"
    and "n = length (records (state_of h s))"
  shows "s' = s \<and> distinct (map (\<lambda>i. scan_rid (scan_steps i sc)) [0 ..< n]) \<and>
    sorted (map (\<lambda>i. (page_no (scan_rid (scan_steps i sc)), slot_no (scan_rid (scan_steps i sc)))) [0 ..< n]) \<and>
    (\<lambda>i. memory_key (scan_rid (scan_steps i sc))) ` {0 ..< n} = dom (map_of (records (state_of h s))) \<and>
    (\<forall>i < n. \<not> scan_is_end (scan_steps i sc)) \<and> scan_is_end (scan_steps n sc)"
proof -
  let ?rs = "records (state_of h s)" and ?r = "sorted_rids (records (state_of h s))"
  note P = sorted_rids_props [OF assms(2)]
  have sc: "sc = \<lparr>rids = ?r, scan_pos = 0, scan_rid = (if ?r = [] then no_rid else hd ?r)\<rparr>" and s': "s' = s"
    using assms(1,3) by (auto simp: new_RmScan_def snapshot_rids_def ensure_open_locked_def bind_op_def sorted_rids_def)
  have n: "n = length ?r" using assms(4) P(1) by simp
  have at: "scan_rid (scan_steps i sc) = ?r ! i" if "i < n" for i
    using that n scan_steps_pos [of sc i] by (auto simp: sc hd_conv_nth)
  then have m: "map (\<lambda>i. scan_rid (scan_steps i sc)) [0 ..< n] = ?r" by (intro nth_equalityI) (use n in auto)
  have fin: "scan_is_end (scan_steps n sc)"
  proof (cases n)
    case 0
    then show ?thesis using n by (simp add: sc scan_is_end_def no_rid_def rm_consts)
  next
    case (Suc k)
    have "scan_steps n sc = scan_next (scan_steps k sc)" unfolding Suc by (induction k arbitrary: sc) simp_all
    moreover have "scan_pos (scan_steps k sc) = k" "rids (scan_steps k sc) = ?r"
      using scan_steps_pos [of sc k] Suc n by (auto simp: sc hd_conv_nth)
    ultimately show ?thesis using n Suc by (simp add: scan_next_def scan_is_end_def no_rid_def)
  qed
  have "(\<lambda>i. memory_key (scan_rid (scan_steps i sc))) ` {0 ..< n} = memory_key ` set ?r"
    unfolding m [symmetric] by (simp add: image_image)
  also have "\<dots> = fst ` set ?rs" using assms(2) by (force simp: P(4) image_image rids_ok_def)
  finally have keys: "(\<lambda>i. memory_key (scan_rid (scan_steps i sc))) ` {0 ..< n} = dom (map_of ?rs)"
    by (simp add: dom_map_of_conv_image_fst)
  have "\<not> scan_is_end (scan_steps i sc)" if "i < n" for i
  proof -
    have "0 \<le> page_no (?r ! i)" using P(5) n that by simp
    then show ?thesis using at [OF that] by (simp add: scan_is_end_def rm_consts)
  qed
  moreover have "map (\<lambda>i. (page_no (scan_rid (scan_steps i sc)), slot_no (scan_rid (scan_steps i sc)))) [0 ..< n] =
      map (\<lambda>r. (page_no r, slot_no r)) ?r"
    by (simp add: m [symmetric] comp_def)
  ultimately show ?thesis using s' m P(2,3) keys fin by simp
qed

definition sample_file :: RmSystem where
  "sample_file = (new_RmSystem sample_pool)
     \<lparr>handles := (\<lambda>_. \<lparr>fh_fd = 3, file_hdr = new_file_hdr 1, file_name = ''t'', closed = False, shared_state = 0\<rparr>),
      states := (\<lambda>_. new_SharedRecordState\<lparr>records := [(memory_key (Rid 2 0), [9]), (memory_key (Rid 1 4), [7])]\<rparr>)\<rparr>"

theorem scan_enumerates_witness:
  "\<exists>sc. new_RmScan 0 sample_file = (Ret sc, sample_file) \<and> scan_is_end (scan_steps 2 sc) \<and>
     (\<lambda>i. memory_key (scan_rid (scan_steps i sc))) ` {0 ..< 2} = {memory_key (Rid 2 0), memory_key (Rid 1 4)}"
proof -
  have r: "rids_ok (records (state_of 0 sample_file))"
    by (simp add: sample_file_def rids_ok_def memory_key_def key_to_rid_def to_i32_def)
  have o: "\<not> closed (handles sample_file 0)" by (simp add: sample_file_def)
  obtain sc where sc: "new_RmScan 0 sample_file = (Ret sc, sample_file)"
    using o by (simp add: new_RmScan_def snapshot_rids_def ensure_open_locked_def bind_op_def)
  have n: "2 = length (records (state_of 0 sample_file))" by (simp add: sample_file_def)
  have d: "dom (map_of (records (state_of 0 sample_file))) = {memory_key (Rid 2 0), memory_key (Rid 1 4)}"
    by (auto simp: sample_file_def)
  from scan_enumerates [OF o r sc n] sc d show ?thesis by auto
qed

end
