(* ===== verification/Table_Rows.thy ===== *)
theory Table_Rows
  imports Record_File
begin

text \<open>
  A record file as the map from row ids to rows that its clients see. Every operation of \<^verbatim>\<open>RmFileHandle\<close> is
  specified on it: reads return what the map holds, a successful insertion, update or deletion changes one row, and an
  operation that throws changes none. The pages, the free list and the buffer pool stay below this view.
\<close>

section \<open>The rows\<close>

definition row :: "RmSystem \<Rightarrow> nat \<Rightarrow> Rid \<Rightarrow> bytes option" where
  "row s h rid = map_of (records (state_of h s)) (memory_key rid)"

definition row_size :: "RmSystem \<Rightarrow> nat \<Rightarrow> nat" where
  "row_size s h = nat (record_size (ss_file_hdr (state_of h s)))"

text \<open>Two handles are handles of one file when they share its state.\<close>

definition same_file :: "RmSystem \<Rightarrow> nat \<Rightarrow> nat \<Rightarrow> bool" where
  "same_file s h h' \<longleftrightarrow> shared_state (handles s h) = shared_state (handles s h')"

text \<open>Nothing of a handle but its header changes.\<close>

definition same_handles :: "RmSystem \<Rightarrow> RmSystem \<Rightarrow> bool" where
  "same_handles s s' \<longleftrightarrow>
     (\<forall>h. shared_state (handles s' h) = shared_state (handles s h) \<and> closed (handles s' h) = closed (handles s h) \<and>
          fd_of h s' = fd_of h s)"

text \<open>A step of an operation: pages and headers may change, rows and record sizes do not.\<close>

definition quiet :: "RmSystem \<Rightarrow> RmSystem \<Rightarrow> bool" where
  "quiet s s' \<longleftrightarrow> states s' = states s \<and> same_handles s s' \<and> (\<forall>h. record_size (hdr_of h s') = record_size (hdr_of h s))"

text \<open>The rows of the file of \<open>h\<close> become \<open>f\<close> of the old ones.\<close>

definition edits :: "nat \<Rightarrow> ((int \<times> bytes) list \<Rightarrow> (int \<times> bytes) list) \<Rightarrow> RmSystem \<Rightarrow> RmSystem \<Rightarrow> bool" where
  "edits h f s s' \<longleftrightarrow> same_handles s s' \<and>
     (\<exists>fhdr. record_size fhdr = record_size (ss_file_hdr (state_of h s)) \<and>
        states s' = (states s)(shared_state (handles s h) :=
                      (state_of h s)\<lparr>records := f (records (state_of h s)), ss_file_hdr := fhdr\<rparr>))"

lemma same_handles_refl [simp]: "same_handles s s"
  by (simp add: same_handles_def)

lemma same_handles_trans: "same_handles s t \<Longrightarrow> same_handles t u \<Longrightarrow> same_handles s u"
  by (simp add: same_handles_def)

lemma quiet_refl [simp, intro]: "quiet s s"
  by (simp add: quiet_def)

lemma quiet_trans: "quiet s t \<Longrightarrow> quiet t u \<Longrightarrow> quiet s u"
  by (auto simp: quiet_def intro: same_handles_trans)

lemma quiet_edits: "quiet s t \<Longrightarrow> edits h f t u \<Longrightarrow> edits h f s u"
  by (auto simp: quiet_def edits_def same_handles_def)

lemma edits_quiet: "edits h f s t \<Longrightarrow> quiet t u \<Longrightarrow> edits h f s u"
  by (auto simp: quiet_def edits_def intro: same_handles_trans)

lemma edits_same_handles: "edits h f s t \<Longrightarrow> same_handles s t"
  by (simp add: edits_def)

lemma edits_row:
  assumes "edits h f s s'"
  shows "row s' h' rid = (if same_file s h' h then map_of (f (records (state_of h s))) (memory_key rid) else row s h' rid)"
    and "row_size s' h' = row_size s h'"
  using assms by (auto simp: edits_def same_handles_def row_def row_size_def same_file_def)

lemma quiet_row: "quiet s s' \<Longrightarrow> row s' h rid = row s h rid" "quiet s s' \<Longrightarrow> row_size s' h = row_size s h"
  by (simp_all add: quiet_def same_handles_def row_def row_size_def)

lemma same_handles_file:
  "same_handles s s' \<Longrightarrow> same_file s' h h' = same_file s h h'" "same_handles s s' \<Longrightarrow> fd_of h s' = fd_of h s"
  by (simp_all add: same_handles_def same_file_def)

section \<open>Quiet steps\<close>

lemma quiet_upd_bpm [simp]: "quiet s (upd_bpm f s)"
  by (simp add: quiet_def same_handles_def upd_bpm_def)

lemma quiet_frames [simp]: "quiet s (upd_page f g s)" "quiet s (unpin_frame f b s)"
  by (simp_all add: upd_page_def unpin_frame_def)

lemma quiet_done_dirty [simp]: "quiet s (done_dirty f s)"
  unfolding done_dirty_def by (rule quiet_trans [OF quiet_upd_bpm quiet_frames(2)])

lemma quiet_pool: "pool c s = (r, s') \<Longrightarrow> quiet s s'"
  by (auto simp: pool_def quiet_def same_handles_def split: prod.splits)

lemma quiet_upd_hdr: "record_size (f (hdr_of h s)) = record_size (hdr_of h s) \<Longrightarrow> quiet s (upd_hdr h f s)"
  by (simp add: quiet_def same_handles_def upd_hdr_def)

lemma quiet_fetch: "fetch_page_handle_unlocked h pno s = (r, s') \<Longrightarrow> quiet s s'"
  by (auto simp: fetch_page_handle_unlocked_def split: if_splits prod.splits sum.splits option.splits dest: quiet_pool)

lemma quiet_create_new: "create_new_page_handle_unlocked h s = (r, s') \<Longrightarrow> quiet s s'"
  unfolding create_new_page_handle_unlocked_def Let_def
  by (auto split: prod.splits sum.splits option.splits dest!: quiet_pool
      intro!: quiet_trans [OF _ quiet_upd_hdr] quiet_trans [OF _ quiet_frames(1)] quiet_trans [OF _ quiet_upd_bpm])

lemma quiet_create: "create_page_handle h s = (r, s') \<Longrightarrow> quiet s s'"
  by (auto simp: create_page_handle_def split: if_splits dest: quiet_create_new quiet_fetch)

lemma quiet_release: "quiet s (release_page_handle h f s)"
  unfolding release_page_handle_def Let_def by (rule quiet_trans [OF quiet_frames(1) quiet_upd_hdr]) simp

lemma quiet_unlink: "unlink_free_page fuel h pno next_free prev s = (r, s') \<Longrightarrow> quiet s s'"
proof (induction fuel arbitrary: prev s)
  case 0
  then show ?case by (auto simp: unlink_free_page.simps split: if_splits)
next
  case (Suc n)
  obtain r1 s1 where f: "fetch_page_handle_unlocked h prev s = (r1, s1)" by (rule prod.exhaust)
  note q = quiet_fetch [OF f]
  show ?case
    using Suc f q by (auto simp: unlink_free_page.simps [of "Suc n"] Let_def split: if_splits sum.splits
        intro: quiet_trans [OF _ quiet_done_dirty] quiet_trans [OF _ quiet_frames(1)] quiet_trans [OF _ quiet_frames(2)]
        dest!: Suc.IH quiet_trans [OF quiet_frames(2)] dest: quiet_trans)
qed

lemma quiet_remove_free: "remove_page_from_free_list h f s = (r, s') \<Longrightarrow> quiet s s'"
  unfolding remove_page_from_free_list_def Let_def
  by (auto simp: bind_op_def split: if_splits prod.splits sum.splits dest: quiet_unlink
      intro!: quiet_trans [OF _ quiet_frames(1)] intro: quiet_upd_hdr)

section \<open>Operations\<close>

text \<open>The state after an operation has taken over the published header.\<close>

definition begun :: "nat \<Rightarrow> RmSystem \<Rightarrow> RmSystem \<Rightarrow> bool" where
  "begun h s t \<longleftrightarrow> states t = states s \<and> same_handles s t \<and> record_size (hdr_of h t) = record_size (ss_file_hdr (state_of h s))"

lemma start_op_cases:
  assumes "start_op h s = (r, s1)"
  obtains (closed) e where "r = Throw e" "s1 = s" | (opened) "r = Ret ()" "begun h s s1" "\<not> closed (handles s h)"
  using assms that by (auto simp: start_op_def ensure_open_locked_def bind_op_def begun_def same_handles_def upd_hdr_def split: if_splits)

lemma begun_quiet: "begun h s t \<Longrightarrow> quiet t u \<Longrightarrow> begun h s u"
  by (auto simp: begun_def quiet_def intro: same_handles_trans)

lemma begun_rows: "begun h s t \<Longrightarrow> row t h' rid = row s h' rid" "begun h s t \<Longrightarrow> row_size t h' = row_size s h'"
    "begun h s t \<Longrightarrow> same_handles s t" "begun h s t \<Longrightarrow> nat (record_size (hdr_of h t)) = row_size s h"
  by (simp_all add: begun_def same_handles_def row_def row_size_def)

lemma publish_edits:
  assumes "begun h s t"
  shows "edits h f s (upd_state h (\<lambda>st. st\<lparr>records := f (records st), ss_file_hdr := hdr_of h t\<rparr>) t)"
  using assms by (auto simp: begun_def edits_def same_handles_def upd_state_def intro!: exI [of _ "hdr_of h t"])

text \<open>A failed operation leaves every row as it is.\<close>

definition no_edit :: "RmSystem \<Rightarrow> RmSystem \<Rightarrow> bool" where
  "no_edit s s' \<longleftrightarrow> same_handles s s' \<and> (\<forall>h rid. row s' h rid = row s h rid) \<and> (\<forall>h. row_size s' h = row_size s h)"

lemma no_edit_refl [simp]: "no_edit s s"
  by (simp add: no_edit_def)

lemma no_edit_trans: "no_edit s t \<Longrightarrow> no_edit t u \<Longrightarrow> no_edit s u"
  by (auto simp: no_edit_def intro: same_handles_trans)

lemma begun_no_edit: "begun h s t \<Longrightarrow> no_edit s t"
  by (simp add: no_edit_def begun_rows)

lemma quiet_no_edit: "quiet s t \<Longrightarrow> no_edit s t"
  by (simp add: no_edit_def quiet_row quiet_def)

lemma is_record_rows: "is_record h rid s = (r, s') \<Longrightarrow> s' = s \<and> (\<forall>b. r = Ret b \<longrightarrow> b = (row s h rid \<noteq> None))"
  by (auto simp: is_record_def ensure_open_locked_def bind_op_def row_def split: if_splits)

lemma get_record_rows: "get_record h rid s = (r, s') \<Longrightarrow> s' = s \<and> (\<forall>x. r = Ret x \<longrightarrow> row s h rid = Some x)"
  by (auto simp: get_record_def ensure_open_locked_def bind_op_def row_def split: if_splits option.splits)

lemma GetFd_rows: "GetFd h s = (r, s') \<Longrightarrow> s' = s \<and> (\<forall>x. r = Ret x \<longrightarrow> x = fd_of h s)"
  by (auto simp: GetFd_def ensure_open_locked_def bind_op_def split: if_splits)

text \<open>The change of one row, as seen through every handle.\<close>

definition sets_row :: "nat \<Rightarrow> Rid \<Rightarrow> bytes option \<Rightarrow> RmSystem \<Rightarrow> RmSystem \<Rightarrow> bool" where
  "sets_row h rid v s s' \<longleftrightarrow> same_handles s s' \<and> (\<forall>h. row_size s' h = row_size s h) \<and>
     (\<forall>h' rid'. row s' h' rid' = (if same_file s h' h \<and> memory_key rid' = memory_key rid then v else row s h' rid'))"

lemma edits_update: "edits h (AList.update (memory_key rid) x) s s' \<Longrightarrow> sets_row h rid (Some x) s s'"
  by (simp add: sets_row_def edits_row edits_same_handles update_conv') (auto simp: row_def same_file_def)

lemma edits_delete: "edits h (AList.delete (memory_key rid)) s s' \<Longrightarrow> sets_row h rid None s s'"
  by (simp add: sets_row_def edits_row edits_same_handles delete_conv') (auto simp: row_def same_file_def)

lemma store_record_rows:
  assumes "store_record h f pno slot buf t = (r, s')" and b: "begun h s t"
  shows "case r of Inl _ \<Rightarrow> no_edit s s' | Inr _ \<Rightarrow> sets_row h (Rid pno (int slot)) (Some (take (row_size s h) buf)) s s'"
proof -
  let ?t1 = "upd_page f (put_row (hdr_of h t) slot buf) t"
  obtain r2 t2 where c: "(if num_records (page_bytes f ?t1) = num_records_per_page (hdr_of h ?t1)
      then remove_page_from_free_list h f ?t1 else (Ret (), ?t1)) = (r2, t2)" by (rule prod.exhaust)
  have "quiet ?t1 t2" using c by (auto split: if_splits dest: quiet_remove_free)
  then have b2: "begun h s t2" using begun_quiet [OF begun_quiet [OF b quiet_frames(1)]] by blast
  show ?thesis
  proof (cases r2)
    case (Inl e)
    then show ?thesis using assms(1) c begun_no_edit [OF b2] by (auto simp: store_record_def bind_op_def)
  next
    case (Inr u)
    let ?x = "take (nat (record_size (hdr_of h t2))) buf"
    have "edits h (AList.update (memory_key (Rid pno (int slot))) ?x) s
        (done_dirty f (upd_state h (\<lambda>st. st\<lparr>records := AList.update (memory_key (Rid pno (int slot))) ?x (records st),
           ss_file_hdr := hdr_of h t2\<rparr>) t2))"
      by (rule edits_quiet [OF publish_edits [OF b2] quiet_done_dirty])
    moreover have "r = Ret ()" "s' = done_dirty f (upd_state h (\<lambda>st. st\<lparr>records :=
        AList.update (memory_key (Rid pno (int slot))) ?x (records st), ss_file_hdr := hdr_of h t2\<rparr>) t2)"
      using assms(1) c Inr by (auto simp: store_record_def bind_op_def)
    ultimately show ?thesis using begun_rows(4) [OF b2] edits_update by simp
  qed
qed

text \<open>The shape of the operations on one row: start, fetch its page, and go on with the pinned page.\<close>

lemma fetched_cases:
  assumes "bind_op (start_op h) (\<lambda>_. bind_op (fetch_page_handle_unlocked h pno) k) s = (r, s')"
  obtains (failed) e where "r = Throw e" "no_edit s s'"
    | (fetched) f t where "begun h s t" "k f t = (r, s')"
  using assms
  by (elim bind_op_cases start_op_cases)
    (auto dest!: quiet_fetch intro: that begun_no_edit begun_quiet)

lemma unpinned_no_edit: "begun h s t \<Longrightarrow> no_edit s (unpin_frame f b t)"
  by (rule begun_no_edit [OF begun_quiet [OF _ quiet_frames(2)]])

lemma insert_record_at_rows:
  assumes "insert_record_at h rid buf s = (r, s')"
  shows "case r of Inl _ \<Rightarrow> no_edit s s' | Inr _ \<Rightarrow> sets_row h rid (Some (take (row_size s h) buf)) s s'"
  using assms unfolding insert_record_at_def
proof (cases rule: fetched_cases)
  case (fetched f t)
  have rid: "\<not> slot_no rid < 0 \<Longrightarrow> Rid (page_no rid) (int (nat (slot_no rid))) = rid" by (cases rid) simp
  show ?thesis
    using fetched rid store_record_rows [of h f "page_no rid" "nat (slot_no rid)" buf t r s' s] unpinned_no_edit [OF fetched(1)]
    by (cases r) (auto split: if_splits)
qed simp

lemma insert_record_rows:
  assumes "insert_record h buf s = (r, s')"
  shows "case r of Inl _ \<Rightarrow> no_edit s s' | Inr rid \<Rightarrow> sets_row h rid (Some (take (row_size s h) buf)) s s'"
  using assms unfolding insert_record_def
proof (cases rule: bind_op_cases)
  case (fails e)
  from fails(1) show ?thesis by (cases rule: start_op_cases) (simp_all add: fails(2))
next
  case (goes x s1)
  from goes(1) have b: "begun h s s1" by (cases rule: start_op_cases) simp_all
  show ?thesis using goes(2)
  proof (cases rule: bind_op_cases)
    case (fails e)
    then show ?thesis using begun_no_edit [OF begun_quiet [OF b quiet_create [OF fails(1)]]] by simp
  next
    case (goes f t)
    have t: "begun h s t" using begun_quiet [OF b quiet_create [OF goes(1)]] .
    show ?thesis using goes(2) unfolding Let_def
    proof (cases rule: bind_op_cases)
      case (fails e)
      then show ?thesis using store_record_rows [OF fails(1) t] by simp
    next
      case (goes u v)
      then show ?thesis using store_record_rows [OF goes(1) t] by auto
    qed
  qed
qed

lemma delete_record_rows:
  assumes "delete_record h rid s = (r, s')"
  shows "case r of Inl _ \<Rightarrow> no_edit s s' | Inr _ \<Rightarrow> sets_row h rid None s s'"
  using assms unfolding delete_record_def
proof (cases rule: fetched_cases)
  case (fetched f t)
  let ?t1 = "upd_page f (drop_row (hdr_of h t) (nat (slot_no rid))) t"
  let ?t2 = "if num_records (page_bytes f ?t1) = num_records_per_page (hdr_of h ?t1) - 1 then release_page_handle h f ?t1 else ?t1"
  have "quiet t ?t2" by (auto intro: quiet_trans [OF quiet_frames(1) quiet_release])
  then have b: "begun h s ?t2" by (rule begun_quiet [OF fetched(1)])
  show ?thesis
    using fetched(2) edits_delete [OF edits_quiet [OF publish_edits [OF b] quiet_done_dirty]] unpinned_no_edit [OF fetched(1)]
    by (auto simp: Let_def split: if_splits)
qed simp

lemma update_record_rows:
  assumes "update_record h rid buf s = (r, s')"
  shows "case r of Inl _ \<Rightarrow> no_edit s s' | Inr _ \<Rightarrow>
    sets_row h rid (Some (take (case row s h rid of None \<Rightarrow> row_size s h | Some old \<Rightarrow> length old) buf)) s s'"
  using assms unfolding update_record_def
proof (cases rule: fetched_cases)
  case (fetched f t)
  let ?t1 = "upd_page f (write_slot (hdr_of h t) (nat (slot_no rid)) buf) t"
  let ?n = "case row s h rid of None \<Rightarrow> row_size s h | Some old \<Rightarrow> length old"
  have b: "begun h s ?t1" by (rule begun_quiet [OF fetched(1) quiet_frames(1)])
  have same: "state_of h ?t1 = state_of h s" using b by (simp add: begun_def same_handles_def)
  have "upd_state h (\<lambda>st. st\<lparr>records := (case map_of (records st) (memory_key rid) of
            Some old \<Rightarrow> AList.update (memory_key rid) (take (length old) buf) (records st)
          | None \<Rightarrow> AList.update (memory_key rid) (take (nat (record_size (hdr_of h ?t1))) buf) (records st)),
          ss_file_hdr := hdr_of h ?t1\<rparr>) ?t1 =
        upd_state h (\<lambda>st. st\<lparr>records := AList.update (memory_key rid) (take ?n buf) (records st), ss_file_hdr := hdr_of h ?t1\<rparr>) ?t1"
    using begun_rows(4) [OF b] same by (simp add: upd_state_def row_def split: option.split)
  then show ?thesis
    using fetched(2) edits_update [OF edits_quiet [OF publish_edits [OF b] quiet_done_dirty], of rid "take ?n buf"] unpinned_no_edit [OF fetched(1)]
    by (auto simp: Let_def split: if_splits)
qed simp

lemma set_page_lsn_rows:
  assumes "rm_set_page_lsn h rid lsn s = (r, s')"
  shows "no_edit s s'"
proof (cases "lsn = INVALID_LSN")
  case False
  then have "bind_op (start_op h) (\<lambda>_. bind_op (fetch_page_handle_unlocked h (page_no rid)) (\<lambda>f.
      modify (\<lambda>s. done_dirty f (upd_page f (\<lambda>d. set_page_lsn d lsn) s)))) s = (r, s')"
    using assms by (simp add: rm_set_page_lsn_def)
  then show ?thesis
  proof (cases rule: fetched_cases)
    case (fetched f t)
    then show ?thesis
      using begun_no_edit [OF begun_quiet [OF fetched(1) quiet_trans [OF quiet_frames(1) quiet_done_dirty]]] by auto
  qed simp
qed (use assms in \<open>simp add: rm_set_page_lsn_def\<close>)

end
