(* ===== verification/Index_Node.thy ===== *)
theory Index_Node
  imports Conditions
begin

text \<open>
  The nodes of the B+ tree index: \<^verbatim>\<open>src/src/index/ix_defs.h\<close> and the class \<^verbatim>\<open>IxNodeHandle\<close> of
  \<^verbatim>\<open>ix_index_handle.{h,cpp}\<close>. A node is the bytes of a page: a header of 24 bytes, the keys, the record ids.
  A failed assertion is \<open>AssertionFailure\<close>.

  The lemmas read a node as the list of its entries. Over the contract of a key order (locale \<open>key_order\<close>)
  the binary searches, insertion and removal are those of a sorted association list; \<open>ix_compare\<close>
  meets the contract on keys without NaN.
\<close>

section \<open>ix\_defs.h\<close>

definition IX_NO_PAGE :: int where "IX_NO_PAGE = -1"
definition IX_FILE_HDR_PAGE :: int where "IX_FILE_HDR_PAGE = 0"
definition IX_LEAF_HEADER_PAGE :: int where "IX_LEAF_HEADER_PAGE = 1"
definition IX_INIT_ROOT_PAGE :: int where "IX_INIT_ROOT_PAGE = 2"
definition IX_INIT_NUM_PAGES :: int where "IX_INIT_NUM_PAGES = 3"
definition IX_MAX_COL_LEN :: int where "IX_MAX_COL_LEN = 512"

record IxFileHdr =
  first_free_page :: int
  ix_num_pages :: int
  root_page :: int
  ix_col_num :: int
  col_types :: "ColType list"
  col_lens :: "int list"
  key_len :: int
  btree_order :: int
  keys_size :: int
  first_leaf :: int
  last_leaf :: int
  tot_len :: int

definition new_IxFileHdr :: "int \<Rightarrow> int \<Rightarrow> int \<Rightarrow> int \<Rightarrow> int \<Rightarrow> int \<Rightarrow> int \<Rightarrow> int \<Rightarrow> int \<Rightarrow> IxFileHdr" where
  "new_IxFileHdr ff np root cn ctl order ks fl ll =
     \<lparr>first_free_page = ff, ix_num_pages = np, root_page = root, ix_col_num = cn, col_types = [], col_lens = [],
      key_len = ctl, btree_order = order, keys_size = ks, first_leaf = fl, last_leaf = ll, tot_len = 0\<rparr>"

definition update_tot_len :: "IxFileHdr \<Rightarrow> IxFileHdr" where
  "update_tot_len h = h\<lparr>tot_len := 4 * 4 + 4 * 6 + 4 * ix_col_num h + 4 * ix_col_num h\<rparr>"

definition IxFileHdr_serialize :: "IxFileHdr \<Rightarrow> bytes result" where
  "IxFileHdr_serialize h =
     (let b = le_bytes 4 (tot_len h) @ le_bytes 4 (first_free_page h) @ le_bytes 4 (ix_num_pages h) @
              le_bytes 4 (root_page h) @ le_bytes 4 (ix_col_num h) @
              concat (map (\<lambda>i. le_bytes 4 (coltype_code (col_types h ! i))) [0 ..< nat (ix_col_num h)]) @
              concat (map (\<lambda>i. le_bytes 4 (col_lens h ! i)) [0 ..< nat (ix_col_num h)]) @
              le_bytes 4 (key_len h) @ le_bytes 4 (btree_order h) @ le_bytes 4 (keys_size h) @
              le_bytes 4 (first_leaf h) @ le_bytes 4 (last_leaf h)
      in if int (length b) = tot_len h then Ret b else Throw AssertionFailure)"

definition coltype_of :: "int \<Rightarrow> ColType" where
  "coltype_of n = (if n = 0 then TYPE_INT else if n = 1 then TYPE_FLOAT else TYPE_STRING)"

definition IxFileHdr_deserialize :: "bytes \<Rightarrow> IxFileHdr result" where
  "IxFileHdr_deserialize src =
     (let n = get_i32 src 16; m = nat n; off = 20 + 8 * m in
      if int (off + 20) \<noteq> get_i32 src 0 then Throw AssertionFailure
      else Ret \<lparr>first_free_page = get_i32 src 4, ix_num_pages = get_i32 src 8, root_page = get_i32 src 12, ix_col_num = n,
                col_types = map (\<lambda>i. coltype_of (get_i32 src (20 + 4 * i))) [0 ..< m],
                col_lens = map (\<lambda>i. get_i32 src (20 + 4 * m + 4 * i)) [0 ..< m],
                key_len = get_i32 src off, btree_order = get_i32 src (off + 4), keys_size = get_i32 src (off + 8),
                first_leaf = get_i32 src (off + 12), last_leaf = get_i32 src (off + 16), tot_len = get_i32 src 0\<rparr>)"

datatype Iid = Iid (iid_page: int) (iid_slot: int)

section \<open>Comparing keys\<close>

definition memcmp :: "bytes \<Rightarrow> bytes \<Rightarrow> nat \<Rightarrow> int" where
  "memcmp a b n = (if take n a < take n b then -1 else if take n b < take n a then 1 else 0)"

fun ix_compare_col :: "bytes \<Rightarrow> bytes \<Rightarrow> ColType \<Rightarrow> nat \<Rightarrow> int" where
  "ix_compare_col a b TYPE_INT n = (if get_i32 a 0 < get_i32 b 0 then -1 else if get_i32 a 0 > get_i32 b 0 then 1 else 0)"
| "ix_compare_col a b TYPE_FLOAT n =
     (if float_lt (read_float a 0) (read_float b 0) then -1 else if float_lt (read_float b 0) (read_float a 0) then 1 else 0)"
| "ix_compare_col a b TYPE_STRING n = memcmp a b n"

fun ix_compare :: "bytes \<Rightarrow> bytes \<Rightarrow> ColType list \<Rightarrow> int list \<Rightarrow> int" where
  "ix_compare a b (t # ts) (n # ns) =
     (let res = ix_compare_col a b t (nat n) in
      if res \<noteq> 0 then res else ix_compare (drop (nat n) a) (drop (nat n) b) ts ns)"
| "ix_compare a b _ _ = 0"

abbreviation hcompare :: "IxFileHdr \<Rightarrow> bytes \<Rightarrow> bytes \<Rightarrow> int" where
  "hcompare H a b \<equiv> ix_compare a b (col_types H) (col_lens H)"

section \<open>Nodes\<close>

definition sizeof_IxPageHdr :: nat where "sizeof_IxPageHdr = 24"

definition get_size :: "bytes \<Rightarrow> int" where "get_size d = get_i32 d 8"
definition set_size :: "int \<Rightarrow> bytes \<Rightarrow> bytes" where "set_size n d = put_i32 d 8 n"
definition get_parent_page_no :: "bytes \<Rightarrow> int" where "get_parent_page_no d = get_i32 d 4"
definition set_parent_page_no :: "int \<Rightarrow> bytes \<Rightarrow> bytes" where "set_parent_page_no p d = put_i32 d 4 p"
definition is_leaf_page :: "bytes \<Rightarrow> bool" where "is_leaf_page d \<longleftrightarrow> d ! 12 \<noteq> 0"
definition get_prev_leaf :: "bytes \<Rightarrow> int" where "get_prev_leaf d = get_i32 d 16"
definition set_prev_leaf :: "int \<Rightarrow> bytes \<Rightarrow> bytes" where "set_prev_leaf p d = put_i32 d 16 p"
definition get_next_leaf :: "bytes \<Rightarrow> int" where "get_next_leaf d = get_i32 d 20"
definition set_next_leaf :: "int \<Rightarrow> bytes \<Rightarrow> bytes" where "set_next_leaf p d = put_i32 d 20 p"
definition is_root_page :: "bytes \<Rightarrow> bool" where "is_root_page d \<longleftrightarrow> get_parent_page_no d = INVALID_PAGE_ID"

definition init_node :: "int \<Rightarrow> bool \<Rightarrow> int \<Rightarrow> int \<Rightarrow> bytes \<Rightarrow> bytes" where
  "init_node parent leaf prev nxt d =
     set_next_leaf nxt (set_prev_leaf prev (put_bytes (set_size 0 (set_parent_page_no parent (put_i32 d 0 IX_NO_PAGE))) 12
       [if leaf then 1 else 0]))"

definition get_max_size :: "IxFileHdr \<Rightarrow> int" where "get_max_size H = btree_order H + 1"
definition get_min_size :: "IxFileHdr \<Rightarrow> int" where "get_min_size H = get_max_size H div 2"

definition key_off :: "IxFileHdr \<Rightarrow> nat \<Rightarrow> nat" where "key_off H i = sizeof_IxPageHdr + i * nat (key_len H)"
definition rid_off :: "IxFileHdr \<Rightarrow> nat \<Rightarrow> nat" where "rid_off H i = sizeof_IxPageHdr + nat (keys_size H) + i * 8"

definition get_key :: "IxFileHdr \<Rightarrow> nat \<Rightarrow> bytes \<Rightarrow> bytes" where
  "get_key H i d = get_bytes d (key_off H i) (nat (key_len H))"

definition set_key :: "IxFileHdr \<Rightarrow> nat \<Rightarrow> bytes \<Rightarrow> bytes \<Rightarrow> bytes" where
  "set_key H i key d = put_bytes d (key_off H i) (take (nat (key_len H)) key)"

definition rid_to_bytes :: "Rid \<Rightarrow> bytes" where
  "rid_to_bytes r = le_bytes 4 (page_no r) @ le_bytes 4 (slot_no r)"

definition get_rid :: "IxFileHdr \<Rightarrow> nat \<Rightarrow> bytes \<Rightarrow> Rid" where
  "get_rid H i d = Rid (get_i32 d (rid_off H i)) (get_i32 d (rid_off H i + 4))"

definition set_rid :: "IxFileHdr \<Rightarrow> nat \<Rightarrow> Rid \<Rightarrow> bytes \<Rightarrow> bytes" where
  "set_rid H i rid d = put_bytes d (rid_off H i) (rid_to_bytes rid)"

definition key_at :: "IxFileHdr \<Rightarrow> nat \<Rightarrow> bytes \<Rightarrow> int" where
  "key_at H i d = get_i32 (get_key H i d) 0"

definition value_at :: "IxFileHdr \<Rightarrow> nat \<Rightarrow> bytes \<Rightarrow> int" where
  "value_at H i d = page_no (get_rid H i d)"

subsection \<open>Searching\<close>

function bound_search :: "(int \<Rightarrow> bool) \<Rightarrow> IxFileHdr \<Rightarrow> bytes \<Rightarrow> bytes \<Rightarrow> int \<Rightarrow> int \<Rightarrow> int" where
  "bound_search before H d target left right =
     (if left < right then
        let mid = (left + right) div 2 in
        if before (hcompare H (get_key H (nat mid) d) target)
        then bound_search before H d target (mid + 1) right
        else bound_search before H d target left mid
      else left)"
  by auto
termination by (relation "measure (\<lambda>(_, _, _, _, l, r). nat (r - l))") (auto simp: Let_def)

declare bound_search.simps [simp del]

definition lower_bound :: "IxFileHdr \<Rightarrow> bytes \<Rightarrow> bytes \<Rightarrow> int" where
  "lower_bound H d target = bound_search (\<lambda>c. c < 0) H d target 0 (get_size d)"

definition upper_bound :: "IxFileHdr \<Rightarrow> bytes \<Rightarrow> bytes \<Rightarrow> int" where
  "upper_bound H d target = bound_search (\<lambda>c. c \<le> 0) H d target (if is_leaf_page d then 0 else 1) (get_size d)"

definition leaf_lookup :: "IxFileHdr \<Rightarrow> bytes \<Rightarrow> bytes \<Rightarrow> Rid option" where
  "leaf_lookup H d key =
     (let pos = lower_bound H d key in
      if pos < get_size d \<and> hcompare H (get_key H (nat pos) d) key = 0 then Some (get_rid H (nat pos) d) else None)"

definition internal_lookup :: "IxFileHdr \<Rightarrow> bytes \<Rightarrow> bytes \<Rightarrow> int result" where
  "internal_lookup H d key =
     (if is_leaf_page d then Throw AssertionFailure
      else if get_size d = 0 then Ret IX_NO_PAGE
      else let child_idx = upper_bound H d key - 1 in
        Ret (value_at H (nat (if child_idx < 0 then 0 else child_idx)) d))"

definition find_child :: "IxFileHdr \<Rightarrow> bytes \<Rightarrow> int \<Rightarrow> nat result" where
  "find_child H d child_page =
     (case find (\<lambda>i. page_no (get_rid H i d) = child_page) [0 ..< nat (get_size d)] of
        Some i \<Rightarrow> Ret i
      | None \<Rightarrow> Throw AssertionFailure)"

subsection \<open>Editing\<close>

text \<open>\<open>n\<close> consecutive keys and record ids, given as their bytes.\<close>

definition insert_pairs :: "IxFileHdr \<Rightarrow> int \<Rightarrow> bytes \<Rightarrow> bytes \<Rightarrow> int \<Rightarrow> bytes \<Rightarrow> bytes result" where
  "insert_pairs H pos keys rids n d =
     (if \<not> (0 \<le> pos \<and> pos \<le> get_size d) \<or> \<not> (0 \<le> n \<and> get_size d + n \<le> get_max_size H) then Throw AssertionFailure
      else
        let p = nat pos; k = nat n; tail = nat (get_size d - pos); kl = nat (key_len H);
            d0 = (if tail > 0 then put_bytes d (key_off H (p + k)) (get_bytes d (key_off H p) (tail * kl)) else d);
            d1 = (if tail > 0 then put_bytes d0 (rid_off H (p + k)) (get_bytes d0 (rid_off H p) (tail * 8)) else d0);
            d2 = put_bytes d1 (key_off H p) (take (k * kl) keys);
            d3 = put_bytes d2 (rid_off H p) (take (k * 8) rids)
        in Ret (set_size (get_size d3 + n) d3))"

definition insert_pair :: "IxFileHdr \<Rightarrow> int \<Rightarrow> bytes \<Rightarrow> Rid \<Rightarrow> bytes \<Rightarrow> bytes result" where
  "insert_pair H pos key rid d = insert_pairs H pos key (rid_to_bytes rid) 1 d"

definition node_insert :: "IxFileHdr \<Rightarrow> bytes \<Rightarrow> Rid \<Rightarrow> bytes \<Rightarrow> bytes result" where
  "node_insert H key value d =
     (let pos = lower_bound H d key in
      if pos < get_size d \<and> hcompare H (get_key H (nat pos) d) key = 0 then Ret d else insert_pair H pos key value d)"

definition erase_pair :: "IxFileHdr \<Rightarrow> int \<Rightarrow> bytes \<Rightarrow> bytes result" where
  "erase_pair H pos d =
     (if \<not> (0 \<le> pos \<and> pos < get_size d) then Throw AssertionFailure
      else
        let p = nat pos; tail = nat (get_size d - pos - 1); kl = nat (key_len H);
            d0 = (if tail > 0 then put_bytes d (key_off H p) (get_bytes d (key_off H (p + 1)) (tail * kl)) else d);
            d1 = (if tail > 0 then put_bytes d0 (rid_off H p) (get_bytes d0 (rid_off H (p + 1)) (tail * 8)) else d0)
        in Ret (set_size (get_size d1 - 1) d1))"

definition node_remove :: "IxFileHdr \<Rightarrow> bytes \<Rightarrow> bytes \<Rightarrow> bytes result" where
  "node_remove H key d =
     (let pos = lower_bound H d key in
      if pos < get_size d \<and> hcompare H (get_key H (nat pos) d) key = 0 then erase_pair H pos d else Ret d)"

definition remove_and_return_only_child :: "IxFileHdr \<Rightarrow> bytes \<Rightarrow> (int \<times> bytes) result" where
  "remove_and_return_only_child H d =
     (if get_size d \<noteq> 1 then Throw AssertionFailure
      else case erase_pair H 0 d of
          Inl e \<Rightarrow> Throw e
        | Inr d' \<Rightarrow> (if get_size d' \<noteq> 0 then Throw AssertionFailure else Ret (value_at H 0 d, d')))"

section \<open>Arrays inside a page\<close>

text \<open>Moving the tail of a region up to make room, or down to close a gap.\<close>

lemma shift_up:
  assumes "off + a + b + c \<le> length d" "length xs = c"
  shows "get_bytes (put_bytes (put_bytes d (off + a + c) (get_bytes d (off + a) b)) (off + a) xs) off (a + c + b) =
    get_bytes d off a @ xs @ get_bytes d (off + a) b"
  using assms by (cases xs) (auto simp: get_bytes_def put_bytes_def min_def drop_take ac_simps)

lemma shift_down:
  assumes "off + a + c + b \<le> length d"
  shows "get_bytes (put_bytes d (off + a) (get_bytes d (off + a + c) b)) off (a + b) =
    get_bytes d off a @ get_bytes d (off + a + c) b"
  using assms by (auto simp: get_bytes_def put_bytes_def min_def drop_take ac_simps)

primrec chunks :: "nat \<Rightarrow> nat \<Rightarrow> bytes \<Rightarrow> bytes list" where
  "chunks w 0 bs = []"
| "chunks w (Suc n) bs = take w bs # chunks w n (drop w bs)"

lemma length_chunks [simp]: "length (chunks w n bs) = n"
  by (induction n arbitrary: bs) auto

lemma nth_chunks: "i < n \<Longrightarrow> chunks w n bs ! i = get_bytes bs (i * w) w"
proof (induction n arbitrary: bs i)
  case (Suc n)
  then show ?case by (cases i) (simp_all add: get_bytes_def add.commute)
qed simp

lemma chunks_append: "length xs = n * w \<Longrightarrow> chunks w (n + m) (xs @ ys) = chunks w n xs @ chunks w m ys"
  by (induction n arbitrary: xs) auto

lemma take_chunks: "i \<le> n \<Longrightarrow> take i (chunks w n bs) = chunks w i bs"
proof (induction n arbitrary: bs i)
  case (Suc n)
  then show ?case by (cases i) simp_all
qed simp

lemma drop_chunks: "i \<le> n \<Longrightarrow> drop i (chunks w n bs) = chunks w (n - i) (drop (i * w) bs)"
proof (induction n arbitrary: bs i)
  case (Suc n)
  then show ?case by (cases i) (simp_all add: add.commute)
qed simp

lemma chunks_take: "n * w \<le> m \<Longrightarrow> chunks w n (take m bs) = chunks w n bs"
proof (induction n arbitrary: bs m)
  case (Suc n)
  then have "n * w \<le> m - w" "min w m = w" by simp_all
  then show ?case using Suc.IH [of "m - w" "drop w bs"] by (simp add: drop_take)
qed simp

definition cells :: "nat \<Rightarrow> nat \<Rightarrow> nat \<Rightarrow> bytes \<Rightarrow> bytes list" where
  "cells w off n d = chunks w n (get_bytes d off (n * w))"

lemma cells_eq: "cells w off n d = chunks w n (drop off d)"
  by (simp add: cells_def get_bytes_def chunks_take)

lemma length_cells [simp]: "length (cells w off n d) = n"
  by (simp add: cells_def)

lemma nth_cells: "i < n \<Longrightarrow> cells w off n d ! i = get_bytes d (off + i * w) w"
  by (simp add: cells_eq nth_chunks get_bytes_drop)

lemma cells_put_disjoint:
  assumes "off + n * w \<le> o' \<or> o' + length xs \<le> off" "o' + length xs \<le> length d"
  shows "cells w off n (put_bytes d o' xs) = cells w off n d"
  using assms by (simp add: cells_def get_put_disjoint)

lemma cells_insert:
  assumes "off + (n + k) * w \<le> length d" "p \<le> n" "length xs = k * w"
  shows "cells w off (n + k)
      (put_bytes (put_bytes d (off + (p + k) * w) (get_bytes d (off + p * w) ((n - p) * w))) (off + p * w) xs) =
    take p (cells w off n d) @ chunks w k xs @ drop p (cells w off n d)"
proof -
  have sz: "(n + k) * w = p * w + k * w + (n - p) * w" "(p + k) * w = p * w + k * w"
    using assms(2) by (simp_all flip: add_mult_distrib)
  have room: "off + p * w + (n - p) * w + k * w \<le> length d" using assms(1) sz(1) by simp
  have l1: "length (get_bytes d off (p * w)) = p * w" using room by simp
  have nk: "n + k = p + (k + (n - p))" using assms(2) by simp
  have "cells w off (n + k) (put_bytes (put_bytes d (off + (p + k) * w) (get_bytes d (off + p * w) ((n - p) * w))) (off + p * w) xs) =
      chunks w (n + k) (get_bytes d off (p * w) @ xs @ get_bytes d (off + p * w) ((n - p) * w))"
    using shift_up [OF room assms(3)] by (simp add: cells_def sz add.assoc)
  also have "\<dots> = chunks w p (get_bytes d off (p * w)) @ chunks w k xs @ chunks w (n - p) (get_bytes d (off + p * w) ((n - p) * w))"
    unfolding nk by (simp add: chunks_append [OF l1] chunks_append [OF assms(3)])
  also have "\<dots> = take p (cells w off n d) @ chunks w k xs @ drop p (cells w off n d)"
    using assms(2) by (simp add: cells_eq take_chunks drop_chunks get_bytes_def chunks_take add.commute)
  finally show ?thesis .
qed

lemma cells_remove:
  assumes "off + n * w \<le> length d" "p < n"
  shows "cells w off (n - 1) (put_bytes d (off + p * w) (get_bytes d (off + (p + 1) * w) ((n - p - 1) * w))) =
    take p (cells w off n d) @ drop (Suc p) (cells w off n d)"
proof -
  obtain m where n: "n = Suc (p + m)" using assms(2) less_imp_Suc_add by blast
  have room: "off + p * w + w + m * w \<le> length d" using assms(1) by (simp add: n algebra_simps)
  have l1: "length (get_bytes d off (p * w)) = p * w" using room by simp
  have "cells w off (p + m) (put_bytes d (off + p * w) (get_bytes d (off + p * w + w) (m * w))) =
      chunks w (p + m) (get_bytes d off (p * w) @ get_bytes d (off + p * w + w) (m * w))"
    using shift_down [OF room] by (simp add: cells_def add_mult_distrib)
  also have "\<dots> = chunks w p (get_bytes d off (p * w)) @ chunks w m (get_bytes d (off + p * w + w) (m * w))"
    by (rule chunks_append [OF l1])
  also have "\<dots> = take p (cells w off n d) @ drop (Suc p) (cells w off n d)"
    using take_chunks [of p n w "drop off d"] drop_chunks [of "Suc p" n w "drop off d"]
    by (simp add: n cells_eq get_bytes_def chunks_take ac_simps del: chunks.simps)
  finally show ?thesis by (simp add: n ac_simps)
qed

lemma nth_put_bytes:
  assumes "off + length xs \<le> length d" "i < length d"
  shows "put_bytes d off xs ! i = (if off \<le> i \<and> i < off + length xs then xs ! (i - off) else d ! i)"
  using assms by (auto simp: put_bytes_def nth_append min_def)

lemma put_put_commute:
  assumes "o1 + length x \<le> o2 \<or> o2 + length y \<le> o1" "o1 + length x \<le> length d" "o2 + length y \<le> length d"
  shows "put_bytes (put_bytes d o1 x) o2 y = put_bytes (put_bytes d o2 y) o1 x"
  by (rule nth_equalityI) (use assms in \<open>auto simp: nth_put_bytes\<close>)

lemma put_bytes_Nil [simp]: "put_bytes d off [] = d"
  by (simp add: put_bytes_def)

lemma get_bytes_0 [simp]: "get_bytes d off 0 = []"
  by (simp add: get_bytes_def)

text \<open>Inserting \<open>k\<close> cells at \<open>p\<close> into an array of \<open>n\<close> cells, and removing the cell at \<open>p\<close>.\<close>

definition arr_insert :: "nat \<Rightarrow> nat \<Rightarrow> nat \<Rightarrow> nat \<Rightarrow> nat \<Rightarrow> bytes \<Rightarrow> bytes \<Rightarrow> bytes" where
  "arr_insert w off n p k xs d =
     put_bytes (put_bytes d (off + (p + k) * w) (get_bytes d (off + p * w) ((n - p) * w))) (off + p * w) xs"

definition arr_remove :: "nat \<Rightarrow> nat \<Rightarrow> nat \<Rightarrow> nat \<Rightarrow> bytes \<Rightarrow> bytes" where
  "arr_remove w off n p d = put_bytes d (off + p * w) (get_bytes d (off + (p + 1) * w) ((n - p - 1) * w))"

lemma arr_sizes:
  assumes "off + (n + k) * w \<le> length d" "p \<le> n"
  shows "length (get_bytes d (off + p * w) ((n - p) * w)) = (n - p) * w"
    "off + (p + k) * w + (n - p) * w = off + (n + k) * w" "off + p * w + k * w \<le> off + (n + k) * w"
proof -
  obtain m where n: "n = p + m" using assms(2) le_Suc_ex by blast
  have r: "off + p * w + m * w + k * w \<le> length d" using assms(1) by (simp add: n add_mult_distrib)
  then show "length (get_bytes d (off + p * w) ((n - p) * w)) = (n - p) * w" by (simp add: n)
qed (use assms(2) in \<open>simp_all flip: add_mult_distrib\<close>)

lemma arr_insert_frame:
  assumes "off + (n + k) * w \<le> length d" "p \<le> n" "length xs = k * w"
  shows "length (arr_insert w off n p k xs d) = length d"
    "o' + m \<le> off \<or> off + (n + k) * w \<le> o' \<Longrightarrow> get_bytes (arr_insert w off n p k xs d) o' m = get_bytes d o' m"
proof -
  note Z = arr_sizes [OF assms(1,2)]
  show "length (arr_insert w off n p k xs d) = length d" using Z assms by (simp add: arr_insert_def)
  show "get_bytes (arr_insert w off n p k xs d) o' m = get_bytes d o' m" if "o' + m \<le> off \<or> off + (n + k) * w \<le> o'"
    using that Z assms unfolding arr_insert_def
    by (subst get_put_disjoint; (subst get_put_disjoint)?) (auto simp: add_mult_distrib)
qed

lemma arr_remove_frame:
  assumes "off + n * w \<le> length d" "p < n"
  shows "length (arr_remove w off n p d) = length d"
    "o' + m \<le> off \<or> off + n * w \<le> o' \<Longrightarrow> get_bytes (arr_remove w off n p d) o' m = get_bytes d o' m"
proof -
  obtain j where n: "n = Suc (p + j)" using assms(2) less_imp_Suc_add by blast
  have Z: "off + p * w + w + j * w = off + n * w" by (simp add: n algebra_simps)
  show "length (arr_remove w off n p d) = length d" using Z assms by (simp add: arr_remove_def n)
  show "get_bytes (arr_remove w off n p d) o' m = get_bytes d o' m" if "o' + m \<le> off \<or> off + n * w \<le> o'"
    unfolding arr_remove_def by (rule get_put_disjoint) (use that Z assms in \<open>auto simp: n\<close>)
qed

text \<open>
  The two arrays of a node lie one behind the other: the source moves both tails before it copies the new
  cells, which comes to one insertion after the other.
\<close>

lemma two_arrays_insert:
  fixes d :: bytes and k w v n p K R :: nat and xs ys :: bytes
  defines "d0 \<equiv> put_bytes d (K + (p + k) * w) (get_bytes d (K + p * w) ((n - p) * w))"
  defines "d1 \<equiv> put_bytes d0 (R + (p + k) * v) (get_bytes d0 (R + p * v) ((n - p) * v))"
  assumes "K + (n + k) * w \<le> R" "R + (n + k) * v \<le> length d" "p \<le> n" "length xs = k * w"
  shows "put_bytes (put_bytes d1 (K + p * w) xs) (R + p * v) ys = arr_insert v R n p k ys (arr_insert w K n p k xs d)"
proof -
  have b: "K + (n + k) * w \<le> length d" using assms(3,4) by linarith
  note Z = arr_sizes [OF b assms(5)] and Y = arr_sizes [OF assms(4,5)]
  have l0: "length d0 = length d" using Z b by (simp add: d0_def)
  have lxs: "K + p * w + length xs \<le> R" using Z(3) assms by simp
  have same: "get_bytes (put_bytes d0 (K + p * w) xs) (R + p * v) ((n - p) * v) = get_bytes d0 (R + p * v) ((n - p) * v)"
    by (rule get_put_disjoint) (use lxs l0 assms in auto)
  have l1: "length (get_bytes d0 (R + p * v) ((n - p) * v)) = (n - p) * v"
    using arr_sizes(1) [of R n k v d0 p] assms(4,5) l0 by simp
  have "put_bytes d1 (K + p * w) xs = put_bytes (put_bytes d0 (K + p * w) xs) (R + (p + k) * v) (get_bytes d0 (R + p * v) ((n - p) * v))"
    unfolding d1_def by (rule put_put_commute) (use lxs l0 l1 Y assms in auto)
  then show ?thesis by (simp add: arr_insert_def d0_def [symmetric] same)
qed

lemma move_if: "(if 0 < t then put_bytes d a (get_bytes d b (t * w)) else d) = put_bytes d a (get_bytes d b (t * w))"
  by simp

lemma two_arrays_remove:
  fixes d :: bytes and w v n p K R :: nat
  defines "d0 \<equiv> put_bytes d (K + p * w) (get_bytes d (K + (p + 1) * w) ((n - p - 1) * w))"
  shows "put_bytes d0 (R + p * v) (get_bytes d0 (R + (p + 1) * v) ((n - p - 1) * v)) = arr_remove v R n p (arr_remove w K n p d)"
  by (simp add: arr_remove_def d0_def)

section \<open>A node as the list of its entries\<close>

definition hdr_ok :: "IxFileHdr \<Rightarrow> bool" where
  "hdr_ok H \<longleftrightarrow> 0 \<le> key_len H \<and> 0 < btree_order H \<and> keys_size H = (btree_order H + 1) * key_len H \<and>
     int sizeof_IxPageHdr + (btree_order H + 1) * (key_len H + 8) \<le> int PAGE_SIZE"

definition node_ok :: "IxFileHdr \<Rightarrow> bytes \<Rightarrow> bool" where
  "node_ok H d \<longleftrightarrow> length d = PAGE_SIZE \<and> 0 \<le> get_size d \<and> get_size d \<le> get_max_size H"

definition rid_of_bytes :: "bytes \<Rightarrow> Rid" where
  "rid_of_bytes b = Rid (get_i32 b 0) (get_i32 b 4)"

definition node_keys :: "IxFileHdr \<Rightarrow> bytes \<Rightarrow> bytes list" where
  "node_keys H d = cells (nat (key_len H)) (key_off H 0) (nat (get_size d)) d"

definition node_rids :: "IxFileHdr \<Rightarrow> bytes \<Rightarrow> Rid list" where
  "node_rids H d = map rid_of_bytes (cells 8 (rid_off H 0) (nat (get_size d)) d)"

definition node_entries :: "IxFileHdr \<Rightarrow> bytes \<Rightarrow> (bytes \<times> Rid) list" where
  "node_entries H d = zip (node_keys H d) (node_rids H d)"

text \<open>The links of a node: parent, leaf flag, neighbours.\<close>

definition node_links :: "bytes \<Rightarrow> int \<times> bool \<times> int \<times> int" where
  "node_links d = (get_parent_page_no d, is_leaf_page d, get_prev_leaf d, get_next_leaf d)"

lemma length_node [simp]:
  "length (node_keys H d) = nat (get_size d)" "length (node_rids H d) = nat (get_size d)"
  "length (node_entries H d) = nat (get_size d)"
  by (simp_all add: node_keys_def node_rids_def node_entries_def)

lemma rid_of_bytes_get: "rid_of_bytes (get_bytes d o1 8) = Rid (get_i32 d o1) (get_i32 d (o1 + 4))"
  by (simp add: rid_of_bytes_def get_i32_def get_bytes_def drop_take add.commute min_def)

lemma node_nth:
  assumes "i < nat (get_size d)"
  shows "node_keys H d ! i = get_key H i d" "node_rids H d ! i = get_rid H i d"
    "node_entries H d ! i = (get_key H i d, get_rid H i d)"
proof -
  show k: "node_keys H d ! i = get_key H i d"
    using assms by (simp add: node_keys_def nth_cells get_key_def key_off_def)
  show r: "node_rids H d ! i = get_rid H i d"
    using assms by (simp add: node_rids_def nth_cells get_rid_def rid_off_def rid_of_bytes_get)
  show "node_entries H d ! i = (get_key H i d, get_rid H i d)"
    using assms k r by (simp add: node_entries_def)
qed

lemma map_fst_entries [simp]: "map fst (node_entries H d) = node_keys H d"
  by (simp add: node_entries_def)

text \<open>The regions of a page with room for \<open>get_max_size\<close> entries.\<close>

lemma layout:
  assumes "hdr_ok H" "int n \<le> get_max_size H"
  shows "key_off H 0 = 24" "key_off H n \<le> rid_off H 0" "rid_off H n \<le> PAGE_SIZE" "24 \<le> rid_off H 0"
    "key_off H i = 24 + i * nat (key_len H)" "rid_off H i = rid_off H 0 + i * 8"
proof -
  let ?M = "nat (get_max_size H)" and ?kl = "nat (key_len H)"
  have n: "n \<le> ?M" using assms(2) by simp
  have ks: "nat (keys_size H) = ?M * ?kl"
    using assms(1) by (simp add: hdr_ok_def get_max_size_def nat_mult_distrib)
  have "int (24 + ?M * (?kl + 8)) \<le> int PAGE_SIZE"
    using assms(1) by (simp add: hdr_ok_def get_max_size_def sizeof_IxPageHdr_def)
  then have fit: "24 + ?M * ?kl + ?M * 8 \<le> PAGE_SIZE" by (simp only: of_nat_le_iff add_mult_distrib2 add.assoc)
  have "n * ?kl \<le> ?M * ?kl" "n * 8 \<le> ?M * 8" using n by simp_all
  then show "key_off H n \<le> rid_off H 0" "rid_off H n \<le> PAGE_SIZE"
    using fit by (simp_all add: key_off_def rid_off_def sizeof_IxPageHdr_def ks)
qed (simp_all add: key_off_def rid_off_def sizeof_IxPageHdr_def)

lemma PAGE_SIZE_24: "24 \<le> PAGE_SIZE"
  by (simp add: PAGE_SIZE_def)

lemma set_size_frame:
  assumes "length d = PAGE_SIZE" "in_i32 n"
  shows "get_size (set_size n d) = n" "length (set_size n d) = PAGE_SIZE" "node_links (set_size n d) = node_links d"
    "24 \<le> off \<Longrightarrow> cells w off m (set_size n d) = cells w off m d"
proof -
  show "get_size (set_size n d) = n"
    using assms PAGE_SIZE_24 by (simp add: get_size_def set_size_def bytes_simps)
qed (use assms PAGE_SIZE_24 in \<open>simp_all add: set_size_def node_links_def get_parent_page_no_def get_prev_leaf_def
      get_next_leaf_def is_leaf_page_def put_i32_def cells_put_disjoint nth_put_bytes get_i32_put_disjoint\<close>)

text \<open>Everything but the size and the entries is in the first 24 bytes.\<close>

lemma head_frame:
  assumes "get_bytes d' 0 24 = get_bytes d 0 24" "length d = PAGE_SIZE" "length d' = PAGE_SIZE"
  shows "get_size d' = get_size d" "node_links d' = node_links d"
proof -
  have i: "get_i32 x off = get_i32 (get_bytes x 0 24) off" if "off + 4 \<le> 24" for x off
    using that by (simp add: get_i32_def get_bytes_def drop_take min_def)
  have n: "x ! 12 = get_bytes x 0 24 ! 12" if "length x = PAGE_SIZE" for x
    using that PAGE_SIZE_24 by (simp add: get_bytes_def)
  show "get_size d' = get_size d" using i [of 8 d] i [of 8 d'] assms(1) by (simp add: get_size_def)
  show "node_links d' = node_links d"
    using i [of 4 d] i [of 4 d'] i [of 16 d] i [of 16 d'] i [of 20 d] i [of 20 d'] n [OF assms(2)] n [OF assms(3)] assms(1)
    by (simp add: node_links_def get_parent_page_no_def get_prev_leaf_def get_next_leaf_def is_leaf_page_def)
qed

lemma get_max_size_i32:
  assumes "hdr_ok H" "0 \<le> n" "n \<le> get_max_size H"
  shows "in_i32 n"
proof -
  have "rid_off H (nat n) \<le> 4096" using layout(3) [OF assms(1), of "nat n"] assms by (simp add: PAGE_SIZE_def)
  then have "nat n \<le> 4096" by (simp add: rid_off_def)
  then show ?thesis using assms(2) by (simp add: in_i32_def)
qed

lemma insert_pairs_spec:
  assumes H: "hdr_ok H" and d: "node_ok H d" and pos: "p \<le> nat (get_size d)"
    and room: "get_size d + int k \<le> get_max_size H"
    and lens: "k * nat (key_len H) \<le> length keys" "k * 8 \<le> length rids"
  obtains d' where "insert_pairs H (int p) keys rids (int k) d = Ret d'" "node_ok H d'" "get_size d' = get_size d + int k"
    "node_links d' = node_links d"
    "node_keys H d' = take p (node_keys H d) @ chunks (nat (key_len H)) k keys @ drop p (node_keys H d)"
    "node_rids H d' = take p (node_rids H d) @ map rid_of_bytes (chunks 8 k rids) @ drop p (node_rids H d)"
proof -
  let ?kl = "nat (key_len H)" and ?n = "nat (get_size d)"
  have len: "length d = PAGE_SIZE" and sz: "0 \<le> get_size d" using d by (simp_all add: node_ok_def)
  have nk: "int (?n + k) \<le> get_max_size H" using room sz by simp
  note L = layout [OF H nk]
  define K where "K = key_off H 0"
  define R where "R = rid_off H 0"
  have KR: "24 \<le> K" "K + (?n + k) * ?kl \<le> R" "R + (?n + k) * 8 \<le> length d" "24 \<le> R"
    using L(1-4) L(5) [of "?n + k"] L(6) [of "?n + k"] len unfolding K_def R_def by linarith+
  let ?xs = "take (k * ?kl) keys" and ?ys = "take (k * 8) rids"
  have lx: "length ?xs = k * ?kl" "length ?ys = k * 8" using lens by simp_all
  define e where "e = arr_insert ?kl K ?n p k ?xs d"
  define e' where "e' = arr_insert 8 R ?n p k ?ys e"
  have bK: "K + (?n + k) * ?kl \<le> length d" using KR by linarith
  note F = arr_insert_frame [OF bK pos lx(1), folded e_def]
  have bR: "R + (?n + k) * 8 \<le> length e" using KR F by simp
  note G = arr_insert_frame [OF bR pos lx(2), folded e'_def]
  have le: "length e' = PAGE_SIZE" using F G len by simp
  have h: "get_bytes e' 0 24 = get_bytes d 0 24" using F(2) [of 0 24] G(2) [of 0 24] KR by simp
  note hf = head_frame [OF h len le]
  let ?d' = "set_size (get_size d + int k) e'"
  have i32: "in_i32 (get_size d + int k)" by (rule get_max_size_i32 [OF H]) (use sz room in simp_all)
  note S = set_size_frame [OF le i32]
  have run: "insert_pairs H (int p) keys rids (int k) d = Ret ?d'"
  proof -
    have g: "(\<not> (0 \<le> int p \<and> int p \<le> get_size d) \<or> \<not> (0 \<le> int k \<and> get_size d + int k \<le> get_max_size H)) = False"
      using pos room sz by simp
    have o: "key_off H i = K + i * ?kl" "rid_off H i = R + i * 8" for i
      unfolding K_def R_def by (simp_all add: key_off_def rid_off_def)
    have t: "nat (get_size d - int p) = ?n - p" by arith
    show ?thesis
      unfolding insert_pairs_def Let_def move_if g nat_int t o two_arrays_insert [OF KR(2,3) pos lx(1)]
      by (simp only: if_False e_def [symmetric] e'_def [symmetric] hf)
  qed
  have sz': "nat (get_size d + int k) = ?n + k" using sz by simp
  have "cells ?kl K (?n + k) e' = cells ?kl K (?n + k) e" using G(2) [of K "(?n + k) * ?kl"] KR by (simp add: cells_def)
  also have "\<dots> = take p (cells ?kl K ?n d) @ chunks ?kl k ?xs @ drop p (cells ?kl K ?n d)"
    unfolding e_def arr_insert_def by (rule cells_insert [OF bK pos lx(1)])
  finally have keys': "node_keys H ?d' = take p (node_keys H d) @ chunks ?kl k keys @ drop p (node_keys H d)"
    using S(1) S(4) [OF KR(1)] by (simp add: node_keys_def K_def sz' chunks_take)
  have "cells 8 R (?n + k) e' = take p (cells 8 R ?n e) @ chunks 8 k ?ys @ drop p (cells 8 R ?n e)"
    unfolding e'_def arr_insert_def by (rule cells_insert [OF bR pos lx(2)])
  moreover have "cells 8 R ?n e = cells 8 R ?n d" using F(2) [of R "?n * 8"] KR by (simp add: cells_def)
  ultimately have rids': "node_rids H ?d' = take p (node_rids H d) @ map rid_of_bytes (chunks 8 k rids) @ drop p (node_rids H d)"
    using S(1) S(4) [OF KR(4)] by (simp add: node_rids_def R_def sz' chunks_take take_map drop_map)
  show thesis
    by (rule that [OF run _ S(1) _ keys' rids']) (use S hf sz room le in \<open>simp_all add: node_ok_def\<close>)
qed

lemma erase_pair_spec:
  assumes H: "hdr_ok H" and d: "node_ok H d" and pos: "p < nat (get_size d)"
  obtains d' where "erase_pair H (int p) d = Ret d'" "node_ok H d'" "get_size d' = get_size d - 1"
    "node_links d' = node_links d"
    "node_keys H d' = take p (node_keys H d) @ drop (Suc p) (node_keys H d)"
    "node_rids H d' = take p (node_rids H d) @ drop (Suc p) (node_rids H d)"
proof -
  let ?kl = "nat (key_len H)" and ?n = "nat (get_size d)"
  have len: "length d = PAGE_SIZE" and sz: "0 \<le> get_size d" "get_size d \<le> get_max_size H" using d by (simp_all add: node_ok_def)
  have nk: "int ?n \<le> get_max_size H" using sz by simp
  note L = layout [OF H nk]
  define K where "K = key_off H 0"
  define R where "R = rid_off H 0"
  have KR: "24 \<le> K" "K + ?n * ?kl \<le> R" "R + ?n * 8 \<le> length d" "24 \<le> R"
    using L(1-4) L(5) [of ?n] L(6) [of ?n] len unfolding K_def R_def by linarith+
  define e where "e = arr_remove ?kl K ?n p d"
  define e' where "e' = arr_remove 8 R ?n p e"
  have bK: "K + ?n * ?kl \<le> length d" using KR by linarith
  note F = arr_remove_frame [OF bK pos, folded e_def]
  have bR: "R + ?n * 8 \<le> length e" using KR F by simp
  note G = arr_remove_frame [OF bR pos, folded e'_def]
  have le: "length e' = PAGE_SIZE" using F G len by simp
  have h: "get_bytes e' 0 24 = get_bytes d 0 24" using F(2) [of 0 24] G(2) [of 0 24] KR by simp
  note hf = head_frame [OF h len le]
  let ?d' = "set_size (get_size d - 1) e'"
  have i32: "in_i32 (get_size d - 1)" by (rule get_max_size_i32 [OF H]) (use sz pos in simp_all)
  note S = set_size_frame [OF le i32]
  have run: "erase_pair H (int p) d = Ret ?d'"
  proof -
    have g: "(\<not> (0 \<le> int p \<and> int p < get_size d)) = False" using pos by simp
    have o: "key_off H i = K + i * ?kl" "rid_off H i = R + i * 8" for i
      unfolding K_def R_def by (simp_all add: key_off_def rid_off_def)
    have t: "nat (get_size d - int p - 1) = ?n - p - 1" by arith
    show ?thesis
      unfolding erase_pair_def Let_def move_if g nat_int t o two_arrays_remove
      by (simp only: if_False e_def [symmetric] e'_def [symmetric] hf)
  qed
  have sz': "nat (get_size d - 1) = ?n - 1" using sz pos by simp
  have "cells ?kl K (?n - 1) e' = cells ?kl K (?n - 1) e"
    using G(2) [of K "(?n - 1) * ?kl"] le_trans [OF _ KR(2), of "K + (?n - 1) * ?kl"] by (simp add: cells_def)
  also have "\<dots> = take p (cells ?kl K ?n d) @ drop (Suc p) (cells ?kl K ?n d)"
    unfolding e_def arr_remove_def by (rule cells_remove [OF bK pos])
  finally have keys': "node_keys H ?d' = take p (node_keys H d) @ drop (Suc p) (node_keys H d)"
    using S(1) S(4) [OF KR(1)] by (simp add: node_keys_def K_def sz')
  have "cells 8 R (?n - 1) e' = take p (cells 8 R ?n e) @ drop (Suc p) (cells 8 R ?n e)"
    unfolding e'_def arr_remove_def by (rule cells_remove [OF bR pos])
  moreover have "cells 8 R ?n e = cells 8 R ?n d" using F(2) [of R "?n * 8"] KR by (simp add: cells_def)
  ultimately have rids': "node_rids H ?d' = take p (node_rids H d) @ drop (Suc p) (node_rids H d)"
    using S(1) S(4) [OF KR(4)] by (simp add: node_rids_def R_def sz' take_map drop_map)
  show thesis
    by (rule that [OF run _ S(1) _ keys' rids']) (use S hf sz pos le in \<open>simp_all add: node_ok_def\<close>)
qed

section \<open>Binary search\<close>

lemma bound_search_spec:
  assumes "0 \<le> l" "l \<le> r"
    and "\<And>i j. l \<le> i \<Longrightarrow> i \<le> j \<Longrightarrow> j < r \<Longrightarrow> before (hcompare H (get_key H (nat j) d) t) \<Longrightarrow>
           before (hcompare H (get_key H (nat i) d) t)"
  shows "l \<le> bound_search before H d t l r" "bound_search before H d t l r \<le> r"
    "l \<le> i \<Longrightarrow> i < r \<Longrightarrow> before (hcompare H (get_key H (nat i) d) t) \<longleftrightarrow> i < bound_search before H d t l r"
proof -
  let ?B = "\<lambda>i. before (hcompare H (get_key H (nat i) d) t)"
  have "l \<le> bound_search before H d t l r \<and> bound_search before H d t l r \<le> r \<and>
    (\<forall>i. l \<le> i \<longrightarrow> i < r \<longrightarrow> ?B i = (i < bound_search before H d t l r))"
    using assms
  proof (induction before H d t l r rule: bound_search.induct)
    case (1 before H d t l r)
    let ?B = "\<lambda>i. before (hcompare H (get_key H (nat i) d) t)" and ?mid = "(l + r) div 2"
    show ?case
    proof (cases "l < r")
      case True
      then have m: "l \<le> ?mid" "?mid < r" "0 \<le> ?mid + 1" "?mid + 1 \<le> r" using 1(3) by auto
      show ?thesis
      proof (cases "?B ?mid")
        case B: True
        have lo: "?B i" if "l \<le> i" "i \<le> ?mid" for i using 1(5) [OF that m(2) B] .
        have "?mid + 1 \<le> bound_search before H d t (?mid + 1) r \<and> bound_search before H d t (?mid + 1) r \<le> r \<and>
          (\<forall>i. ?mid + 1 \<le> i \<longrightarrow> i < r \<longrightarrow> ?B i = (i < bound_search before H d t (?mid + 1) r))"
          using 1(1) [OF True refl B m(3,4)] 1(5) m(1) by fastforce
        moreover have "bound_search before H d t l r = bound_search before H d t (?mid + 1) r"
          using True B by (simp only: bound_search.simps [of before H d t l r] Let_def if_True if_False)
        ultimately have b: "?mid + 1 \<le> bound_search before H d t l r" "bound_search before H d t l r \<le> r"
          and rest: "\<And>i. ?mid + 1 \<le> i \<Longrightarrow> i < r \<Longrightarrow> ?B i = (i < bound_search before H d t l r)" by auto
        have "?B i = (i < bound_search before H d t l r)" if "l \<le> i" "i < r" for i
          using lo [OF that(1)] rest [OF _ that(2)] b(1) by (cases "i \<le> ?mid") auto
        then show ?thesis using b m by auto
      next
        case B: False
        have hi: "\<not> ?B i" if "?mid \<le> i" "i < r" for i using 1(5) [OF m(1) that] B by blast
        have "l \<le> bound_search before H d t l ?mid \<and> bound_search before H d t l ?mid \<le> ?mid \<and>
          (\<forall>i. l \<le> i \<longrightarrow> i < ?mid \<longrightarrow> ?B i = (i < bound_search before H d t l ?mid))"
          using 1(2) [OF True refl B 1(3) m(1)] 1(5) m(2) by fastforce
        moreover have "bound_search before H d t l r = bound_search before H d t l ?mid"
          using True B by (simp only: bound_search.simps [of before H d t l r] Let_def if_True if_False)
        ultimately have b: "l \<le> bound_search before H d t l r" "bound_search before H d t l r \<le> ?mid"
          and rest: "\<And>i. l \<le> i \<Longrightarrow> i < ?mid \<Longrightarrow> ?B i = (i < bound_search before H d t l r)" by auto
        have "?B i = (i < bound_search before H d t l r)" if "l \<le> i" "i < r" for i
          using hi [OF _ that(2)] rest [OF that(1)] b(2) by (cases "?mid \<le> i") auto
        then show ?thesis using b m by auto
      qed
    next
      case False
      then show ?thesis using 1(4) by (simp add: bound_search.simps)
    qed
  qed
  then show "l \<le> bound_search before H d t l r" "bound_search before H d t l r \<le> r"
    "l \<le> i \<Longrightarrow> i < r \<Longrightarrow> ?B i \<longleftrightarrow> i < bound_search before H d t l r" by auto
qed

section \<open>Sorted entries over a key order\<close>

locale key_order =
  fixes cmp :: "'k \<Rightarrow> 'k \<Rightarrow> int" and valid :: "'k \<Rightarrow> bool"
  assumes cmp_flip: "valid a \<Longrightarrow> valid b \<Longrightarrow> cmp a b < 0 \<longleftrightarrow> 0 < cmp b a"
    and cmp_trans: "valid a \<Longrightarrow> valid b \<Longrightarrow> valid c \<Longrightarrow> cmp a b \<le> 0 \<Longrightarrow> cmp b c \<le> 0 \<Longrightarrow> cmp a c \<le> 0"
begin

definition ordered :: "'k list \<Rightarrow> bool" where
  "ordered ks \<longleftrightarrow> (\<forall>k \<in> set ks. valid k) \<and> sorted_wrt (\<lambda>a b. cmp a b < 0) ks"

definition at :: "'k \<Rightarrow> ('k \<times> 'v) list \<Rightarrow> 'v option" where
  "at k es = map_option snd (find (\<lambda>e. cmp (fst e) k = 0) es)"

lemma cmp_refl: "valid a \<Longrightarrow> cmp a a = 0"
  using cmp_flip [of a a] by linarith

lemma cmp_eq_sym: "valid a \<Longrightarrow> valid b \<Longrightarrow> cmp a b = 0 \<longleftrightarrow> cmp b a = 0"
  using cmp_flip [of a b] cmp_flip [of b a] by linarith

lemma cmp_less_trans: "valid a \<Longrightarrow> valid b \<Longrightarrow> valid c \<Longrightarrow> cmp a b < 0 \<Longrightarrow> cmp b c \<le> 0 \<Longrightarrow> cmp a c < 0"
  using cmp_trans [of b c a] cmp_flip [of a b] cmp_flip [of c a] cmp_flip [of a c] cmp_trans [of a b c]
  by linarith

lemma cmp_le_less_trans: "valid a \<Longrightarrow> valid b \<Longrightarrow> valid c \<Longrightarrow> cmp a b \<le> 0 \<Longrightarrow> cmp b c < 0 \<Longrightarrow> cmp a c < 0"
  using cmp_trans [of c a b] cmp_flip [of b c] cmp_flip [of c a] cmp_flip [of a c] cmp_trans [of a b c]
  by linarith

lemma cmp_eq_right: "valid a \<Longrightarrow> valid b \<Longrightarrow> valid c \<Longrightarrow> cmp b c = 0 \<Longrightarrow> cmp a b = 0 \<longleftrightarrow> cmp a c = 0"
  using cmp_trans [of a b c] cmp_trans [of a c b] cmp_eq_sym [of b c] cmp_less_trans [of a b c] cmp_less_trans [of a c b]
  by linarith

lemma ordered_nth_less:
  "ordered ks \<Longrightarrow> i < j \<Longrightarrow> j < length ks \<Longrightarrow> cmp (ks ! i) (ks ! j) < 0"
  by (auto simp: ordered_def sorted_wrt_iff_nth_less)

lemma ordered_nth_valid: "ordered ks \<Longrightarrow> i < length ks \<Longrightarrow> valid (ks ! i)"
  by (auto simp: ordered_def)

text \<open>The keys before a target form a prefix, whatever the side equal keys are counted on.\<close>

lemma ordered_prefix:
  assumes "ordered ks" "valid t" "i \<le> j" "j < length ks"
  shows "cmp (ks ! j) t < 0 \<Longrightarrow> cmp (ks ! i) t < 0" "cmp (ks ! j) t \<le> 0 \<Longrightarrow> cmp (ks ! i) t \<le> 0"
  using assms ordered_nth_less [OF assms(1), of i j] ordered_nth_valid [OF assms(1)]
    cmp_less_trans [of "ks ! i" "ks ! j" t] by (cases "i = j"; force)+

text \<open>What is looked up is at the position of the lower bound, or nowhere.\<close>

lemma at_position:
  assumes o: "ordered (map fst es)" and t: "valid t" and p: "p \<le> length es"
    and lo: "\<And>i. i < p \<Longrightarrow> cmp (fst (es ! i)) t < 0" and hi: "\<And>i. p \<le> i \<Longrightarrow> i < length es \<Longrightarrow> 0 \<le> cmp (fst (es ! i)) t"
  shows "at t es = (if p < length es \<and> cmp (fst (es ! p)) t = 0 then Some (snd (es ! p)) else None)"
proof -
  have gt: "0 < cmp (fst (es ! i)) t" if "p < i" "i < length es" for i
  proof -
    have v: "valid (fst (es ! p))" "valid (fst (es ! i))" using o that by (auto simp: ordered_def)
    have "cmp (fst (es ! p)) (fst (es ! i)) < 0" using ordered_nth_less [OF o that(1)] that by simp
    then show ?thesis
      using hi [of p] hi [of i] that cmp_less_trans [OF v t] by force
  qed
  show ?thesis
  proof (cases "p < length es \<and> cmp (fst (es ! p)) t = 0")
    case True
    then have "find (\<lambda>e. cmp (fst e) t = 0) es = Some (es ! p)"
      unfolding find_Some_iff using lo by (intro exI [of _ p]) force
    with True show ?thesis by (simp add: at_def)
  next
    case False
    have "cmp (fst (es ! i)) t \<noteq> 0" if "i < length es" for i
      using lo [of i] gt [of i] False that by (cases i p rule: linorder_cases) auto
    then have "\<forall>e \<in> set es. cmp (fst e) t \<noteq> 0" by (simp add: all_set_conv_all_nth)
    then have "find (\<lambda>e. cmp (fst e) t = 0) es = None" by (auto simp: find_None_iff)
    with False show ?thesis by (simp only: at_def) simp
  qed
qed

lemma at_append: "at k (xs @ ys) = (case at k xs of None \<Rightarrow> at k ys | Some v \<Rightarrow> Some v)"
  by (induction xs) (auto simp: at_def)

lemma at_Cons: "at k (e # es) = (if cmp (fst e) k = 0 then Some (snd e) else at k es)"
  by (simp add: at_def)

lemma at_None_iff: "at k es = None \<longleftrightarrow> (\<forall>e \<in> set es. cmp (fst e) k \<noteq> 0)"
  by (auto simp: at_def find_None_iff)

lemma ordered_across: "ordered ks \<Longrightarrow> \<forall>a \<in> set (take p ks). \<forall>b \<in> set (drop p ks). cmp a b < 0"
  using sorted_wrt_append [of "\<lambda>a b. cmp a b < 0" "take p ks" "drop p ks"] by (simp add: ordered_def)

lemma ordered_insert:
  assumes "ordered ks" "valid t" "p \<le> length ks"
    and "\<And>i. i < p \<Longrightarrow> cmp (ks ! i) t < 0" "\<And>i. p \<le> i \<Longrightarrow> i < length ks \<Longrightarrow> 0 < cmp (ks ! i) t"
  shows "ordered (take p ks @ t # drop p ks)"
proof -
  note ordered_across [OF assms(1), of p]
  moreover have "cmp a t < 0" if "a \<in> set (take p ks)" for a using that assms(3,4) by (auto simp: in_set_conv_nth)
  moreover have "cmp t a < 0" if a: "a \<in> set (drop p ks)" for a
  proof -
    obtain i where "i < length ks - p" "a = ks ! (p + i)" using a assms(3) by (auto simp: in_set_conv_nth)
    then have "0 < cmp a t" "valid a" using assms(5) [of "p + i"] ordered_nth_valid [OF assms(1), of "p + i"] by simp_all
    then show ?thesis using cmp_flip [OF assms(2)] by simp
  qed
  ultimately show ?thesis
    using assms(1,2) by (auto simp: ordered_def sorted_wrt_append sorted_wrt_take sorted_wrt_drop dest: in_set_takeD in_set_dropD)
qed

lemma ordered_sublist: "ordered ks \<Longrightarrow> ordered (take p ks @ drop (p + j) ks)"
proof -
  assume o: "ordered ks"
  note ordered_across [OF o, of p]
  moreover have "set (drop (p + j) ks) \<subseteq> set (drop p ks)" by (simp add: add.commute set_drop_subset_set_drop)
  ultimately show ?thesis
    using o by (auto simp: ordered_def sorted_wrt_append sorted_wrt_drop sorted_wrt_take dest: in_set_takeD in_set_dropD)
qed

lemma at_insert:
  assumes "at t es = None" "valid t" "valid k" "\<And>e. e \<in> set es \<Longrightarrow> valid (fst e)"
  shows "at k (take p es @ (t, v) # drop p es) = (if cmp t k = 0 then Some v else at k es)"
proof -
  have "at k es = at k (take p es @ drop p es)" by simp
  moreover have "at k (take p es) = None" if "cmp t k = 0"
    using that assms cmp_eq_right [OF _ assms(2,3)] by (auto simp: at_None_iff dest: in_set_takeD)
  ultimately show ?thesis by (auto simp: at_append at_Cons split: option.splits simp del: append_take_drop_id)
qed

lemma at_remove:
  assumes o: "ordered (map fst es)" and p: "p < length es" and k: "valid k"
  shows "at k (take p es @ drop (Suc p) es) = (if cmp (fst (es ! p)) k = 0 then None else at k es)"
proof -
  have split: "es = take p es @ es ! p # drop (Suc p) es" using p by (rule id_take_nth_drop)
  have v: "valid (fst (es ! i))" if "i < length es" for i using o that by (auto simp: ordered_def)
  have other: "cmp (fst e) k \<noteq> 0" if eq: "cmp (fst (es ! p)) k = 0" and e: "e \<in> set (take p es @ drop (Suc p) es)" for e
  proof
    assume "cmp (fst e) k = 0"
    obtain i where i: "i < length es" "i \<noteq> p" "e = es ! i"
    proof (cases "e \<in> set (take p es)")
      case True
      then obtain i where "i < p" "e = es ! i" using p by (auto simp: in_set_conv_nth)
      then show ?thesis using that [of i] p by simp
    next
      case False
      then obtain i where "i < length es - Suc p" "e = es ! (Suc p + i)" using e by (auto simp: in_set_conv_nth)
      then show ?thesis using that [of "Suc p + i"] by simp
    qed
    have "cmp (fst (es ! i)) (fst (es ! p)) = 0"
      using cmp_eq_right [OF v [OF i(1)] v [OF p] k eq] \<open>cmp (fst e) k = 0\<close> i(3) by simp
    then have "cmp (fst (es ! p)) (fst (es ! i)) = 0" using cmp_eq_sym [OF v [OF i(1)] v [OF p]] by simp
    then show False
      using ordered_nth_less [OF o, of i p] ordered_nth_less [OF o, of p i] i p \<open>cmp (fst (es ! i)) _ = 0\<close>
      by (cases i p rule: linorder_cases) auto
  qed
  show ?thesis
  proof (cases "cmp (fst (es ! p)) k = 0")
    case True
    then show ?thesis using other [OF True] by (auto simp: at_None_iff)
  next
    case False
    then have "at k es = at k (take p es @ drop (Suc p) es)"
      by (subst split) (simp add: at_append at_Cons split: option.split)
    then show ?thesis using False by simp
  qed
qed

end

section \<open>The order of keys\<close>

text \<open>A key is comparable when no column of it is a NaN.\<close>

fun col_valid :: "ColType \<Rightarrow> bytes \<Rightarrow> bool" where
  "col_valid TYPE_FLOAT k = (float_key (read_float k 0) \<noteq> None)"
| "col_valid _ k = True"

fun valid_key :: "ColType list \<Rightarrow> int list \<Rightarrow> bytes \<Rightarrow> bool" where
  "valid_key (t # ts) (n # ns) k = (col_valid t k \<and> valid_key ts ns (drop (nat n) k))"
| "valid_key _ _ k = True"

interpretation col: key_order "\<lambda>a b. ix_compare_col a b t n" "col_valid t" for t n
proof
  fix a b c
  assume v: "col_valid t a" "col_valid t b"
  show "ix_compare_col a b t n < 0 \<longleftrightarrow> 0 < ix_compare_col b a t n"
    using v by (cases t) (auto simp: memcmp_def float_lt_def float_rel_def)
  show "ix_compare_col a c t n \<le> 0"
    if "col_valid t c" "ix_compare_col a b t n \<le> 0" "ix_compare_col b c t n \<le> 0"
    using v that by (cases t) (auto simp: memcmp_def float_lt_def float_rel_def split: if_splits)
qed

lemma ix_compare_flip:
  "valid_key ts ns a \<Longrightarrow> valid_key ts ns b \<Longrightarrow> ix_compare a b ts ns < 0 \<longleftrightarrow> 0 < ix_compare b a ts ns"
proof (induction a b ts ns rule: ix_compare.induct)
  case (1 a b t ts n ns)
  then show ?case
    using col.cmp_flip [of t a b "nat n"] col.cmp_eq_sym [of t a b "nat n"] col.cmp_flip [of t b a "nat n"]
    by (auto simp: Let_def)
qed auto

lemma ix_compare_trans:
  "valid_key ts ns a \<Longrightarrow> valid_key ts ns b \<Longrightarrow> valid_key ts ns c \<Longrightarrow>
    ix_compare a b ts ns \<le> 0 \<Longrightarrow> ix_compare b c ts ns \<le> 0 \<Longrightarrow> ix_compare a c ts ns \<le> 0"
proof (induction a b ts ns arbitrary: c rule: ix_compare.induct)
  case (1 a b t ts n ns)
  let ?ab = "ix_compare_col a b t (nat n)" and ?bc = "ix_compare_col b c t (nat n)" and ?ac = "ix_compare_col a c t (nat n)"
  have v: "col_valid t a" "col_valid t b" "col_valid t c" using "1.prems" by simp_all
  have le: "?ab \<le> 0" "?bc \<le> 0" using "1.prems" by (auto simp: Let_def split: if_splits)
  show ?case
  proof (cases "?ab = 0 \<and> ?bc = 0")
    case True
    then have "?ac = 0" using col.cmp_eq_right [OF v, of "nat n"] by simp
    moreover have "ix_compare (drop (nat n) a) (drop (nat n) c) ts ns \<le> 0"
      by (rule "1.IH" [OF refl]) (use True "1.prems" in simp_all)
    ultimately show ?thesis by simp
  next
    case False
    then have "?ac < 0" using col.cmp_less_trans [OF v, of "nat n"] col.cmp_le_less_trans [OF v, of "nat n"] le by linarith
    then show ?thesis by (simp add: Let_def)
  qed
qed auto

interpretation keys: key_order "\<lambda>a b. ix_compare a b ts ns" "valid_key ts ns" for ts ns
  using ix_compare_flip ix_compare_trans by unfold_locales blast+

definition sorted_node :: "IxFileHdr \<Rightarrow> bytes \<Rightarrow> bool" where
  "sorted_node H d \<longleftrightarrow> (\<forall>k \<in> set (node_keys H d). valid_key (col_types H) (col_lens H) k) \<and>
     sorted_wrt (\<lambda>a b. hcompare H a b < 0) (node_keys H d)"

definition lookup_entry :: "IxFileHdr \<Rightarrow> bytes \<Rightarrow> (bytes \<times> Rid) list \<Rightarrow> Rid option" where
  "lookup_entry H k es = map_option snd (find (\<lambda>e. hcompare H (fst e) k = 0) es)"

abbreviation comparable :: "IxFileHdr \<Rightarrow> bytes \<Rightarrow> bool" where
  "comparable H k \<equiv> valid_key (col_types H) (col_lens H) k"

lemma sorted_node_ordered: "sorted_node H d \<longleftrightarrow> keys.ordered (col_types H) (col_lens H) (node_keys H d)"
  by (simp add: sorted_node_def keys.ordered_def)

lemma lookup_entry_at: "lookup_entry H k es = keys.at (col_types H) (col_lens H) k es"
  by (simp add: lookup_entry_def keys.at_def)

lemma lower_bound_spec:
  assumes "sorted_node H d" "comparable H t" "0 \<le> get_size d"
  shows "0 \<le> lower_bound H d t" "lower_bound H d t \<le> get_size d"
    "i < nat (get_size d) \<Longrightarrow> hcompare H (get_key H i d) t < 0 \<longleftrightarrow> int i < lower_bound H d t"
proof -
  have mono: "hcompare H (get_key H (nat i) d) t < 0"
    if "0 \<le> i" "i \<le> j" "j < get_size d" "hcompare H (get_key H (nat j) d) t < 0" for i j
    using keys.ordered_prefix(1) [OF assms(1) [unfolded sorted_node_ordered] assms(2), of "nat i" "nat j"] that
    by (simp add: node_nth)
  note B = bound_search_spec [of 0 "get_size d" "\<lambda>c. c < 0" H d t, OF order_refl assms(3), folded lower_bound_def]
  show "0 \<le> lower_bound H d t" "lower_bound H d t \<le> get_size d" using B(1,2) mono by blast+
  show "i < nat (get_size d) \<Longrightarrow> hcompare H (get_key H i d) t < 0 \<longleftrightarrow> int i < lower_bound H d t"
    using B(3) [of "int i"] mono by simp
qed

text \<open>Positions of the entries around a key: those before it, then possibly its own, then those behind.\<close>

lemma lower_bound_entries:
  assumes "sorted_node H d" "comparable H t" "0 \<le> get_size d"
  shows "i < nat (lower_bound H d t) \<Longrightarrow> hcompare H (fst (node_entries H d ! i)) t < 0"
    "nat (lower_bound H d t) \<le> i \<Longrightarrow> i < length (node_entries H d) \<Longrightarrow> 0 \<le> hcompare H (fst (node_entries H d ! i)) t"
  using lower_bound_spec(1,2) [OF assms] lower_bound_spec(3) [OF assms, of i] by (simp_all add: node_nth) linarith+

lemma leaf_lookup_entries:
  assumes "sorted_node H d" "comparable H t" "0 \<le> get_size d"
  shows "leaf_lookup H d t = lookup_entry H t (node_entries H d)"
proof -
  let ?p = "nat (lower_bound H d t)"
  note S = lower_bound_spec [OF assms]
  have "lookup_entry H t (node_entries H d) =
    (if ?p < length (node_entries H d) \<and> hcompare H (fst (node_entries H d ! ?p)) t = 0
     then Some (snd (node_entries H d ! ?p)) else None)"
    unfolding lookup_entry_at
    by (rule keys.at_position [OF _ assms(2)])
      (use assms(1) S lower_bound_entries [OF assms] in \<open>auto simp: sorted_node_ordered\<close>)
  then show ?thesis using S by (auto simp: leaf_lookup_def Let_def node_nth)
qed

lemma rid_bytes_roundtrip:
  "in_i32 (page_no r) \<Longrightarrow> in_i32 (slot_no r) \<Longrightarrow> rid_of_bytes (rid_to_bytes r) = r"
  by (cases r) (simp add: rid_of_bytes_def rid_to_bytes_def get_i32_def get_bytes_def le_sint4)

lemma length_rid_to_bytes [simp]: "length (rid_to_bytes r) = 8"
  by (simp add: rid_to_bytes_def)

lemma insert_pair_spec:
  assumes "hdr_ok H" "node_ok H d" "p \<le> nat (get_size d)" "get_size d < get_max_size H"
    and "length key = nat (key_len H)" "in_i32 (page_no v)" "in_i32 (slot_no v)"
  obtains d' where "insert_pair H (int p) key v d = Ret d'" "node_ok H d'" "get_size d' = get_size d + 1"
    "node_links d' = node_links d" "node_entries H d' = take p (node_entries H d) @ (key, v) # drop p (node_entries H d)"
proof -
  have room: "get_size d + int 1 \<le> get_max_size H" and lens: "1 * nat (key_len H) \<le> length key" "1 * 8 \<le> length (rid_to_bytes v)"
    using assms by simp_all
  obtain d' where D: "insert_pairs H (int p) key (rid_to_bytes v) (int 1) d = Ret d'" "node_ok H d'" "get_size d' = get_size d + int 1"
    "node_links d' = node_links d"
    "node_keys H d' = take p (node_keys H d) @ chunks (nat (key_len H)) 1 key @ drop p (node_keys H d)"
    "node_rids H d' = take p (node_rids H d) @ map rid_of_bytes (chunks 8 1 (rid_to_bytes v)) @ drop p (node_rids H d)"
    by (rule insert_pairs_spec [OF assms(1-3) room lens])
  have "length (take p (node_keys H d)) = length (take p (node_rids H d))" by simp
  then have "node_entries H d' = take p (node_entries H d) @ (key, v) # drop p (node_entries H d)"
    using assms(5-7) rid_bytes_roundtrip [of v]
    by (simp add: node_entries_def D(5,6) take_zip drop_zip One_nat_def del: length_take)
  with D(1-4) show thesis by (intro that [of d']) (simp_all add: insert_pair_def)
qed

lemma erase_entry_spec:
  assumes "hdr_ok H" "node_ok H d" "p < nat (get_size d)"
  obtains d' where "erase_pair H (int p) d = Ret d'" "node_ok H d'" "get_size d' = get_size d - 1"
    "node_links d' = node_links d" "node_entries H d' = take p (node_entries H d) @ drop (Suc p) (node_entries H d)"
proof -
  obtain d' where D: "erase_pair H (int p) d = Ret d'" "node_ok H d'" "get_size d' = get_size d - 1"
    "node_links d' = node_links d"
    "node_keys H d' = take p (node_keys H d) @ drop (Suc p) (node_keys H d)"
    "node_rids H d' = take p (node_rids H d) @ drop (Suc p) (node_rids H d)"
    by (rule erase_pair_spec [OF assms])
  then have "node_entries H d' = take p (node_entries H d) @ drop (Suc p) (node_entries H d)"
    by (simp add: node_entries_def take_zip drop_zip)
  with D(1-4) show thesis by (intro that)
qed

lemma entry_valid: "sorted_node H d \<Longrightarrow> e \<in> set (node_entries H d) \<Longrightarrow> comparable H (fst e)"
  unfolding sorted_node_def map_fst_entries [symmetric] by (simp del: map_fst_entries)

text \<open>An empty node as \<open>create_index\<close>, \<open>split\<close> and \<open>insert_into_parent\<close> start it.\<close>

lemma init_node_spec:
  assumes "length d = PAGE_SIZE" "in_i32 parent" "in_i32 prev" "in_i32 nxt"
  shows "length (init_node parent leaf prev nxt d) = PAGE_SIZE" "get_size (init_node parent leaf prev nxt d) = 0"
    "node_links (init_node parent leaf prev nxt d) = (parent, leaf, prev, nxt)"
proof -
  have z: "in_i32 0" by (simp add: in_i32_def)
  have g: "get_i32 (put_bytes x off (le_bytes 4 y)) off = y" if "off + 4 \<le> length x" "in_i32 y" for x off y
    using get_put_i32 that by (simp add: put_i32_def)
  show "length (init_node parent leaf prev nxt d) = PAGE_SIZE"
    using assms PAGE_SIZE_24
    by (simp add: init_node_def set_next_leaf_def set_prev_leaf_def set_size_def set_parent_page_no_def put_i32_def)
  show "get_size (init_node parent leaf prev nxt d) = 0" "node_links (init_node parent leaf prev nxt d) = (parent, leaf, prev, nxt)"
    using assms PAGE_SIZE_24 z
    by (simp_all add: init_node_def set_next_leaf_def set_prev_leaf_def set_size_def set_parent_page_no_def put_i32_def g
        get_i32_put_disjoint get_size_def node_links_def get_parent_page_no_def is_leaf_page_def get_prev_leaf_def
        get_next_leaf_def nth_put_bytes)
qed

section \<open>Inserting and removing by key\<close>

lemma node_insert_spec:
  assumes H: "hdr_ok H" and ok: "node_ok H d" and so: "sorted_node H d" and room: "get_size d < get_max_size H"
    and key: "length key = nat (key_len H)" "comparable H key" and v: "in_i32 (page_no v)" "in_i32 (slot_no v)"
    and None: "leaf_lookup H d key = None"
  obtains d' where "node_insert H key v d = Ret d'" "node_ok H d'" "sorted_node H d'" "node_links d' = node_links d"
    "get_size d' = get_size d + 1" "set (node_keys H d') = insert key (set (node_keys H d))"
    "\<And>k. comparable H k \<Longrightarrow> leaf_lookup H d' k = (if hcompare H key k = 0 then Some v else leaf_lookup H d k)"
proof -
  have sz: "0 \<le> get_size d" using ok by (simp add: node_ok_def)
  define p where "p = nat (lower_bound H d key)"
  note S = lower_bound_spec [OF so key(2) sz] and E = lower_bound_entries [OF so key(2) sz]
  have p: "lower_bound H d key = int p" "p \<le> nat (get_size d)" using S by (simp_all add: p_def)
  have run: "node_insert H key v d = insert_pair H (int p) key v d"
    using None by (auto simp: node_insert_def leaf_lookup_def Let_def p(1) split: if_splits)
  obtain d' where D: "insert_pair H (int p) key v d = Ret d'" "node_ok H d'" "get_size d' = get_size d + 1"
    "node_links d' = node_links d" "node_entries H d' = take p (node_entries H d) @ (key, v) # drop p (node_entries H d)"
    by (rule insert_pair_spec [OF H ok p(2) room key(1) v])
  have none: "lookup_entry H key (node_entries H d) = None" using None leaf_lookup_entries [OF so key(2) sz] by simp
  have gt: "0 < hcompare H (node_keys H d ! i) key" if "p \<le> i" "i < length (node_keys H d)" for i
  proof -
    have e: "node_entries H d ! i \<in> set (node_entries H d)" using that by simp
    have "hcompare H (fst (node_entries H d ! i)) key \<noteq> 0" using none e unfolding lookup_entry_at keys.at_None_iff by blast
    then show ?thesis using E(2) [of i] that by (auto simp: p_def node_nth order_less_le)
  qed
  have keys': "node_keys H d' = take p (node_keys H d) @ key # drop p (node_keys H d)"
    by (simp add: D(5) take_map drop_map flip: map_fst_entries)
  then have so': "sorted_node H d'"
    unfolding sorted_node_ordered
    by (simp only:) (rule keys.ordered_insert [OF so [unfolded sorted_node_ordered] key(2)],
      use p(2) E(1) gt in \<open>auto simp: p_def node_nth\<close>)
  have "leaf_lookup H d' k = (if hcompare H key k = 0 then Some v else leaf_lookup H d k)" if k: "comparable H k" for k
    using keys.at_insert [OF none [unfolded lookup_entry_at] key(2) k entry_valid [OF so], where p = p and v = v]
      leaf_lookup_entries [OF so k sz] leaf_lookup_entries [OF so' k] D(3,5) sz
    by (simp add: lookup_entry_at)
  moreover have "set (node_keys H d') = insert key (set (node_keys H d))"
  proof -
    have "set (node_keys H d) = set (take p (node_keys H d) @ drop p (node_keys H d))" by simp
    then show ?thesis by (simp only: keys' set_append list.set) blast
  qed
  ultimately show thesis using that run D so' by auto
qed

lemma node_remove_spec:
  assumes H: "hdr_ok H" and ok: "node_ok H d" and so: "sorted_node H d" and key: "comparable H key"
  shows "\<exists>d'. (leaf_lookup H d key = None \<longrightarrow> d' = d) \<and> node_remove H key d = Ret d' \<and> node_ok H d' \<and> sorted_node H d' \<and> node_links d' = node_links d \<and>
    get_size d' = get_size d - (if leaf_lookup H d key = None then 0 else 1) \<and>
    (\<forall>k. comparable H k \<longrightarrow> leaf_lookup H d' k = (if hcompare H key k = 0 then None else leaf_lookup H d k))"
proof (cases "leaf_lookup H d key")
  case None
  have sz: "0 \<le> get_size d" using ok by (simp add: node_ok_def)
  have "node_remove H key d = Ret d" using None by (auto simp: leaf_lookup_def node_remove_def Let_def split: if_splits)
  moreover have "leaf_lookup H d k = None" if k: "comparable H k" "hcompare H key k = 0" for k
  proof -
    have "keys.at (col_types H) (col_lens H) key (node_entries H d) = None"
      using None leaf_lookup_entries [OF so key sz] by (simp add: lookup_entry_at)
    then show ?thesis
      using leaf_lookup_entries [OF so k(1) sz] keys.cmp_eq_right [OF entry_valid [OF so] key k(1,2)]
      by (simp add: lookup_entry_at keys.at_None_iff)
  qed
  ultimately show ?thesis using None ok so by auto
next
  case (Some w)
  have sz: "0 \<le> get_size d" using ok by (simp add: node_ok_def)
  define p where "p = nat (lower_bound H d key)"
  note S = lower_bound_spec [OF so key sz]
  have p: "lower_bound H d key = int p" "p < nat (get_size d)" "hcompare H (get_key H p d) key = 0"
    using S Some by (auto simp: p_def leaf_lookup_def Let_def split: if_splits)
  have run: "node_remove H key d = erase_pair H (int p) d" using p sz by (auto simp: node_remove_def Let_def)
  obtain d' where D: "erase_pair H (int p) d = Ret d'" "node_ok H d'" "get_size d' = get_size d - 1"
    "node_links d' = node_links d" "node_entries H d' = take p (node_entries H d) @ drop (Suc p) (node_entries H d)"
    by (rule erase_entry_spec [OF H ok p(2)])
  have so': "sorted_node H d'"
    using keys.ordered_sublist [OF so [unfolded sorted_node_ordered], of p 1]
    by (simp add: sorted_node_ordered D(5) take_map drop_map flip: map_fst_entries)
  have pv: "comparable H (get_key H p d)" using so p(2) by (metis length_node(1) node_nth(1) nth_mem sorted_node_def)
  have "leaf_lookup H d' k = (if hcompare H key k = 0 then None else leaf_lookup H d k)" if k: "comparable H k" for k
  proof -
    have "hcompare H (get_key H p d) k = 0 \<longleftrightarrow> hcompare H key k = 0"
      using keys.cmp_eq_right [OF k pv key p(3)] keys.cmp_eq_sym [OF k pv] keys.cmp_eq_sym [OF k key] by simp
    then show ?thesis
      using keys.at_remove [of "col_types H" "col_lens H" "node_entries H d" p k] so p(2) k D sz
        leaf_lookup_entries [OF so k sz] leaf_lookup_entries [OF so' k]
      by (simp add: lookup_entry_at sorted_node_ordered node_nth)
  qed
  with Some run D so' show ?thesis by auto
qed

section \<open>A sample node\<close>

definition sample_ix_hdr :: IxFileHdr where
  "sample_ix_hdr = update_tot_len ((new_IxFileHdr IX_NO_PAGE IX_INIT_NUM_PAGES IX_INIT_ROOT_PAGE 1 4 338 1356
     IX_INIT_ROOT_PAGE IX_INIT_ROOT_PAGE)\<lparr>col_types := [TYPE_INT], col_lens := [4]\<rparr>)"

definition empty_node :: "bool \<Rightarrow> bytes" where
  "empty_node leaf = init_node IX_NO_PAGE leaf IX_LEAF_HEADER_PAGE IX_LEAF_HEADER_PAGE (replicate PAGE_SIZE 0)"

definition sample_node :: "bool \<Rightarrow> bytes" where
  "sample_node leaf = (case insert_pair sample_ix_hdr 0 (le_bytes 4 7) (Rid 1 2) (empty_node leaf) of Inr d \<Rightarrow> d | Inl _ \<Rightarrow> [])"

lemma sample_ix_hdr_ok: "hdr_ok sample_ix_hdr" "get_max_size sample_ix_hdr = 339" "key_len sample_ix_hdr = 4"
  "col_types sample_ix_hdr = [TYPE_INT]" "col_lens sample_ix_hdr = [4]"
  by (simp_all add: hdr_ok_def sample_ix_hdr_def new_IxFileHdr_def update_tot_len_def get_max_size_def sizeof_IxPageHdr_def PAGE_SIZE_def)

lemma empty_node_ok:
  "node_ok sample_ix_hdr (empty_node leaf)" "sorted_node sample_ix_hdr (empty_node leaf)" "get_size (empty_node leaf) = 0" "node_entries sample_ix_hdr (empty_node leaf) = []"
  "node_links (empty_node leaf) = (IX_NO_PAGE, leaf, IX_LEAF_HEADER_PAGE, IX_LEAF_HEADER_PAGE)"
proof -
  have i: "in_i32 IX_NO_PAGE" "in_i32 IX_LEAF_HEADER_PAGE" by (simp_all add: in_i32_def IX_NO_PAGE_def IX_LEAF_HEADER_PAGE_def)
  show "node_links (empty_node leaf) = (IX_NO_PAGE, leaf, IX_LEAF_HEADER_PAGE, IX_LEAF_HEADER_PAGE)"
    by (simp add: empty_node_def init_node_spec [OF length_replicate i(1) i(2) i(2)])
  show z: "get_size (empty_node leaf) = 0" by (simp add: empty_node_def init_node_spec [OF length_replicate i(1) i(2) i(2)])
  show "node_ok sample_ix_hdr (empty_node leaf)"
    using z sample_ix_hdr_ok by (simp add: node_ok_def empty_node_def init_node_spec [OF length_replicate i(1) i(2) i(2)])
  show "sorted_node sample_ix_hdr (empty_node leaf)" "node_entries sample_ix_hdr (empty_node leaf) = []"
    by (simp_all add: sorted_node_def node_keys_def node_entries_def z cells_def)
qed

lemma sample_node_ok:
  "node_ok sample_ix_hdr (sample_node leaf)" "sorted_node sample_ix_hdr (sample_node leaf)" "get_size (sample_node leaf) = 1"
  "node_entries sample_ix_hdr (sample_node leaf) = [(le_bytes 4 7, Rid 1 2)]" "is_leaf_page (sample_node leaf) \<longleftrightarrow> leaf"
proof -
  obtain d' where D: "insert_pair sample_ix_hdr (int 0) (le_bytes 4 7) (Rid 1 2) (empty_node leaf) = Ret d'" "node_ok sample_ix_hdr d'"
    "get_size d' = get_size (empty_node leaf) + 1" "node_links d' = node_links (empty_node leaf)"
    "node_entries sample_ix_hdr d' = take 0 (node_entries sample_ix_hdr (empty_node leaf)) @ (le_bytes 4 7, Rid 1 2) # drop 0 (node_entries sample_ix_hdr (empty_node leaf))"
    by (rule insert_pair_spec [OF sample_ix_hdr_ok(1) empty_node_ok(1) [of leaf], of 0 "le_bytes 4 7" "Rid 1 2"])
      (use sample_ix_hdr_ok empty_node_ok in \<open>auto simp: in_i32_def\<close>)
  then have e: "(sample_node leaf) = d'" by (simp add: sample_node_def)
  show "node_ok sample_ix_hdr (sample_node leaf)" "get_size (sample_node leaf) = 1"
    and en: "node_entries sample_ix_hdr (sample_node leaf) = [(le_bytes 4 7, Rid 1 2)]"
    using D empty_node_ok by (simp_all add: e)
  show "is_leaf_page (sample_node leaf) \<longleftrightarrow> leaf" using D(4) empty_node_ok(5) by (simp add: e node_links_def)
  have "node_keys sample_ix_hdr (sample_node leaf) = [le_bytes 4 7]" using map_fst_entries [of sample_ix_hdr "sample_node leaf"] en by simp
  then show "sorted_node sample_ix_hdr (sample_node leaf)" by (simp add: sorted_node_def sample_ix_hdr_ok)
qed

section \<open>The file header as words\<close>

lemma get_i32_words:
  assumes "i < length ws" "\<forall>x \<in> set ws. in_i32 x"
  shows "get_i32 (concat (map (le_bytes 4) ws) @ rest) (4 * i) = ws ! i"
  using assms
proof (induction ws arbitrary: i)
  case (Cons x ws)
  then show ?case
    by (cases i) (simp_all add: get_i32_def get_bytes_def le_sint4)
qed simp

lemma length_words [simp]: "length (concat (map (le_bytes 4) ws)) = 4 * length ws"
  by (induction ws) auto

definition hdr_words :: "IxFileHdr \<Rightarrow> int list" where
  "hdr_words h = [tot_len h, first_free_page h, ix_num_pages h, root_page h, ix_col_num h] @ map coltype_code (col_types h) @
     col_lens h @ [key_len h, btree_order h, keys_size h, first_leaf h, last_leaf h]"

definition hdr_wf :: "IxFileHdr \<Rightarrow> bool" where
  "hdr_wf h \<longleftrightarrow> ix_col_num h = int (length (col_types h)) \<and> length (col_lens h) = length (col_types h) \<and>
     tot_len h = 40 + 8 * ix_col_num h \<and> (\<forall>x \<in> set (hdr_words h). in_i32 x)"

lemma concat_map_nth: "length xs = n \<Longrightarrow> concat (map (\<lambda>i. f (xs ! i)) [0 ..< n]) = concat (map f xs)"
  by (rule arg_cong [where f = concat], rule nth_equalityI) auto

lemma serialize_words:
  assumes "hdr_wf h"
  shows "IxFileHdr_serialize h = Ret (concat (map (le_bytes 4) (hdr_words h)))"
proof -
  have n: "length (col_types h) = nat (ix_col_num h)" "length (col_lens h) = nat (ix_col_num h)" using assms by (simp_all add: hdr_wf_def)
  have "concat (map (\<lambda>i. le_bytes 4 (coltype_code (col_types h ! i))) [0 ..< nat (ix_col_num h)]) = concat (map (le_bytes 4) (map coltype_code (col_types h)))"
    using concat_map_nth [OF n(1), of "\<lambda>t. le_bytes 4 (coltype_code t)"] by (simp add: comp_def)
  moreover have "concat (map (\<lambda>i. le_bytes 4 (col_lens h ! i)) [0 ..< nat (ix_col_num h)]) = concat (map (le_bytes 4) (col_lens h))"
    by (rule concat_map_nth [OF n(2)])
  moreover have "int (length (concat (map (le_bytes 4) (hdr_words h)))) = tot_len h"
    using assms by (simp only: length_words) (simp add: hdr_words_def hdr_wf_def)
  ultimately show ?thesis by (simp add: IxFileHdr_serialize_def Let_def hdr_words_def)
qed

lemma coltype_of_code [simp]: "coltype_of (coltype_code t) = t"
  by (cases t) (simp_all add: coltype_of_def)

lemma deserialize_words:
  assumes "hdr_wf h"
  shows "IxFileHdr_deserialize (concat (map (le_bytes 4) (hdr_words h)) @ rest) = Ret h"
proof -
  let ?b = "concat (map (le_bytes 4) (hdr_words h)) @ rest" and ?m = "length (col_types h)"
  have g: "get_i32 ?b (4 * i) = hdr_words h ! i" if "i < 10 + 2 * ?m" for i
    by (rule get_i32_words) (use that assms in \<open>auto simp: hdr_wf_def hdr_words_def\<close>)
  have w: "get_i32 ?b 0 = tot_len h" "get_i32 ?b 4 = first_free_page h" "get_i32 ?b 8 = ix_num_pages h" "get_i32 ?b 12 = root_page h"
    "get_i32 ?b 16 = ix_col_num h"
    using g [of 0] g [of 1] g [of 2] g [of 3] g [of 4] by (simp_all add: hdr_words_def)
  have l: "length (col_lens h) = ?m" and cn: "ix_col_num h = int ?m" "tot_len h = 40 + 8 * int ?m" using assms by (simp_all add: hdr_wf_def)
  have ty: "get_i32 ?b (20 + 4 * i) = coltype_code (col_types h ! i)" if "i < ?m" for i
    using g [of "5 + i"] that by (simp add: hdr_words_def nth_append algebra_simps)
  have le: "get_i32 ?b (20 + 4 * ?m + 4 * i) = col_lens h ! i" if "i < ?m" for i
    using g [of "5 + ?m + i"] that l by (simp add: hdr_words_def nth_append algebra_simps)
  have la: "get_i32 ?b (20 + 8 * ?m + 4 * i) = [key_len h, btree_order h, keys_size h, first_leaf h, last_leaf h] ! i" if "i < 5" for i
    using g [of "5 + 2 * ?m + i"] that l by (simp add: hdr_words_def nth_append algebra_simps)
  have "map (\<lambda>i. coltype_of (get_i32 ?b (20 + 4 * i))) [0 ..< ?m] = col_types h"
    by (rule nth_equalityI) (simp_all add: ty)
  moreover have "map (\<lambda>i. get_i32 ?b (20 + 4 * ?m + 4 * i)) [0 ..< ?m] = col_lens h"
    by (rule nth_equalityI) (simp_all add: le l)
  ultimately show ?thesis
    unfolding IxFileHdr_deserialize_def Let_def w cn(1) nat_int
    using la [of 0] la [of 1] la [of 2] la [of 3] la [of 4] cn by simp
qed

section \<open>Properties\<close>

text \<open>
  C29. Looking a key up in a sorted leaf, which is a binary search over the bytes of the page, returns what a
  search through the list of its entries returns: the record id stored under an equal key, or nothing.
\<close>

theorem leaf_lookup_correct:
  assumes "node_ok H d" "sorted_node H d" "comparable H key"
  shows "leaf_lookup H d key = lookup_entry H key (node_entries H d)"
  using leaf_lookup_entries [OF assms(2,3)] assms(1) by (simp add: node_ok_def)

theorem leaf_lookup_correct_witness:
  "leaf_lookup sample_ix_hdr (sample_node True) (le_bytes 4 7) = Some (Rid 1 2) \<and>
   leaf_lookup sample_ix_hdr (sample_node True) (le_bytes 4 8) = None"
  using leaf_lookup_correct [OF sample_node_ok(1,2) [of True], of "le_bytes 4 7"] leaf_lookup_correct [OF sample_node_ok(1,2) [of True], of "le_bytes 4 8"]
  by (simp add: sample_ix_hdr_ok sample_node_ok lookup_entry_def get_i32_def get_bytes_def le_sint4 in_i32_def)

text \<open>
  C27. Inserting into a leaf with room succeeds, keeps it well-formed and sorted and keeps its links, and
  afterwards the leaf maps the key to the new record id and every other key to what it was mapped to; a
  key that is already there keeps its record id and the leaf is unchanged.
\<close>

theorem node_insert_refines:
  assumes H: "hdr_ok H" and ok: "node_ok H d" and so: "sorted_node H d" and room: "get_size d < get_max_size H"
    and key: "length key = nat (key_len H)" "comparable H key" and v: "in_i32 (page_no v)" "in_i32 (slot_no v)"
  shows "\<exists>d'. node_insert H key v d = Ret d' \<and> node_ok H d' \<and> sorted_node H d' \<and> node_links d' = node_links d \<and>
    (leaf_lookup H d key \<noteq> None \<longrightarrow> d' = d) \<and>
    (leaf_lookup H d key = None \<longrightarrow> get_size d' = get_size d + 1 \<and>
      (\<forall>k. comparable H k \<longrightarrow> leaf_lookup H d' k = (if hcompare H key k = 0 then Some v else leaf_lookup H d k)))"
proof (cases "leaf_lookup H d key")
  case (Some w)
  then have "node_insert H key v d = Ret d" by (auto simp: leaf_lookup_def node_insert_def Let_def split: if_splits)
  with Some ok so show ?thesis by simp
next
  case None
  show ?thesis by (rule node_insert_spec [OF assms None]) (use None in auto)
qed

theorem node_insert_refines_witness:
  "\<exists>d'. node_insert sample_ix_hdr (le_bytes 4 7) (Rid 1 2) (empty_node True) = Ret d' \<and> sorted_node sample_ix_hdr d' \<and>
    get_size d' = 1 \<and> leaf_lookup sample_ix_hdr d' (le_bytes 4 7) = Some (Rid 1 2)"
proof -
  have "leaf_lookup sample_ix_hdr (empty_node True) (le_bytes 4 7) = None"
    using empty_node_ok(3) by (simp add: leaf_lookup_def lower_bound_def bound_search.simps)
  then show ?thesis
    using node_insert_refines [OF sample_ix_hdr_ok(1) empty_node_ok(1,2) [of True], of "le_bytes 4 7" "Rid 1 2"] sample_ix_hdr_ok
      keys.cmp_refl [of "[TYPE_INT]" "[4]" "le_bytes 4 7"] empty_node_ok(3)
    by (auto simp: in_i32_def)
qed

text \<open>
  C28. Removing a key from a sorted leaf succeeds and unmaps exactly that key; when the key is not there the
  leaf is unchanged. The leaf stays well-formed and sorted and keeps its links.
\<close>

theorem node_remove_refines:
  assumes "hdr_ok H" "node_ok H d" "sorted_node H d" "comparable H key"
  shows "\<exists>d'. node_remove H key d = Ret d' \<and> node_ok H d' \<and> sorted_node H d' \<and> node_links d' = node_links d \<and>
    (leaf_lookup H d key = None \<longrightarrow> d' = d) \<and> (leaf_lookup H d key \<noteq> None \<longrightarrow> get_size d' = get_size d - 1) \<and>
    (\<forall>k. comparable H k \<longrightarrow> leaf_lookup H d' k = (if hcompare H key k = 0 then None else leaf_lookup H d k))"
  using node_remove_spec [OF assms] by (auto split: if_splits)

theorem node_remove_refines_witness:
  "\<exists>d'. node_remove sample_ix_hdr (le_bytes 4 7) (sample_node True) = Ret d' \<and> node_ok sample_ix_hdr d' \<and>
    leaf_lookup sample_ix_hdr d' (le_bytes 4 7) = None"
  using node_remove_refines [OF sample_ix_hdr_ok(1) sample_node_ok(1,2) [of True], of "le_bytes 4 7"]
    keys.cmp_refl [of "[TYPE_INT]" "[4]" "le_bytes 4 7"]
  by (auto simp: sample_ix_hdr_ok)

text \<open>
  In a sorted internal node with at least one entry, the child that a key is sent to is the last one
  whose separator is not greater than the key, and the first child for a key below all separators.
\<close>

lemma internal_lookup_child:
  assumes ok: "node_ok H d" and so: "sorted_node H d" and key: "comparable H key"
    and inner: "\<not> is_leaf_page d" "0 < get_size d"
  shows "\<exists>c < nat (get_size d). internal_lookup H d key = Ret (value_at H c d) \<and>
    (c = 0 \<or> hcompare H (get_key H c d) key \<le> 0) \<and> (\<forall>j. c < j \<longrightarrow> j < nat (get_size d) \<longrightarrow> 0 < hcompare H (get_key H j d) key)"
proof -
  define u where "u = upper_bound H d key"
  have mono: "hcompare H (get_key H (nat i) d) key \<le> 0"
    if "1 \<le> i" "i \<le> j" "j < get_size d" "hcompare H (get_key H (nat j) d) key \<le> 0" for i j
    using keys.ordered_prefix(2) [OF so [unfolded sorted_node_ordered] key, of "nat i" "nat j"] that by (simp add: node_nth)
  note B = bound_search_spec [of 1 "get_size d" "\<lambda>c. c \<le> 0" H d key]
  have u: "1 \<le> u" "u \<le> get_size d" using B(1,2) inner mono by (auto simp: u_def upper_bound_def)
  have i: "hcompare H (get_key H i d) key \<le> 0 \<longleftrightarrow> int i < u" if "1 \<le> i" "i < nat (get_size d)" for i
    using B(3) [of "int i"] that inner mono by (simp add: u_def upper_bound_def)
  let ?c = "nat (u - 1)"
  have "internal_lookup H d key = Ret (value_at H ?c d)" using inner u by (simp add: internal_lookup_def Let_def u_def)
  moreover have "?c = 0 \<or> hcompare H (get_key H ?c d) key \<le> 0" using i [of ?c] u by linarith
  moreover have "0 < hcompare H (get_key H j d) key" if "?c < j" "j < nat (get_size d)" for j using i [of j] that u by linarith
  ultimately show ?thesis using u by (intro exI [of _ ?c]) auto
qed

lemma internal_lookup_child_witness:
  "internal_lookup sample_ix_hdr (sample_node False) (le_bytes 4 9) = Ret (value_at sample_ix_hdr 0 (sample_node False))"
  using internal_lookup_child [OF sample_node_ok(1,2) [of False], of "le_bytes 4 9"] by (simp add: sample_ix_hdr_ok sample_node_ok)

text \<open>
  C38. The header of an index file round-trips: the bytes written for a header, followed by anything, read
  back as the header, and writing fills exactly \<^verbatim>\<open>tot_len_\<close> bytes.
\<close>

theorem ix_header_roundtrip:
  assumes "hdr_wf h"
  shows "\<exists>b. IxFileHdr_serialize h = Ret b \<and> int (length b) = tot_len h \<and> IxFileHdr_deserialize (b @ rest) = Ret h"
proof -
  have "int (length (concat (map (le_bytes 4) (hdr_words h)))) = tot_len h"
    using assms by (simp only: length_words) (simp add: hdr_words_def hdr_wf_def)
  then show ?thesis using serialize_words [OF assms] deserialize_words [OF assms, of rest] by auto
qed

theorem ix_header_roundtrip_witness:
  "\<exists>b. IxFileHdr_serialize sample_ix_hdr = Ret b \<and> length b = 48 \<and> IxFileHdr_deserialize (b @ [0, 0]) = Ret sample_ix_hdr"
proof -
  have "hdr_wf sample_ix_hdr" "tot_len sample_ix_hdr = 48"
    by (simp_all add: hdr_wf_def hdr_words_def sample_ix_hdr_def update_tot_len_def new_IxFileHdr_def in_i32_def
        IX_NO_PAGE_def IX_INIT_NUM_PAGES_def IX_INIT_ROOT_PAGE_def)
  then show ?thesis using ix_header_roundtrip [of sample_ix_hdr "[0, 0]"] by fastforce
qed

end
