(* ===== verification/Pool_Client.thy ===== *)
theory Pool_Client
  imports Buffer_Pool
begin

text \<open>
  How the clients of the buffer pool (index files, record files) use a page: fetch it, edit the frame while it is
  pinned, unpin it. The lemmas say what such an edit does to every page, and which errors a fetch
  can end with.
\<close>

text \<open>An edit of a pinned frame, then an unpin that marks it dirty.\<close>

lemma client_write_unpin:
  assumes ok: "pool_ok s" and l: "lookup s p = Some f" and pc: "0 < pin_count (pages s ! f)" and x: "length x = PAGE_SIZE"
    and u: "unpin_page p True (set_page f ((pages s ! f)\<lparr>data := x\<rparr>) s) = (b, s')"
  shows "b" "keeps {p} s s'" "lookup s' = lookup s" "holds s' p x"
proof -
  let ?s1 = "set_page f ((pages s ! f)\<lparr>data := x\<rparr>) s"
  note L = lookupD [OF ok l]
  note K = keeps_fill [OF ok l x]
  note U = unpin_keeps [OF keeps_ok [OF K] u]
  have l1: "lookup ?s1 p = Some f" using l by simp
  then have m: "map_of (page_table (shards s ! shard_index p ?s1)) p = Some f" by (simp only: lookup_def pool_fields)
  show lk: "lookup s' = lookup s" using U(2) by simp
  show "keeps {p} s s'" using K keeps_mono [OF U(1)] by (blast intro: keeps_trans)
  have fin: "b \<and> data (pages s' ! f) = x \<and> is_dirty (pages s' ! f)"
    using u m pc L(1) by (auto simp: unpin_page_def Let_def pool_simps split: if_splits)
  then show "b" by simp
  show "holds s' p x" using fin l by (simp add: holds_def lk)
qed

text \<open>An unpin of a page that is pinned succeeds.\<close>

lemma unpin_pinned:
  assumes "lookup s p = Some f" "0 < pin_count (pages s ! f)" "unpin_page p b s = (r, s')"
  shows "r"
  using assms by (auto simp: unpin_page_def lookup_def Let_def split: if_splits)

text \<open>No pool operation fails with \<open>NonTermination\<close>.\<close>

lemma disk_errors:
  "write_page fd pno x d = (Throw e, d') \<Longrightarrow> e \<noteq> NonTermination"
  "read_page fd pno n d = (Throw e, buf) \<Longrightarrow> e \<noteq> NonTermination"
  "write_log x d = (Throw e, d') \<Longrightarrow> e \<noteq> NonTermination"
  by (auto simp: write_page_def read_page_def write_log_def open_log_def open_file_def Let_def
      split: if_splits option.splits prod.splits sum.splits)

lemma flush_buffer_errors: "flush_buffer_locked s = (Throw e, s') \<Longrightarrow> e \<noteq> NonTermination"
  using disk_errors(3) by (auto simp: flush_buffer_locked_def flush_finish_def Let_def split: if_splits option.splits prod.splits sum.splits)

lemma flush_log_loop_errors: "flush_log_to_disk_loop n s = (Throw e, s') \<Longrightarrow> e \<noteq> NonTermination"
proof (induction n s rule: flush_log_to_disk_loop.induct)
  case (1 n s)
  have "flush_log_to_disk_loop n s = (Throw e, s')" by (rule "1.prems")
  then show ?case
    using "1.IH" flush_buffer_errors [of s] unfolding flush_log_to_disk_loop.simps [of n s]
    by (auto split: if_splits prod.splits sum.splits)
qed

lemma write_back_errors: "write_back f p s = (Throw e, s') \<Longrightarrow> e \<noteq> NonTermination"
  using flush_log_loop_errors flush_buffer_errors disk_errors(1)
  by (auto simp: write_back_def flush_page_log_def flush_log_to_disk_def Let_def split: if_splits option.splits prod.splits sum.splits)

lemma update_page_errors: "update_page i f p s = (Throw e, s') \<Longrightarrow> e \<noteq> NonTermination"
  using write_back_errors by (auto simp: update_page_def Let_def split: if_splits prod.splits sum.splits)

lemma fetch_page_errors: "fetch_page p s = (Throw e, s') \<Longrightarrow> e \<noteq> NonTermination"
  using update_page_errors disk_errors(2)
  by (auto simp: fetch_page_def Let_def split: if_splits option.splits prod.splits sum.splits)

lemma write_back_fields:
  "write_back f p s = (r, s') \<Longrightarrow> pages s' = pages s \<and> shards s' = shards s \<and> shard_count s' = shard_count s"
  by (auto simp: write_back_def flush_page_log_def Let_def split: if_splits option.splits prod.splits sum.splits)

lemma lookup_pin_frame: "lookup (pin_frame i f k s) p = lookup s p"
proof -
  have "shard_index p (pin_frame i f k s) = shard_index p s" by (rule shard_index_cong) (simp add: pin_frame_def pool_simps)
  then show ?thesis
    by (cases "i < length (shards s)") (auto simp: lookup_def pin_frame_def pool_simps nth_list_update list_update_beyond)
qed

text \<open>A pinned frame keeps its page and its content while other pages are fetched and unpinned.\<close>

definition pinned :: "BufferPoolManager \<Rightarrow> PageId \<Rightarrow> frame_id_t \<Rightarrow> bool" where
  "pinned s p f \<longleftrightarrow> lookup s p = Some f \<and> 0 < pin_count (pages s ! f)"

lemma victim_not_pinned:
  assumes ok: "pool_ok s" and i: "i < length (shards s)" and v: "find_victim_page (shards s ! i) = (Some g, sh')" and p: "pinned s p f"
  shows "g \<noteq> f" "page_id (pages s ! g) \<noteq> p"
proof -
  note h = find_victim_handed_out [OF pool_okD(5) [OF ok i] v]
  have l: "lookup s p = Some f" "0 < pin_count (pages s ! f)" using p by (simp_all add: pinned_def)
  note L = lookupD [OF ok l(1)]
  show gf: "g \<noteq> f"
  proof
    assume "g = f"
    then have "i = shard_index p s" using h L(3) by (simp add: handed_out_def)
    then have "(p, g) \<in> set (page_table (shards s ! i))" using L(4) \<open>g = f\<close> by simp
    then have "pin_count (pages s ! g) = 0" using h by (auto simp: handed_out_def split: if_splits)
    then show False using l(2) \<open>g = f\<close> by simp
  qed
  show "page_id (pages s ! g) \<noteq> p"
  proof (cases "\<exists>q. (q, g) \<in> set (page_table (shards s ! i))")
    case True
    then obtain q where "(q, g) \<in> set (page_table (shards s ! i))" by blast
    from entry_lookup [OF ok i this] show ?thesis using l(1) gf by auto
  next
    case False
    then have "pid_page_no (page_id (pages s ! g)) = INVALID_PAGE_ID" using h by (auto simp: handed_out_def split: if_splits)
    then show ?thesis using L(6) by auto
  qed
qed

lemma update_page_pinned:
  assumes ok: "pool_ok s" and i: "i < length (shards s)" and v: "find_victim_page (shards s ! i) = (Some g, sh')"
    and p: "pinned s p f" and q: "q \<noteq> p" "lookup s q = None" "shard_index q s = i"
    and u: "update_page i g q (set_shard i sh' s) = (r, s')"
  shows "pages s' ! f = pages s ! f" "lookup s' p = Some f"
proof -
  let ?s1 = "set_shard i sh' s"
  note N = victim_not_pinned [OF ok i v p]
  note h = find_victim_handed_out [OF pool_okD(5) [OF ok i] v]
  have l: "lookup s p = Some f" using p by (simp add: pinned_def)
  have sh: "page_table sh' = page_table (shards s ! i)" using h by (simp add: handed_out_def)
  have l1: "lookup ?s1 p = Some f" using l sh unfolding lookup_set_shard [OF i] by (auto simp: lookup_def)
  obtain r2 s2 where w: "(if is_dirty (pages ?s1 ! g) then write_back g (page_id (pages ?s1 ! g)) ?s1 else (Ret (), ?s1)) = (r2, s2)"
    by (rule prod.exhaust)
  have same: "pages s2 = pages s" "shards s2 = shards ?s1" "shard_count s2 = shard_count s"
    using w write_back_fields [of g "page_id (pages ?s1 ! g)" ?s1 r2 s2] by (auto simp: pool_simps split: if_splits)
  have lk: "lookup s2 z = lookup ?s1 z" for z
    using same shard_index_cong [of s2 ?s1 z] by (simp add: lookup_def pool_simps)
  have "pages s' ! f = pages s ! f \<and> lookup s' p = Some f"
  proof (cases r2)
    case (Inl e)
    then have "s' = s2" using u w by (auto simp: update_page_eq)
    then show ?thesis using same lk l1 by simp
  next
    case (Inr un)
    let ?t = "emplace q g (erase (page_id (pages s2 ! g)) (page_table (shards s2 ! i)))"
    have s': "s' = set_page g (fresh_frame q) (set_shard i ((shards s2 ! i)\<lparr>page_table := ?t\<rparr>) s2)"
      using u w Inr by (auto simp: update_page_eq)
    have t2: "page_table (shards s2 ! i) = page_table (shards s ! i)" using same i sh by (simp add: pool_simps)
    have nq: "q \<notin> fst ` set (page_table (shards s ! i))" using q(2,3) by (simp add: lookup_def map_of_eq_None_iff)
    have i2: "i < length (shards s2)" using same i by (simp add: pool_simps)
    have idx: "shard_index p s2 = shard_index p s" by (rule shard_index_cong [OF same(3)])
    have "lookup s' p = Some f"
    proof (cases "shard_index p s = i")
      case True
      have "map_of (page_table (shards s ! i)) p = Some f" using l True by (simp add: lookup_def)
      then show ?thesis
        using True N(2) q(1) i2 by (simp add: s' lookup_set_shard idx map_of_rebind [OF nq] same(1) t2)
    next
      case False
      then show ?thesis using i2 lk l1 by (simp add: s' lookup_set_shard idx)
    qed
    moreover have "pages s' ! f = pages s ! f" using N(1) by (simp add: s' pool_simps same)
    ultimately show ?thesis by blast
  qed
  then show "pages s' ! f = pages s ! f" "lookup s' p = Some f" by blast+
qed

lemma fetch_pinned:
  assumes ok: "pool_ok s" and p: "pinned s p f" and q: "q \<noteq> p" and fe: "fetch_page q s = (r, s')"
  shows "pinned s' p f" "pages s' ! f = pages s ! f"
proof -
  let ?i = "shard_index q s"
  have il: "?i < length (shards s)" using pool_okD(6) [OF ok] .
  have l: "lookup s p = Some f" using p by (simp add: pinned_def)
  have "lookup s' p = Some f \<and> pages s' ! f = pages s ! f"
  proof (cases "lookup s q")
    case (Some g)
    then have gf: "g \<noteq> f" using lookup_inj [OF ok _ l] q by blast
    have "map_of (page_table (shards s ! ?i)) q = Some g" using Some by (simp add: lookup_def)
    then have "pages s' ! f = pages s ! f"
      using fe gf by (auto simp: fetch_page_def Let_def pin_frame_fields pool_simps split: if_splits)
    then show ?thesis using fetch_hit [OF ok Some fe] l by simp
  next
    case None
    then have m: "map_of (page_table (shards s ! ?i)) q = None" by (simp add: lookup_def)
    obtain fo sh' where v: "find_victim_page (shards s ! ?i) = (fo, sh')" by (rule prod.exhaust)
    show ?thesis
    proof (cases fo)
      case N: None
      then have "s' = set_shard ?i (shards s ! ?i) s"
        using fe m v find_victim_none(1) [OF pool_okD(5) [OF ok il]] by (auto simp: fetch_page_def Let_def)
      then show ?thesis using l by (simp add: set_shard_def)
    next
      case (Some g)
      obtain r2 s2 where u: "update_page ?i g q (set_shard ?i sh' s) = (r2, s2)" by (rule prod.exhaust)
      note U = update_page_pinned [OF ok il v [unfolded Some] p q None refl u] and gf = victim_not_pinned(1) [OF ok il v [unfolded Some] p]
      have "pages s' ! f = pages s2 ! f \<and> lookup s' p = lookup s2 p"
      proof (cases r2)
        case (Inl e)
        then have "s' = s2" using fe m v Some u by (auto simp: fetch_page_def Let_def)
        then show ?thesis by simp
      next
        case (Inr un)
        obtain r3 buf where rd: "read_page (pid_fd q) (pid_page_no q) PAGE_SIZE (dm s2) = (r3, buf)" by (rule prod.exhaust)
        let ?s3 = "set_page g ((pages s2 ! g)\<lparr>data := put_bytes (data (pages s2 ! g)) 0 buf\<rparr>) s2"
        have "s' = ?s3 \<or> s' = pin_frame ?i g 1 ?s3"
          using fe m v Some u Inr rd by (auto simp: fetch_page_def Let_def split: sum.splits)
        then show ?thesis using gf by (auto simp: pin_frame_fields pool_simps lookup_pin_frame)
      qed
      then show ?thesis using U by simp
    qed
  qed
  then show "pinned s' p f" "pages s' ! f = pages s ! f" using p by (simp_all add: pinned_def)
qed

lemma unpin_pinned_other:
  assumes ok: "pool_ok s" and p: "pinned s p f" and q: "q \<noteq> p" and u: "unpin_page q b s = (r, s')"
  shows "pinned s' p f" "pages s' ! f = pages s ! f"
proof -
  have l: "lookup s p = Some f" using p by (simp add: pinned_def)
  have "pages s' ! f = pages s ! f"
  proof (cases "lookup s q")
    case None
    then show ?thesis using u by (auto simp: unpin_page_def lookup_def Let_def)
  next
    case (Some g)
    then have "g \<noteq> f" using lookup_inj [OF ok _ l] q by blast
    then show ?thesis using u Some by (auto simp: unpin_page_def lookup_def Let_def pool_simps split: if_splits)
  qed
  then show "pinned s' p f" "pages s' ! f = pages s ! f" using p unpin_keeps(2) [OF ok u] by (simp_all add: pinned_def)
qed

text \<open>How often a page is pinned: a fetch adds one, an unpin takes one away.\<close>

definition page_pins :: "BufferPoolManager \<Rightarrow> PageId \<Rightarrow> nat" where
  "page_pins s p = (case lookup s p of None \<Rightarrow> 0 | Some f \<Rightarrow> pin_count (pages s ! f))"

lemma fetch_page_pins:
  assumes ok: "pool_ok s" and v: "pid_page_no q \<noteq> INVALID_PAGE_ID" and fe: "fetch_page q s = (Ret (Some g), s')"
  shows "page_pins s' q = page_pins s q + 1"
proof -
  let ?i = "shard_index q s"
  have l': "lookup s' q = Some g" using fetch_page_ok(2) [OF ok v fe] by blast
  have gl: "g < length (pages s')" using lookupD(1) [OF keeps_ok [OF fetch_page_ok(1) [OF ok v fe]] l'] .
  show ?thesis
  proof (cases "lookup s q")
    case (Some h)
    then have "h = g" using fetch_hit [OF ok Some fe] by simp
    moreover have "map_of (page_table (shards s ! ?i)) q = Some h" using Some by (simp add: lookup_def)
    ultimately have "pin_count (pages s' ! g) = pin_count (pages s ! g) + 1"
      using fe lookupD(1) [OF ok Some] by (auto simp: fetch_page_def Let_def pin_frame_fields pool_simps split: if_splits)
    then show ?thesis using l' Some \<open>h = g\<close> by (simp add: page_pins_def)
  next
    case None
    then have m: "map_of (page_table (shards s ! ?i)) q = None" by (simp add: lookup_def)
    have "pin_count (pages s' ! g) = 1"
      using fe m gl by (auto simp: fetch_page_def Let_def pin_frame_fields pool_simps split: prod.splits option.splits sum.splits)
    then show ?thesis using l' None by (simp add: page_pins_def)
  qed
qed

lemma unpin_page_pins:
  assumes ok: "pool_ok s" and p: "pinned s p f" and u: "unpin_page p b s = (r, s')"
  shows "page_pins s' p = page_pins s p - 1"
proof -
  have l: "lookup s p = Some f" using p by (simp add: pinned_def)
  have "pin_count (pages s' ! f) = pin_count (pages s ! f) - 1"
    using u l p lookupD(1) [OF ok l]
    by (auto simp: unpin_page_def lookup_def pinned_def Let_def pool_simps split: if_splits)
  then show ?thesis using l unpin_keeps(2) [OF ok u] by (simp add: page_pins_def)
qed

end
