(* ===== verification/Index_Tree.thy ===== *)
theory Index_Tree
  imports Index_Node Pool_Client
begin

text \<open>
  The B+ tree: the class \<^verbatim>\<open>IxIndexHandle\<close> of \<^verbatim>\<open>src/src/index/ix_index_handle.{h,cpp}\<close>, \<^verbatim>\<open>ix_scan.{h,cpp}\<close> and
  \<^verbatim>\<open>ix_manager.h\<close>. The state is the index handle with the buffer pool; a node handle is the frame its page
  is pinned in. A null page is \<open>AssertionFailure\<close>.

  The loops that follow child, parent and leaf pointers visit distinct pages as long as the pointers
  form no cycle; on a cycle they never end. Their fuel exceeds the number of pages of the file.
\<close>

section \<open>The tree\<close>

record ix_state =
  ix_fd :: int
  ix_hdr :: IxFileHdr
  ix_pool :: BufferPoolManager

type_synonym 'a ix_op = "(ix_state, 'a) op"

definition ix_pool_op :: "(BufferPoolManager \<Rightarrow> 'a result \<times> BufferPoolManager) \<Rightarrow> 'a ix_op" where
  "ix_pool_op c s = (case c (ix_pool s) of (r, b) \<Rightarrow> (r, s\<lparr>ix_pool := b\<rparr>))"

definition node_bytes :: "frame_id_t \<Rightarrow> ix_state \<Rightarrow> bytes" where
  "node_bytes f s = data (pages (ix_pool s) ! f)"

definition node_page :: "frame_id_t \<Rightarrow> ix_state \<Rightarrow> int" where
  "node_page f s = pid_page_no (page_id (pages (ix_pool s) ! f))"

definition put_node :: "frame_id_t \<Rightarrow> bytes \<Rightarrow> ix_state \<Rightarrow> ix_state" where
  "put_node f d s = s\<lparr>ix_pool := set_page f ((pages (ix_pool s) ! f)\<lparr>data := d\<rparr>) (ix_pool s)\<rparr>"

text \<open>An edit of a node that may fail an assertion.\<close>

definition edit_node :: "frame_id_t \<Rightarrow> (bytes \<Rightarrow> bytes result) \<Rightarrow> unit ix_op" where
  "edit_node f g s = (case g (node_bytes f s) of Inl e \<Rightarrow> (Throw e, s) | Inr d \<Rightarrow> (Ret (), put_node f d s))"

definition unpin_node :: "frame_id_t \<Rightarrow> bool \<Rightarrow> bool ix_op" where
  "unpin_node f dirty s =
     (case unpin_page (page_id (pages (ix_pool s) ! f)) dirty (ix_pool s) of (b, p) \<Rightarrow> (Ret b, s\<lparr>ix_pool := p\<rparr>))"

definition fetch_node :: "int \<Rightarrow> frame_id_t ix_op" where
  "fetch_node pno s =
     (case ix_pool_op (fetch_page (PageId (ix_fd s) pno)) s of
        (Inl e, s1) \<Rightarrow> (Throw e, s1)
      | (Inr None, s1) \<Rightarrow> (Throw AssertionFailure, s1)
      | (Inr (Some f), s1) \<Rightarrow> (Ret f, s1))"

definition create_node :: "frame_id_t ix_op" where
  "create_node s =
     (let pno = ix_num_pages (ix_hdr s) in
      case ix_pool_op (new_page_at (PageId (ix_fd s) pno)) s of
        (Inl e, s1) \<Rightarrow> (Throw e, s1)
      | (Inr None, s1) \<Rightarrow> (Throw (InternalError ''BufferPoolManager::new_page_at failed''), s1)
      | (Inr (Some f), s1) \<Rightarrow>
          (Ret f, s1\<lparr>ix_pool := (ix_pool s1)\<lparr>dm := set_fd2pageno (ix_fd s1) (pno + 1) (dm (ix_pool s1))\<rparr>,
                    ix_hdr := (ix_hdr s1)\<lparr>ix_num_pages := ix_num_pages (ix_hdr s1) + 1\<rparr>\<rparr>))"

definition is_empty :: "ix_state \<Rightarrow> bool" where
  "is_empty s \<longleftrightarrow> root_page (ix_hdr s) = IX_NO_PAGE"

definition update_root_page_no :: "int \<Rightarrow> ix_state \<Rightarrow> ix_state" where
  "update_root_page_no r s = s\<lparr>ix_hdr := (ix_hdr s)\<lparr>root_page := r\<rparr>\<rparr>"

definition ix_fuel :: "ix_state \<Rightarrow> nat" where
  "ix_fuel s = Suc (nat (ix_num_pages (ix_hdr s)))"

fun descend :: "nat \<Rightarrow> bytes \<Rightarrow> bool \<Rightarrow> frame_id_t \<Rightarrow> frame_id_t ix_op" where
  "descend fuel key find_first node s =
     (if is_leaf_page (node_bytes node s) then (Ret node, s)
      else case fuel of
          0 \<Rightarrow> (Throw NonTermination, s)
        | Suc n \<Rightarrow>
            bind_op (lift (\<lambda>s. if find_first then Ret (value_at (ix_hdr s) 0 (node_bytes node s))
                               else internal_lookup (ix_hdr s) (node_bytes node s) key)) (\<lambda>child.
            bind_op (unpin_node node False) (\<lambda>_.
            bind_op (fetch_node child) (\<lambda>next. descend n key find_first next))) s)"

declare descend.simps [simp del]

definition find_leaf_page :: "bytes \<Rightarrow> bool \<Rightarrow> frame_id_t option ix_op" where
  "find_leaf_page key find_first s =
     (if is_empty s then (Ret None, s)
      else bind_op (fetch_node (root_page (ix_hdr s))) (\<lambda>node.
           bind_op (descend (ix_fuel s) key find_first node) (\<lambda>leaf. ret (Some leaf))) s)"

definition get_value :: "bytes \<Rightarrow> Rid option ix_op" where
  "get_value key =
     bind_op (find_leaf_page key False) (\<lambda>leaf.
       case leaf of
         None \<Rightarrow> ret None
       | Some f \<Rightarrow>
           bind_op (gets (\<lambda>s. leaf_lookup (ix_hdr s) (node_bytes f s) key)) (\<lambda>found.
           bind_op (unpin_node f False) (\<lambda>_. ret found)))"

definition maintain_child :: "frame_id_t \<Rightarrow> nat \<Rightarrow> unit ix_op" where
  "maintain_child node child_idx s =
     (if is_leaf_page (node_bytes node s) then (Ret (), s)
      else bind_op (fetch_node (value_at (ix_hdr s) child_idx (node_bytes node s))) (\<lambda>child.
           bind_op (modify (\<lambda>s. put_node child (set_parent_page_no (node_page node s) (node_bytes child s)) s)) (\<lambda>_.
           bind_op (unpin_node child True) (\<lambda>_. ret ()))) s)"

definition split :: "frame_id_t \<Rightarrow> frame_id_t ix_op" where
  "split node =
     bind_op create_node (\<lambda>new_node.
     bind_op (modify (\<lambda>s. put_node new_node (init_node (get_parent_page_no (node_bytes node s)) (is_leaf_page (node_bytes node s))
                            IX_NO_PAGE IX_NO_PAGE (node_bytes new_node s)) s)) (\<lambda>_.
     bind_op (\<lambda>s.
       let d = node_bytes node s; H = ix_hdr s; move_start = get_size d div 2; move_num = get_size d - move_start
       in bind_op (edit_node new_node (insert_pairs H 0 (drop (key_off H (nat move_start)) d)
                     (drop (rid_off H (nat move_start)) d) move_num))
            (\<lambda>_. modify (put_node node (set_size move_start d))) s) (\<lambda>_.
     bind_op (\<lambda>s.
       if is_leaf_page (node_bytes node s) then
         bind_op (modify (\<lambda>s. put_node new_node (set_next_leaf (get_next_leaf (node_bytes node s))
                    (set_prev_leaf (node_page node s) (node_bytes new_node s))) s)) (\<lambda>_.
         bind_op (\<lambda>s.
           if get_next_leaf (node_bytes node s) \<noteq> IX_LEAF_HEADER_PAGE then
             bind_op (fetch_node (get_next_leaf (node_bytes node s))) (\<lambda>nxt.
             bind_op (modify (\<lambda>s. put_node nxt (set_prev_leaf (node_page new_node s) (node_bytes nxt s)) s)) (\<lambda>_.
             bind_op (unpin_node nxt True) (\<lambda>_. ret ()))) s
           else (Ret (), s)) (\<lambda>_.
         modify (\<lambda>s.
           let s1 = put_node node (set_next_leaf (node_page new_node s) (node_bytes node s)) s
           in if last_leaf (ix_hdr s1) = node_page node s1
              then s1\<lparr>ix_hdr := (ix_hdr s1)\<lparr>last_leaf := node_page new_node s1\<rparr>\<rparr> else s1))) s
       else mapM_op (maintain_child new_node) [0 ..< nat (get_size (node_bytes new_node s))] s) (\<lambda>_.
     ret new_node))))"

fun insert_into_parent :: "nat \<Rightarrow> frame_id_t \<Rightarrow> bytes \<Rightarrow> frame_id_t \<Rightarrow> unit ix_op" where
  "insert_into_parent fuel old_node key new_node s =
     (if is_root_page (node_bytes old_node s) then
        bind_op create_node (\<lambda>root.
        bind_op (modify (\<lambda>s. put_node root (init_node IX_NO_PAGE False IX_NO_PAGE IX_NO_PAGE (node_bytes root s)) s)) (\<lambda>_.
        bind_op (\<lambda>s. edit_node root (insert_pair (ix_hdr s) 0 (get_key (ix_hdr s) 0 (node_bytes old_node s))
                       (Rid (node_page old_node s) (-1))) s) (\<lambda>_.
        bind_op (\<lambda>s. edit_node root (insert_pair (ix_hdr s) 1 (get_key (ix_hdr s) 0 (node_bytes new_node s))
                       (Rid (node_page new_node s) (-1))) s) (\<lambda>_.
        bind_op (modify (\<lambda>s. put_node old_node (set_parent_page_no (node_page root s) (node_bytes old_node s)) s)) (\<lambda>_.
        bind_op (modify (\<lambda>s. put_node new_node (set_parent_page_no (node_page root s) (node_bytes new_node s)) s)) (\<lambda>_.
        bind_op (modify (\<lambda>s. update_root_page_no (node_page root s) s)) (\<lambda>_.
        bind_op (unpin_node root True) (\<lambda>_. ret ())))))))) s
      else case fuel of
          0 \<Rightarrow> (Throw NonTermination, s)
        | Suc n \<Rightarrow>
            bind_op (fetch_node (get_parent_page_no (node_bytes old_node s))) (\<lambda>parent.
            bind_op (lift (\<lambda>s. find_child (ix_hdr s) (node_bytes parent s) (node_page old_node s))) (\<lambda>i.
            bind_op (\<lambda>s. edit_node parent (insert_pair (ix_hdr s) (int i + 1) key (Rid (node_page new_node s) (-1))) s) (\<lambda>_.
            bind_op (modify (\<lambda>s. put_node new_node (set_parent_page_no (node_page parent s) (node_bytes new_node s)) s)) (\<lambda>_.
            bind_op (\<lambda>s.
              if get_size (node_bytes parent s) \<ge> get_max_size (ix_hdr s) then
                bind_op (split parent) (\<lambda>new_parent.
                bind_op (\<lambda>s. insert_into_parent n parent (get_key (ix_hdr s) 0 (node_bytes new_parent s)) new_parent s) (\<lambda>_.
                bind_op (unpin_node new_parent True) (\<lambda>_. ret ()))) s
              else (Ret (), s)) (\<lambda>_.
            bind_op (unpin_node parent True) (\<lambda>_. ret ())))))) s)"

declare insert_into_parent.simps [simp del]

text \<open>
  The two \<^verbatim>\<open>unpin_page\<close> calls of \<^verbatim>\<open>maintain_parent\<close> stand inside \<^verbatim>\<open>assert\<close>: a build with
  \<^verbatim>\<open>NDEBUG\<close> (the default build type, \<^verbatim>\<open>Release\<close>) does not run them. The parameter says which build it is.
  In the other build the loop goes on with the node it has just unpinned.
\<close>

definition assert_unpin :: "bool \<Rightarrow> frame_id_t \<Rightarrow> unit ix_op" where
  "assert_unpin ndebug f =
     (if ndebug then ret () else bind_op (unpin_node f True) (\<lambda>b. if b then ret () else throw AssertionFailure))"

fun maintain_parent :: "bool \<Rightarrow> nat \<Rightarrow> frame_id_t \<Rightarrow> unit ix_op" where
  "maintain_parent ndebug fuel node s =
     (if get_parent_page_no (node_bytes node s) = IX_NO_PAGE then (Ret (), s)
      else case fuel of
          0 \<Rightarrow> (Throw NonTermination, s)
        | Suc n \<Rightarrow>
            bind_op (fetch_node (get_parent_page_no (node_bytes node s))) (\<lambda>parent.
            bind_op (lift (\<lambda>s. find_child (ix_hdr s) (node_bytes parent s) (node_page node s))) (\<lambda>rank s.
              let H = ix_hdr s; child_first_key = get_key H 0 (node_bytes node s) in
              if get_key H rank (node_bytes parent s) = child_first_key then assert_unpin ndebug parent s
              else
                bind_op (modify (put_node parent (set_key H rank child_first_key (node_bytes parent s)))) (\<lambda>_.
                bind_op (assert_unpin ndebug parent) (\<lambda>_. maintain_parent ndebug n parent)) s)) s)"

declare maintain_parent.simps [simp del]

definition insert_entry :: "bool \<Rightarrow> bytes \<Rightarrow> Rid \<Rightarrow> int ix_op" where
  "insert_entry ndebug key value =
     bind_op (find_leaf_page key False) (\<lambda>l.
       case l of
         None \<Rightarrow> ret IX_NO_PAGE
       | Some leaf \<Rightarrow>
           bind_op (gets (\<lambda>s. get_size (node_bytes leaf s))) (\<lambda>old_size.
           bind_op (\<lambda>s. edit_node leaf (node_insert (ix_hdr s) key value) s) (\<lambda>_ s.
             if get_size (node_bytes leaf s) = old_size
             then bind_op (unpin_node leaf False) (\<lambda>_. ret IX_NO_PAGE) s
             else
               bind_op (\<lambda>s.
                 if get_size (node_bytes leaf s) \<ge> get_max_size (ix_hdr s) then
                   bind_op (split leaf) (\<lambda>new_leaf.
                   bind_op (\<lambda>s. insert_into_parent (ix_fuel s) leaf (get_key (ix_hdr s) 0 (node_bytes new_leaf s)) new_leaf s) (\<lambda>_.
                   bind_op (unpin_node new_leaf True) (\<lambda>_. ret ()))) s
                 else if lower_bound (ix_hdr s) (node_bytes leaf s) key = 0 then maintain_parent ndebug (ix_fuel s) leaf s
                 else (Ret (), s)) (\<lambda>_.
               bind_op (gets (node_page leaf)) (\<lambda>pno.
               bind_op (unpin_node leaf True) (\<lambda>_. ret pno))) s)))"

definition delete_entry :: "bool \<Rightarrow> bytes \<Rightarrow> bool ix_op" where
  "delete_entry ndebug key =
     bind_op (find_leaf_page key False) (\<lambda>l.
       case l of
         None \<Rightarrow> ret False
       | Some leaf \<Rightarrow>
           bind_op (gets (\<lambda>s. get_size (node_bytes leaf s))) (\<lambda>old_size.
           bind_op (\<lambda>s. edit_node leaf (node_remove (ix_hdr s) key) s) (\<lambda>_.
           bind_op (gets (\<lambda>s. get_size (node_bytes leaf s) \<noteq> old_size)) (\<lambda>deleted.
           bind_op (\<lambda>s. if deleted \<and> get_size (node_bytes leaf s) > 0 then maintain_parent ndebug (ix_fuel s) leaf s else (Ret (), s)) (\<lambda>_.
           bind_op (unpin_node leaf deleted) (\<lambda>_. ret deleted))))))"

definition ix_get_rid :: "Iid \<Rightarrow> Rid ix_op" where
  "ix_get_rid iid =
     bind_op (fetch_node (iid_page iid)) (\<lambda>f s.
       if iid_slot iid \<ge> get_size (node_bytes f s) then (Throw IndexEntryNotFoundError, s)
       else bind_op (unpin_node f False) (\<lambda>_. gets (\<lambda>s. get_rid (ix_hdr s) (nat (iid_slot iid)) (node_bytes f s))) s)"

definition leaf_end :: "Iid ix_op" where
  "leaf_end =
     bind_op (\<lambda>s. fetch_node (last_leaf (ix_hdr s)) s) (\<lambda>f.
     bind_op (gets (\<lambda>s. Iid (last_leaf (ix_hdr s)) (get_size (node_bytes f s)))) (\<lambda>iid.
     bind_op (unpin_node f False) (\<lambda>_. ret iid)))"

text \<open>The loops of the two bounds: on to the next leaf while the key is beyond the end of this one.\<close>

fun next_leaf_bound :: "nat \<Rightarrow> (IxFileHdr \<Rightarrow> bytes \<Rightarrow> bytes \<Rightarrow> int) \<Rightarrow> bytes \<Rightarrow> frame_id_t \<Rightarrow> Iid ix_op" where
  "next_leaf_bound fuel bound key leaf s =
     (let slot = bound (ix_hdr s) (node_bytes leaf s) key in
      if slot = get_size (node_bytes leaf s) \<and> node_page leaf s \<noteq> last_leaf (ix_hdr s)
      then (case fuel of
              0 \<Rightarrow> (Throw NonTermination, s)
            | Suc n \<Rightarrow>
                bind_op (gets (\<lambda>s. get_next_leaf (node_bytes leaf s))) (\<lambda>next_page.
                bind_op (unpin_node leaf False) (\<lambda>_.
                bind_op (fetch_node next_page) (\<lambda>next. next_leaf_bound n bound key next))) s)
      else bind_op (gets (\<lambda>s. Iid (node_page leaf s) slot)) (\<lambda>iid. bind_op (unpin_node leaf False) (\<lambda>_. ret iid)) s)"

declare next_leaf_bound.simps [simp del]

definition ix_lower_bound :: "bytes \<Rightarrow> Iid ix_op" where
  "ix_lower_bound key =
     bind_op (find_leaf_page key False) (\<lambda>l.
       case l of None \<Rightarrow> leaf_end | Some leaf \<Rightarrow> (\<lambda>s. next_leaf_bound (ix_fuel s) lower_bound key leaf s))"

definition ix_upper_bound :: "bytes \<Rightarrow> Iid ix_op" where
  "ix_upper_bound key =
     bind_op (find_leaf_page key False) (\<lambda>l.
       case l of None \<Rightarrow> leaf_end | Some leaf \<Rightarrow> (\<lambda>s. next_leaf_bound (ix_fuel s) upper_bound key leaf s))"

fun skip_empty_leaves :: "nat \<Rightarrow> int \<Rightarrow> frame_id_t \<Rightarrow> Iid ix_op" where
  "skip_empty_leaves fuel pno node s =
     (if get_size (node_bytes node s) = 0 \<and> pno \<noteq> last_leaf (ix_hdr s)
      then (case fuel of
              0 \<Rightarrow> (Throw NonTermination, s)
            | Suc n \<Rightarrow>
                bind_op (gets (\<lambda>s. get_next_leaf (node_bytes node s))) (\<lambda>next_page.
                bind_op (unpin_node node False) (\<lambda>_.
                bind_op (fetch_node next_page) (\<lambda>next. skip_empty_leaves n next_page next))) s)
      else bind_op (unpin_node node False) (\<lambda>_. ret (Iid pno 0)) s)"

declare skip_empty_leaves.simps [simp del]

definition leaf_begin :: "Iid ix_op" where
  "leaf_begin s =
     bind_op (fetch_node (first_leaf (ix_hdr s))) (\<lambda>node. skip_empty_leaves (ix_fuel s) (first_leaf (ix_hdr s)) node) s"

definition erase_leaf :: "frame_id_t \<Rightarrow> unit ix_op" where
  "erase_leaf leaf s =
     (if \<not> is_leaf_page (node_bytes leaf s) then (Throw AssertionFailure, s)
      else
        bind_op (fetch_node (get_prev_leaf (node_bytes leaf s))) (\<lambda>prev.
        bind_op (modify (\<lambda>s. put_node prev (set_next_leaf (get_next_leaf (node_bytes leaf s)) (node_bytes prev s)) s)) (\<lambda>_.
        bind_op (unpin_node prev True) (\<lambda>_.
        bind_op (\<lambda>s. fetch_node (get_next_leaf (node_bytes leaf s)) s) (\<lambda>next.
        bind_op (modify (\<lambda>s. put_node next (set_prev_leaf (get_prev_leaf (node_bytes leaf s)) (node_bytes next s)) s)) (\<lambda>_.
        bind_op (unpin_node next True) (\<lambda>_. ret ())))))) s)"

definition release_node_handle :: "ix_state \<Rightarrow> ix_state" where
  "release_node_handle s = s\<lparr>ix_hdr := (ix_hdr s)\<lparr>ix_num_pages := ix_num_pages (ix_hdr s) - 1\<rparr>\<rparr>"

definition ix_disk :: "(DiskManager \<Rightarrow> 'a result \<times> DiskManager) \<Rightarrow> BufferPoolManager \<Rightarrow> 'a result \<times> BufferPoolManager" where
  "ix_disk c b = (case c (dm b) of (r, d) \<Rightarrow> (r, b\<lparr>dm := d\<rparr>))"

definition ix_flush_file_hdr :: "unit ix_op" where
  "ix_flush_file_hdr s =
     (case IxFileHdr_serialize (ix_hdr s) of
        Inl e \<Rightarrow> (Throw e, s)
      | Inr b \<Rightarrow> ix_pool_op (ix_disk (write_page (ix_fd s) IX_FILE_HDR_PAGE (put_bytes (replicate PAGE_SIZE 0) 0 b))) s)"

section \<open>ix\_scan.cpp\<close>

definition ix_scan_next :: "Iid \<Rightarrow> Iid \<Rightarrow> Iid ix_op" where
  "ix_scan_next fin iid =
     (if iid = fin then throw AssertionFailure
      else
        bind_op (fetch_node (iid_page iid)) (\<lambda>f s.
          let d = node_bytes f s in
          if \<not> is_leaf_page d \<or> \<not> iid_slot iid < get_size d then (Throw AssertionFailure, s)
          else
            let iid1 = Iid (iid_page iid) (iid_slot iid + 1);
                iid2 = (if iid_page iid1 \<noteq> last_leaf (ix_hdr s) \<and> iid_slot iid1 = get_size d
                        then Iid (get_next_leaf d) 0 else iid1)
            in bind_op (unpin_node f False) (\<lambda>_. ret iid2) s))"

section \<open>ix\_manager.h\<close>

definition get_index_name :: "string \<Rightarrow> string list \<Rightarrow> string" where
  "get_index_name filename names = foldl (\<lambda>acc n. acc @ ''_'' @ n) filename names @ ''.idx''"

definition ix_exists :: "string \<Rightarrow> string list \<Rightarrow> DiskManager \<Rightarrow> bool" where
  "ix_exists filename names d = is_file (get_index_name filename names) d"

definition new_index_hdr :: "ColMeta list \<Rightarrow> IxFileHdr result" where
  "new_index_hdr index_cols =
     (let col_tot = sum_list (map col_len index_cols); n = int (length index_cols);
          order = (int PAGE_SIZE - int sizeof_IxPageHdr) div (col_tot + 8) - 1
      in
      if col_tot > IX_MAX_COL_LEN then Throw (InvalidColLengthError col_tot)
      else if \<not> order > 2 then Throw AssertionFailure
      else Ret (update_tot_len
             ((new_IxFileHdr IX_NO_PAGE IX_INIT_NUM_PAGES IX_INIT_ROOT_PAGE n col_tot order ((order + 1) * col_tot)
                 IX_INIT_ROOT_PAGE IX_INIT_ROOT_PAGE)
              \<lparr>col_types := map col_type index_cols, col_lens := map col_len index_cols\<rparr>)))"

definition create_index :: "string \<Rightarrow> ColMeta list \<Rightarrow> (BufferPoolManager, unit) op" where
  "create_index filename index_cols =
     (let ix_name = get_index_name filename (map col_name index_cols) in
      bind_op (ix_disk (create_file ix_name)) (\<lambda>_.
      bind_op (ix_disk (open_file ix_name)) (\<lambda>fd.
      bind_op (lift (\<lambda>_. new_index_hdr index_cols)) (\<lambda>fhdr.
      bind_op (lift (\<lambda>_. IxFileHdr_serialize fhdr)) (\<lambda>b.
      bind_op (ix_disk (write_page fd IX_FILE_HDR_PAGE b)) (\<lambda>_.
      bind_op (ix_disk (write_page fd IX_LEAF_HEADER_PAGE
        (init_node IX_NO_PAGE True IX_INIT_ROOT_PAGE IX_INIT_ROOT_PAGE (replicate PAGE_SIZE 0)))) (\<lambda>_.
      bind_op (ix_disk (write_page fd IX_INIT_ROOT_PAGE
        (init_node IX_NO_PAGE True IX_LEAF_HEADER_PAGE IX_LEAF_HEADER_PAGE (replicate PAGE_SIZE 0)))) (\<lambda>_.
      bind_op (ix_disk (\<lambda>d. (Ret (), set_fd2pageno fd (IX_INIT_NUM_PAGES - 1) d))) (\<lambda>_.
      ix_disk (close_file fd))))))))))"

definition destroy_index :: "string \<Rightarrow> string list \<Rightarrow> (BufferPoolManager, unit) op" where
  "destroy_index filename names = ix_disk (destroy_file (get_index_name filename names))"

definition new_IxIndexHandle :: "int \<Rightarrow> (BufferPoolManager, IxFileHdr) op" where
  "new_IxIndexHandle fd =
     bind_op (ix_disk (\<lambda>d. (fst (read_page fd IX_FILE_HDR_PAGE 8 d), d))) (\<lambda>_.
     bind_op (ix_disk (\<lambda>d. (case read_page fd IX_FILE_HDR_PAGE PAGE_SIZE d of (Inl e, _) \<Rightarrow> Throw e | (Inr _, buf) \<Rightarrow> Ret buf, d))) (\<lambda>buf.
     bind_op (lift (\<lambda>_. IxFileHdr_deserialize buf)) (\<lambda>h.
     bind_op (ix_disk (\<lambda>d. (Ret (), set_fd2pageno fd (ix_num_pages h) d))) (\<lambda>_. ret h))))"

definition open_index :: "string \<Rightarrow> string list \<Rightarrow> (BufferPoolManager, int \<times> IxFileHdr) op" where
  "open_index filename names =
     bind_op (ix_disk (open_file (get_index_name filename names))) (\<lambda>fd.
     bind_op (new_IxIndexHandle fd) (\<lambda>h. ret (fd, h)))"

definition close_index :: "unit ix_op" where
  "close_index s =
     (let fd = ix_fd s; h = ix_hdr s in
      bind_op (lift (\<lambda>_. IxFileHdr_serialize h)) (\<lambda>b.
      bind_op (ix_pool_op (ix_disk (write_page fd IX_FILE_HDR_PAGE b))) (\<lambda>_.
      bind_op (ix_pool_op (flush_all_pages fd)) (\<lambda>_.
      bind_op (mapM_op (\<lambda>pno. bind_op (ix_pool_op (delete_page (PageId fd pno))) (\<lambda>_. ret ())) [0 .. ix_num_pages h - 1]) (\<lambda>_.
      ix_pool_op (ix_disk (close_file fd)))))) s)"

section \<open>The tree as a map from page numbers to nodes\<close>

text \<open>
  \<open>represents s C\<close>: the pool and the disk below it hold the nodes \<open>C\<close> of the index file. \<open>node_at s p f d\<close>:
  frame \<open>f\<close> is pinned and carries node \<open>d\<close> of page \<open>p\<close>.
\<close>

type_synonym nodes = "int \<Rightarrow> bytes option"

definition represents :: "ix_state \<Rightarrow> nodes \<Rightarrow> bool" where
  "represents s C \<longleftrightarrow> pool_ok (ix_pool s) \<and>
     (\<forall>p d. C p = Some d \<longrightarrow> p \<noteq> INVALID_PAGE_ID \<and> holds (ix_pool s) (PageId (ix_fd s) p) d)"

definition node_at :: "ix_state \<Rightarrow> int \<Rightarrow> frame_id_t \<Rightarrow> bytes \<Rightarrow> bool" where
  "node_at s p f d \<longleftrightarrow> lookup (ix_pool s) (PageId (ix_fd s) p) = Some f \<and> 0 < pin_count (pages (ix_pool s) ! f) \<and>
     data (pages (ix_pool s) ! f) = d"

definition same_handle :: "ix_state \<Rightarrow> ix_state \<Rightarrow> bool" where
  "same_handle s s' \<longleftrightarrow> ix_fd s' = ix_fd s \<and> ix_hdr s' = ix_hdr s"

lemma same_handle_refl [simp]: "same_handle s s"
  by (simp add: same_handle_def)

lemma same_handle_trans: "same_handle s t \<Longrightarrow> same_handle t u \<Longrightarrow> same_handle s u"
  by (simp add: same_handle_def)

lemma represents_keeps:
  assumes "represents s C" "keeps {} (ix_pool s) b" "ix_fd s' = ix_fd s" "ix_pool s' = b"
  shows "represents s' C"
  using assms by (auto simp: represents_def keeps_def)

lemma node_atD:
  assumes "represents s C" "node_at s p f d"
  shows "node_bytes f s = d" "node_page f s = p" "page_id (pages (ix_pool s) ! f) = PageId (ix_fd s) p" "length d = PAGE_SIZE"
  using assms lookupD(1,2,5) [of "ix_pool s" "PageId (ix_fd s) p" f]
  by (auto simp: represents_def node_at_def node_bytes_def node_page_def)

lemma fetch_node_spec:
  assumes r: "represents s C" and c: "C p = Some d" and f: "fetch_node p s = (r, s')"
  shows "represents s' C" "same_handle s s'" "r \<noteq> Throw NonTermination" "r = Ret g \<Longrightarrow> node_at s' p g d"
proof -
  have ok: "pool_ok (ix_pool s)" and v: "pid_page_no (PageId (ix_fd s) p) \<noteq> INVALID_PAGE_ID"
    and h: "holds (ix_pool s) (PageId (ix_fd s) p) d" using r c by (auto simp: represents_def)
  obtain r1 b where fe: "fetch_page (PageId (ix_fd s) p) (ix_pool s) = (r1, b)" by (rule prod.exhaust)
  note F = fetch_page_ok [OF ok v fe]
  have s': "s' = s\<lparr>ix_pool := b\<rparr>" and cases: "r = (case r1 of Inl e \<Rightarrow> Throw e | Inr None \<Rightarrow> Throw AssertionFailure | Inr (Some f) \<Rightarrow> Ret f)"
    using f fe by (auto simp: fetch_node_def ix_pool_op_def split: sum.splits option.splits)
  show "represents s' C" by (rule represents_keeps [OF r F(1)]) (simp_all add: s')
  show "same_handle s s'" by (simp add: s' same_handle_def)
  show "r \<noteq> Throw NonTermination"
    using cases fetch_page_errors [of "PageId (ix_fd s) p" "ix_pool s" NonTermination b] fe by (auto split: sum.splits option.splits)
  show "r = Ret g \<Longrightarrow> node_at s' p g d"
    using cases F(2) [of g d] h by (auto simp: node_at_def s' split: sum.splits option.splits)
qed

lemma unpin_node_spec:
  assumes r: "represents s C" and n: "node_at s p f d" and u: "unpin_node f dirty s = (r, s')"
  shows "r = Ret True" "represents s' C" "same_handle s s'"
proof -
  note D = node_atD [OF r n]
  have ok: "pool_ok (ix_pool s)" using r by (simp add: represents_def)
  obtain b q where un: "unpin_page (PageId (ix_fd s) p) dirty (ix_pool s) = (b, q)" by (rule prod.exhaust)
  then have s': "r = Ret b" "s' = s\<lparr>ix_pool := q\<rparr>" using u D by (auto simp: unpin_node_def)
  show "r = Ret True" using s' unpin_pinned [OF _ _ un, of f] n by (simp add: node_at_def)
  show "represents s' C" by (rule represents_keeps [OF r unpin_keeps(1) [OF ok un]]) (simp_all add: s')
  show "same_handle s s'" by (simp add: s' same_handle_def)
qed

lemma edit_unpin_spec:
  assumes r: "represents s C" and n: "node_at s p f d" and c: "C p = Some d" and l: "length d' = PAGE_SIZE"
    and u: "unpin_node f True (put_node f d' s) = (r, s')"
  shows "r = Ret True" "represents s' (C(p \<mapsto> d'))" "same_handle s s'"
proof -
  note D = node_atD [OF r n]
  have ok: "pool_ok (ix_pool s)" using r by (simp add: represents_def)
  have n': "lookup (ix_pool s) (PageId (ix_fd s) p) = Some f" "0 < pin_count (pages (ix_pool s) ! f)" using n by (simp_all add: node_at_def)
  have fl: "f < length (pages (ix_pool s))" using lookupD(1) [OF ok n'(1)] .
  let ?b = "set_page f ((pages (ix_pool s) ! f)\<lparr>data := d'\<rparr>) (ix_pool s)"
  obtain b q where un: "unpin_page (PageId (ix_fd s) p) True ?b = (b, q)" by (rule prod.exhaust)
  then have s': "r = Ret b" "s' = s\<lparr>ix_pool := q\<rparr>"
    using u D fl by (auto simp: unpin_node_def put_node_def pool_simps)
  note W = client_write_unpin [OF ok n' l un]
  show "r = Ret True" using s' W(1) by simp
  show "same_handle s s'" by (simp add: s' same_handle_def)
  show "represents s' (C(p \<mapsto> d'))"
    using r c W(2,4) by (auto simp: represents_def s' keeps_def)
qed

text \<open>The leaf a key belongs to, found by the separators of the inner nodes.\<close>

fun tree_leaf :: "IxFileHdr \<Rightarrow> nodes \<Rightarrow> bytes \<Rightarrow> nat \<Rightarrow> int \<Rightarrow> int option" where
  "tree_leaf H C key fuel p =
     (case C p of
        None \<Rightarrow> None
      | Some d \<Rightarrow>
          (if is_leaf_page d then Some p
           else case fuel of
               0 \<Rightarrow> None
             | Suc n \<Rightarrow> (case internal_lookup H d key of Inl _ \<Rightarrow> None | Inr c \<Rightarrow> tree_leaf H C key n c)))"

declare tree_leaf.simps [simp del]

lemma descend_spec:
  assumes "represents s C" "node_at s p f d" "C p = Some d" "tree_leaf (ix_hdr s) C key n p = Some q"
    and "descend n key False f s = (r, s')"
  shows "represents s' C \<and> same_handle s s' \<and> r \<noteq> Throw NonTermination \<and>
    (\<forall>g. r = Ret g \<longrightarrow> (\<exists>d'. C q = Some d' \<and> node_at s' q g d' \<and> is_leaf_page d'))"
  using assms
proof (induction n arbitrary: s p f d)
  case 0
  note D = node_atD [OF 0(1,2)]
  from 0 D show ?case by (subst (asm) descend.simps) (auto simp: tree_leaf.simps [of _ _ _ _ p] split: if_splits)
next
  case (Suc n)
  note D = node_atD [OF Suc.prems(1,2)]
  show ?case
  proof (cases "is_leaf_page d")
    case True
    then have "q = p" using Suc.prems(3,4) by (simp add: tree_leaf.simps [of _ _ _ _ p])
    then show ?thesis using Suc.prems D True by (subst (asm) descend.simps) auto
  next
    case False
    then obtain c where c: "internal_lookup (ix_hdr s) d key = Ret c" "tree_leaf (ix_hdr s) C key n c = Some q"
      using Suc.prems(3,4) by (auto simp: tree_leaf.simps [of _ _ _ _ p] split: sum.splits)
    obtain d2 where d2: "C c = Some d2" using c(2) by (auto simp: tree_leaf.simps [of _ _ _ _ c] split: option.splits)
    have run: "bind_op (unpin_node f False) (\<lambda>_. bind_op (fetch_node c) (\<lambda>next. descend n key False next)) s = (r, s')"
      using Suc.prems(5) D False c(1) by (subst (asm) descend.simps) (simp add: bind_op_def [of "lift _"])
    obtain r1 s1 where u: "unpin_node f False s = (r1, s1)" by (rule prod.exhaust)
    note U = unpin_node_spec [OF Suc.prems(1,2) u]
    obtain r2 s2 where fe: "fetch_node c s1 = (r2, s2)" by (rule prod.exhaust)
    note F = fetch_node_spec [OF U(2) d2 fe]
    note H = same_handle_trans [OF U(3) F(2)]
    show ?thesis
    proof (cases r2)
      case (Inl e)
      then have "r = Throw e" "s' = s2" using run u U(1) fe by (auto simp: bind_op_def)
      then show ?thesis using F H Inl by auto
    next
      case (Inr g)
      then have de: "descend n key False g s2 = (r, s')" using run u U(1) fe by (auto simp: bind_op_def)
      have "tree_leaf (ix_hdr s2) C key n c = Some q" using c(2) H by (simp add: same_handle_def)
      from Suc.IH [OF F(1) F(4) [OF Inr] d2 this de] H show ?thesis by (meson same_handle_trans)
    qed
  qed
qed

lemma find_leaf_spec:
  assumes r: "represents s C" and t: "tree_leaf (ix_hdr s) C key (ix_fuel s) (root_page (ix_hdr s)) = Some q"
    and f: "find_leaf_page key False s = (r, s')"
  shows "represents s' C" "same_handle s s'" "r \<noteq> Throw NonTermination"
    "r = Ret fo \<Longrightarrow> \<exists>g d. fo = Some g \<and> C q = Some d \<and> node_at s' q g d \<and> is_leaf_page d"
proof -
  obtain d where d: "C (root_page (ix_hdr s)) = Some d" using t by (auto simp: tree_leaf.simps [of _ _ _ _ "root_page _"] split: option.splits)
  have ne: "\<not> is_empty s" using r d by (auto simp: is_empty_def represents_def IX_NO_PAGE_def INVALID_PAGE_ID_def)
  obtain r1 s1 where fe: "fetch_node (root_page (ix_hdr s)) s = (r1, s1)" by (rule prod.exhaust)
  note F = fetch_node_spec [OF r d fe]
  have "represents s' C \<and> same_handle s s' \<and> r \<noteq> Throw NonTermination \<and>
    (r = Ret fo \<longrightarrow> (\<exists>g d. fo = Some g \<and> C q = Some d \<and> node_at s' q g d \<and> is_leaf_page d))"
  proof (cases r1)
    case (Inl e)
    then have "r = Throw e" "s' = s1" using f fe ne by (auto simp: find_leaf_page_def bind_op_def)
    then show ?thesis using F Inl by auto
  next
    case (Inr g)
    obtain r2 s2 where de: "descend (ix_fuel s) key False g s1 = (r2, s2)" by (rule prod.exhaust)
    have t1: "tree_leaf (ix_hdr s1) C key (ix_fuel s) (root_page (ix_hdr s)) = Some q" using t F(2) by (simp add: same_handle_def)
    note S = descend_spec [OF F(1) F(4) [OF Inr] d t1 de]
    have "r = (case r2 of Inl e \<Rightarrow> Throw e | Inr g \<Rightarrow> Ret (Some g))" "s' = s2"
      using f fe ne Inr de by (auto simp: find_leaf_page_def bind_op_def split: sum.splits)
    then show ?thesis using S same_handle_trans [OF F(2)] by (auto split: sum.splits)
  qed
  then show "represents s' C" "same_handle s s'" "r \<noteq> Throw NonTermination"
    "r = Ret fo \<Longrightarrow> \<exists>g d. fo = Some g \<and> C q = Some d \<and> node_at s' q g d \<and> is_leaf_page d" by blast+
qed

definition tree_get :: "IxFileHdr \<Rightarrow> nodes \<Rightarrow> nat \<Rightarrow> bytes \<Rightarrow> Rid option" where
  "tree_get H C n key =
     (case tree_leaf H C key n (root_page H) of
        None \<Rightarrow> None
      | Some q \<Rightarrow> (case C q of None \<Rightarrow> None | Some d \<Rightarrow> leaf_lookup H d key))"

lemma get_value_spec:
  assumes r: "represents s C" and t: "tree_leaf (ix_hdr s) C key (ix_fuel s) (root_page (ix_hdr s)) = Some q"
    and g: "get_value key s = (r, s')"
  shows "represents s' C" "same_handle s s'" "r \<noteq> Throw NonTermination" "r = Ret x \<Longrightarrow> x = tree_get (ix_hdr s) C (ix_fuel s) key"
    "is_ret (fst (find_leaf_page key False s)) \<Longrightarrow> is_ret r"
proof -
  obtain r1 s1 where f: "find_leaf_page key False s = (r1, s1)" by (rule prod.exhaust)
  note F = find_leaf_spec [OF r t f]
  have "represents s' C \<and> same_handle s s' \<and> r \<noteq> Throw NonTermination \<and> (r = Ret x \<longrightarrow> x = tree_get (ix_hdr s) C (ix_fuel s) key) \<and>
    (is_ret (fst (find_leaf_page key False s)) \<longrightarrow> is_ret r)"
  proof (cases r1)
    case (Inl e)
    then have "r = Throw e" "s' = s1" using g f by (auto simp: get_value_def bind_op_def)
    then show ?thesis using F Inl f by auto
  next
    case (Inr fo)
    then obtain h d where N: "fo = Some h" "C q = Some d" "node_at s1 q h d" using F(4) by blast
    obtain r2 s2 where u: "unpin_node h False s1 = (r2, s2)" by (rule prod.exhaust)
    note U = unpin_node_spec [OF F(1) N(3) u]
    have "r = Ret (leaf_lookup (ix_hdr s) d key)" "s' = s2"
      using g f Inr N(1) u U(1) node_atD [OF F(1) N(3)] F(2) by (auto simp: get_value_def bind_op_def same_handle_def)
    then show ?thesis using U same_handle_trans [OF F(2)] t N(2) by (simp add: tree_get_def)
  qed
  then show "represents s' C" "same_handle s s'" "r \<noteq> Throw NonTermination"
    "r = Ret x \<Longrightarrow> x = tree_get (ix_hdr s) C (ix_fuel s) key"
    "is_ret (fst (find_leaf_page key False s)) \<Longrightarrow> is_ret r" by blast+
qed

lemma tree_leaf_is_leaf: "tree_leaf H C key n p = Some q \<Longrightarrow> C q = Some d \<Longrightarrow> is_leaf_page d"
proof (induction n arbitrary: p)
  case 0
  then show ?case by (auto simp: tree_leaf.simps [of _ _ _ 0] split: option.splits if_splits)
next
  case (Suc n)
  then show ?case by (auto simp: tree_leaf.simps [of _ _ _ "Suc n"] split: option.splits if_splits sum.splits)
qed

text \<open>Replacing a leaf by a leaf leaves the way to every leaf as it is.\<close>

lemma tree_leaf_update:
  assumes "C q = Some d" "is_leaf_page d" "is_leaf_page d'"
  shows "tree_leaf H (C(q \<mapsto> d')) key n p = tree_leaf H C key n p"
proof -
  define C' where "C' = C(q \<mapsto> d')"
  have C': "C' q = Some d'" "\<And>p. p \<noteq> q \<Longrightarrow> C' p = C p" by (simp_all add: C'_def)
  have "tree_leaf H C' key n p = tree_leaf H C key n p"
  proof (induction n arbitrary: p)
    case 0
    then show ?case
      using assms C' unfolding tree_leaf.simps [of _ _ _ 0 p] by (cases "p = q") (auto split: option.splits)
  next
    case (Suc n)
    then show ?case
      using assms C' unfolding tree_leaf.simps [of _ _ _ "Suc n" p]
      by (cases "p = q") (auto split: option.splits sum.splits)
  qed
  then show ?thesis by (simp add: C'_def)
qed

text \<open>Equal keys take the same way.\<close>

lemma bound_search_cong:
  assumes "0 \<le> l" "\<And>i. l \<le> i \<Longrightarrow> i < r \<Longrightarrow> before (hcompare H (get_key H (nat i) d) t) \<longleftrightarrow> before (hcompare H (get_key H (nat i) d) t')"
  shows "bound_search before H d t l r = bound_search before H d t' l r"
  using assms
proof (induction before H d t l r rule: bound_search.induct)
  case (1 before H d t l r)
  let ?mid = "(l + r) div 2"
  show ?case
  proof (cases "l < r")
    case True
    then have m: "l \<le> ?mid" "?mid < r" using "1.prems"(1) by auto
    have "before (hcompare H (get_key H (nat ?mid) d) t) \<longleftrightarrow> before (hcompare H (get_key H (nat ?mid) d) t')"
      using "1.prems"(2) m by blast
    then show ?thesis
      using "1.IH"(1) [OF True refl] "1.IH"(2) [OF True refl] "1.prems" m
      unfolding bound_search.simps [of before H d t l r] bound_search.simps [of before H d t' l r] Let_def by auto
  next
    case False
    then show ?thesis by (simp add: bound_search.simps [of before H d _ l r])
  qed
qed

lemma internal_lookup_cong:
  assumes so: "sorted_node H d" and k: "comparable H k" "comparable H k'" "hcompare H k k' = 0"
  shows "internal_lookup H d k = internal_lookup H d k'"
proof -
  have "(hcompare H x k \<le> 0) = (hcompare H x k' \<le> 0)" if "comparable H x" for x
    using keys.cmp_trans [OF that k(1,2)] keys.cmp_trans [OF that k(2,1)] keys.cmp_eq_sym [OF k(1,2)] k(3) by auto
  moreover have "comparable H (get_key H i d)" if "i < nat (get_size d)" for i
    using so that node_nth(1) [of i d H] nth_mem [of i "node_keys H d"] by (simp add: sorted_node_def)
  ultimately have "upper_bound H d k = upper_bound H d k'"
    unfolding upper_bound_def by (intro bound_search_cong) (simp_all split: if_splits)
  then show ?thesis by (simp add: internal_lookup_def Let_def)
qed

lemma tree_leaf_cong:
  assumes so: "\<And>p d. C p = Some d \<Longrightarrow> sorted_node H d" and k: "comparable H k" "comparable H k'" "hcompare H k k' = 0"
  shows "tree_leaf H C k n p = tree_leaf H C k' n p"
proof (induction n arbitrary: p)
  case (Suc n)
  then show ?case using internal_lookup_cong [OF so k] by (subst (1 2) tree_leaf.simps) (auto split: option.splits sum.splits)
qed (simp add: tree_leaf.simps [of _ _ _ 0] split: option.splits)

text \<open>An insertion that does not fill the leaf and that needs no new separator above it.\<close>

lemma insert_entry_spec:
  fixes s :: ix_state and key :: bytes
  defines "H \<equiv> ix_hdr s"
  assumes r: "represents s C" and H: "hdr_ok H"
    and t: "tree_leaf H C key (ix_fuel s) (root_page H) = Some q" and c: "C q = Some d"
    and ins: "node_insert H key v d = Ret d'" "length d' = PAGE_SIZE" "get_size d' = get_size d + 1" "get_size d' < get_max_size H"
    and first: "lower_bound H d' key \<noteq> 0 \<or> get_parent_page_no d' = IX_NO_PAGE"
    and run: "insert_entry ndebug key v s = (x, s')"
  shows "x \<noteq> Throw NonTermination" "same_handle s s'" "x = Throw e \<Longrightarrow> represents s' C"
    "x = Ret p \<Longrightarrow> p = q \<and> represents s' (C(q \<mapsto> d'))"
    "is_ret (fst (find_leaf_page key False s)) \<Longrightarrow> is_ret x"
proof -
  obtain r1 s1 where f: "find_leaf_page key False s = (r1, s1)" by (rule prod.exhaust)
  note F = find_leaf_spec [OF r t [unfolded H_def] f]
  have "x \<noteq> Throw NonTermination \<and> same_handle s s' \<and> (x = Throw e \<longrightarrow> represents s' C) \<and>
    (x = Ret p \<longrightarrow> p = q \<and> represents s' (C(q \<mapsto> d'))) \<and> (is_ret (fst (find_leaf_page key False s)) \<longrightarrow> is_ret x)"
  proof (cases r1)
    case (Inl err)
    then have "x = Throw err" "s' = s1" using run f by (auto simp: insert_entry_def bind_op_def)
    then show ?thesis using F Inl f by auto
  next
    case (Inr fo)
    then obtain g where N: "fo = Some g" "node_at s1 q g d" using F(4) c by force
    note D = node_atD [OF F(1) N(2)]
    have h1: "ix_hdr s1 = H" using F(2) by (simp add: same_handle_def H_def)
    have gl: "g < length (pages (ix_pool s1))"
      using N(2) F(1) lookupD(1) by (auto simp: node_at_def represents_def)
    let ?s2 = "put_node g d' s1"
    have P: "node_bytes g ?s2 = d'" "node_page g ?s2 = q" "ix_hdr ?s2 = H"
      using gl D(2) h1 by (simp_all add: put_node_def node_bytes_def node_page_def pool_simps)
    obtain r2 s3 where u: "unpin_node g True ?s2 = (r2, s3)" by (rule prod.exhaust)
    note U = edit_unpin_spec [OF F(1) N(2) c ins(2) u]
    have mid: "(if get_size (node_bytes g ?s2) \<ge> get_max_size (ix_hdr ?s2) then A
        else if lower_bound (ix_hdr ?s2) (node_bytes g ?s2) key = 0 then maintain_parent ndebug (ix_fuel ?s2) g ?s2
        else (Ret (), ?s2)) = (Ret (), ?s2)" for A
      using first ins(4) by (auto simp: P maintain_parent.simps)
    have "insert_entry ndebug key v s = (Ret q, s3)"
      using f Inr N(1) D(1) h1 ins P u U(1) mid
      by (simp add: insert_entry_def bind_op_def edit_node_def)
    then show ?thesis using run U same_handle_trans [OF F(2)] by auto
  qed
  then show "x \<noteq> Throw NonTermination" "same_handle s s'" "x = Throw e \<Longrightarrow> represents s' C"
    "x = Ret p \<Longrightarrow> p = q \<and> represents s' (C(q \<mapsto> d'))"
    "is_ret (fst (find_leaf_page key False s)) \<Longrightarrow> is_ret x" by blast+
qed

text \<open>A deletion that needs no new separator: the leaf is the root, loses its last entry, or has no such key.\<close>

lemma delete_entry_spec:
  fixes s :: ix_state and key :: bytes
  defines "H \<equiv> ix_hdr s"
  assumes r: "represents s C" and t: "tree_leaf H C key (ix_fuel s) (root_page H) = Some q" and c: "C q = Some d"
    and del: "node_remove H key d = Ret d'" "length d' = PAGE_SIZE" "get_size d' = get_size d \<Longrightarrow> d' = d"
    and first: "get_size d' = get_size d \<or> get_size d' \<le> 0 \<or> get_parent_page_no d' = IX_NO_PAGE"
    and run: "delete_entry ndebug key s = (x, s')"
  shows "x \<noteq> Throw NonTermination" "same_handle s s'" "x = Throw e \<Longrightarrow> represents s' C"
    "x = Ret b \<Longrightarrow> b = (get_size d' \<noteq> get_size d) \<and> represents s' (C(q \<mapsto> d'))"
    "is_ret (fst (find_leaf_page key False s)) \<Longrightarrow> is_ret x"
proof -
  obtain r1 s1 where f: "find_leaf_page key False s = (r1, s1)" by (rule prod.exhaust)
  note F = find_leaf_spec [OF r t [unfolded H_def] f]
  have "x \<noteq> Throw NonTermination \<and> same_handle s s' \<and> (x = Throw e \<longrightarrow> represents s' C) \<and>
    (x = Ret b \<longrightarrow> b = (get_size d' \<noteq> get_size d) \<and> represents s' (C(q \<mapsto> d'))) \<and>
    (is_ret (fst (find_leaf_page key False s)) \<longrightarrow> is_ret x)"
  proof (cases r1)
    case (Inl err)
    then have "x = Throw err" "s' = s1" using run f by (auto simp: delete_entry_def bind_op_def)
    then show ?thesis using F Inl f by auto
  next
    case (Inr fo)
    then obtain g where N: "fo = Some g" "node_at s1 q g d" using F(4) c by force
    note D = node_atD [OF F(1) N(2)]
    have h1: "ix_hdr s1 = H" using F(2) by (simp add: same_handle_def H_def)
    have gl: "g < length (pages (ix_pool s1))" using N(2) F(1) lookupD(1) by (auto simp: node_at_def represents_def)
    let ?s2 = "put_node g d' s1"
    have P: "node_bytes g ?s2 = d'" "ix_hdr ?s2 = H" using gl h1 by (simp_all add: put_node_def node_bytes_def pool_simps)
    have mid: "(if get_size d' \<noteq> get_size d \<and> get_size (node_bytes g ?s2) > 0 then maintain_parent ndebug (ix_fuel ?s2) g ?s2
        else (Ret (), ?s2)) = (Ret (), ?s2)"
      using first by (auto simp: P maintain_parent.simps)
    obtain r2 s3 where u: "unpin_node g (get_size d' \<noteq> get_size d) ?s2 = (r2, s3)" by (rule prod.exhaust)
    have "r2 = Ret True \<and> represents s3 (C(q \<mapsto> d')) \<and> same_handle s1 s3"
    proof (cases "get_size d' = get_size d")
      case True
      then have d: "d' = d" using del(3) by simp
      have "(pages (ix_pool s1) ! g)\<lparr>data := d\<rparr> = pages (ix_pool s1) ! g"
        using D(1) by (cases "pages (ix_pool s1) ! g") (auto simp: node_bytes_def)
      then have "?s2 = s1" by (simp add: d put_node_def set_page_def)
      then show ?thesis using unpin_node_spec [OF F(1) N(2)] u True d c by (simp add: fun_upd_idem)
    next
      case False
      then show ?thesis using edit_unpin_spec [OF F(1) N(2) c del(2)] u by simp
    qed
    moreover have "delete_entry ndebug key s = (case r2 of Inl e \<Rightarrow> Throw e | Inr _ \<Rightarrow> Ret (get_size d' \<noteq> get_size d), s3)"
      using f Inr N(1) D(1) h1 del P u mid
      by (simp add: delete_entry_def bind_op_def edit_node_def split: sum.splits)
    ultimately show ?thesis using run same_handle_trans [OF F(2)] by auto
  qed
  then show "x \<noteq> Throw NonTermination" "same_handle s s'" "x = Throw e \<Longrightarrow> represents s' C"
    "x = Ret b \<Longrightarrow> b = (get_size d' \<noteq> get_size d) \<and> represents s' (C(q \<mapsto> d'))"
    "is_ret (fst (find_leaf_page key False s)) \<Longrightarrow> is_ret x" by blast+
qed

text \<open>A sample index of one leaf, in page 2 of the sample file.\<close>

definition sample_ix :: "bytes \<Rightarrow> ix_state" where
  "sample_ix x = \<lparr>ix_fd = 3, ix_hdr = sample_ix_hdr, ix_pool = new_BufferPoolManager 3 (snd (write_page 3 2 x sample_disk))\<rparr>"

lemma sample_ix_page:
  assumes "length x = PAGE_SIZE"
  shows "disk_inv (snd (write_page 3 2 x sample_disk))" "disk_page (snd (write_page 3 2 x sample_disk)) (PageId 3 2) = Some x"
proof -
  let ?d = "snd (write_page 3 2 x sample_disk)"
  have w: "disk_write (PageId 3 2) x sample_disk = (Ret (), ?d)"
    using assms by (simp add: disk_write_def sample_disk_eq write_page_def sys_pwrite_def delivered_def)
  show "disk_page ?d (PageId 3 2) = Some x" by (rule disk.wr_same [OF sample_disk_inv _ w]) (simp add: assms)
  show "disk_inv ?d" by (rule disk.wr_ok [OF sample_disk_inv w])
qed

lemma sample_ix_represents:
  assumes "length x = PAGE_SIZE"
  shows "represents (sample_ix x) [2 \<mapsto> x]"
proof -
  note P = sample_ix_page [OF assms]
  have "lookup (ix_pool (sample_ix x)) (PageId 3 2) = None"
    by (simp add: lookup_def sample_ix_def new_BufferPoolManager_def shard_index_def choose_shard_count_def)
  then have "holds (ix_pool (sample_ix x)) (PageId 3 2) x" using P(2) by (simp add: holds_def sample_ix_def new_BufferPoolManager_def)
  then show ?thesis using pool_ok_new [OF P(1)] by (auto simp: represents_def sample_ix_def INVALID_PAGE_ID_def split: if_splits)
qed

lemma sample_ix_fetch:
  assumes "length x = PAGE_SIZE"
  obtains s1 where "fetch_node 2 (sample_ix x) = (Ret 2, s1)"
proof -
  obtain r buf where b: "read_page 3 2 PAGE_SIZE (snd (write_page 3 2 x sample_disk)) = (r, buf)" by fastforce
  have "r = Ret ()" using read_page_disk [of "PageId 3 2"] b sample_ix_page [OF assms] by (cases r) auto
  then have "fst (fetch_node 2 (sample_ix x)) = Ret 2"
    using b
    by (simp add: fetch_node_def ix_pool_op_def sample_ix_def fetch_page_def find_victim_page_def update_page_def new_BufferPoolManager_def
        choose_shard_count_def shard_index_def set_shard_def set_page_def pin_frame_def erase_def emplace_def numeral_3_eq_3)
  then show thesis using that by (metis prod.collapse)
qed

lemma sample_ix_leaf: "is_leaf_page x \<Longrightarrow> tree_leaf (ix_hdr (sample_ix x)) [2 \<mapsto> x] key (ix_fuel (sample_ix x)) (root_page (ix_hdr (sample_ix x))) = Some 2"
  by (simp add: tree_leaf.simps sample_ix_def sample_ix_hdr_def update_tot_len_def new_IxFileHdr_def IX_INIT_ROOT_PAGE_def)

lemma sample_ix_found:
  assumes "length x = PAGE_SIZE" "is_leaf_page x"
  shows "is_ret (fst (find_leaf_page key False (sample_ix x)))"
proof -
  obtain s1 where f: "fetch_node 2 (sample_ix x) = (Ret 2, s1)" by (rule sample_ix_fetch [OF assms(1)])
  note F = fetch_node_spec [OF sample_ix_represents [OF assms(1)] _ f, of x]
  have "node_bytes 2 s1 = x" using node_atD(1) [OF F(1) F(4)] by simp
  moreover have "root_page (ix_hdr (sample_ix x)) = 2"
    by (simp add: sample_ix_def sample_ix_hdr_def update_tot_len_def new_IxFileHdr_def IX_INIT_ROOT_PAGE_def)
  ultimately show ?thesis
    using f assms(2) by (simp add: find_leaf_page_def is_empty_def IX_NO_PAGE_def bind_op_def descend.simps)
qed

text \<open>A sample index of two nodes: the leaf in page 2, pinned, and its parent in page 3.\<close>

definition sample_child :: bytes where
  "sample_child = set_parent_page_no 3 (sample_node True)"

definition sample_parent :: bytes where
  "sample_parent = set_rid sample_ix_hdr 0 (Rid 2 (- 1)) (sample_node False)"

definition sample_pair :: ix_state where
  "sample_pair = \<lparr>ix_fd = 3, ix_hdr = sample_ix_hdr, ix_pool = new_BufferPoolManager 3
     (snd (write_page 3 3 sample_parent (snd (write_page 3 2 sample_child sample_disk))))\<rparr>"

definition sample_pair_pinned :: ix_state where
  "sample_pair_pinned = snd (fetch_node 2 sample_pair)"

lemma sample_pair_bytes:
  "length sample_child = PAGE_SIZE" "length sample_parent = PAGE_SIZE" "get_parent_page_no sample_child = 3"
  "find_child sample_ix_hdr sample_parent 2 = Ret 0" "get_key sample_ix_hdr 0 sample_parent = get_key sample_ix_hdr 0 sample_child"
proof -
  have l: "length (sample_node b) = PAGE_SIZE" for b using sample_node_ok(1) [of b] by (simp add: node_ok_def)
  have o: "key_off sample_ix_hdr 0 = 24" "rid_off sample_ix_hdr 0 = 1380" "PAGE_SIZE = 4096"
    by (simp_all add: key_off_def rid_off_def sizeof_IxPageHdr_def sample_ix_hdr_def update_tot_len_def new_IxFileHdr_def PAGE_SIZE_def)
  show "length sample_child = PAGE_SIZE" "length sample_parent = PAGE_SIZE"
    by (simp_all add: sample_child_def sample_parent_def set_parent_page_no_def set_rid_def l o)
  show "get_parent_page_no sample_child = 3"
    by (simp add: sample_child_def get_parent_page_no_def set_parent_page_no_def get_put_i32 l o in_i32_def)
  have "get_size sample_parent = 1"
    using sample_node_ok(3) [of False] by (simp add: sample_parent_def get_size_def set_rid_def get_i32_put_disjoint l o)
  moreover have "page_no (get_rid sample_ix_hdr 0 sample_parent) = 2"
    using get_put_same_len [of 1380 "sample_node False"]
    by (simp add: get_rid_def sample_parent_def set_rid_def o l rid_to_bytes_def get_i32_def put_put_adjacent [symmetric] get_put_disjoint
        get_put_same_len le_sint4 in_i32_def)
  ultimately show "find_child sample_ix_hdr sample_parent 2 = Ret 0" by (simp add: find_child_def)
  have "get_key sample_ix_hdr 0 (sample_node b) = le_bytes 4 7" for b
  proof -
    have "node_keys sample_ix_hdr (sample_node b) = [le_bytes 4 7]"
      using map_fst_entries [of sample_ix_hdr "sample_node b"] sample_node_ok(4) [of b] by simp
    then show ?thesis using node_nth(1) [of 0 "sample_node b" sample_ix_hdr] sample_node_ok(3) [of b] by simp
  qed
  then show "get_key sample_ix_hdr 0 sample_parent = get_key sample_ix_hdr 0 sample_child"
    by (simp add: get_key_def sample_parent_def sample_child_def set_rid_def set_parent_page_no_def put_i32_def get_put_disjoint l o sample_ix_hdr_ok)
qed

lemma sample_pair_represents: "represents sample_pair [2 \<mapsto> sample_child, 3 \<mapsto> sample_parent]"
proof -
  let ?d1 = "snd (write_page 3 2 sample_child sample_disk)" and ?d2 = "snd (write_page 3 3 sample_parent (snd (write_page 3 2 sample_child sample_disk)))"
  note B = sample_pair_bytes
  note P = sample_ix_page [OF B(1)]
  have w: "disk_write (PageId 3 3) sample_parent ?d1 = (Ret (), ?d2)"
    using B(1,2) by (simp add: disk_write_def sample_disk_eq write_page_def sys_pwrite_def delivered_def)
  have 1: "disk_page ?d2 (PageId 3 3) = Some sample_parent" by (rule disk.wr_same [OF P(1) _ w]) (simp add: B)
  have 2: "disk_page ?d2 (PageId 3 2) = Some sample_child" by (rule disk.wr_keeps [OF P(1) _ w _ P(2)]) (simp_all add: B)
  have "lookup (ix_pool sample_pair) q = None" for q
    by (simp add: lookup_def sample_pair_def new_BufferPoolManager_def shard_index_def choose_shard_count_def)
  then show ?thesis
    using 1 2 pool_ok_new [OF disk.wr_ok [OF P(1) w]]
    by (auto simp: represents_def holds_def sample_pair_def new_BufferPoolManager_def INVALID_PAGE_ID_def)
qed

lemma sample_pair_fetch: "fetch_node 2 sample_pair = (Ret 2, sample_pair_pinned)" "is_ret (fst (fetch_node 3 sample_pair_pinned))"
proof -
  let ?d = "snd (write_page 3 3 sample_parent (snd (write_page 3 2 sample_child sample_disk)))"
  have lk: "lookup (ix_pool sample_pair) q = None" for q
    by (simp add: lookup_def sample_pair_def new_BufferPoolManager_def shard_index_def choose_shard_count_def)
  have pg: "disk_page ?d (PageId 3 2) = Some sample_child" "disk_page ?d (PageId 3 3) = Some sample_parent"
    using sample_pair_represents lk by (auto simp: represents_def holds_def sample_pair_def new_BufferPoolManager_def split: if_splits)
  obtain r buf where b: "read_page 3 2 PAGE_SIZE ?d = (r, buf)" by fastforce
  obtain r' buf' where b': "read_page 3 3 PAGE_SIZE ?d = (r', buf')" by fastforce
  have "r = Ret ()" "r' = Ret ()"
    using read_page_disk [of "PageId 3 2"] read_page_disk [of "PageId 3 3"] b b' pg by (cases r; cases r'; auto)+
  note eval = fetch_node_def ix_pool_op_def sample_pair_pinned_def sample_pair_def fetch_page_def find_victim_page_def update_page_def
    new_BufferPoolManager_def choose_shard_count_def shard_index_def set_shard_def set_page_def pin_frame_def erase_def emplace_def numeral_3_eq_3
  have "fst (fetch_node 2 sample_pair) = Ret 2" using b \<open>r = Ret ()\<close> by (simp add: eval)
  then show "fetch_node 2 sample_pair = (Ret 2, sample_pair_pinned)" by (simp add: sample_pair_pinned_def prod_eq_iff)
  show "is_ret (fst (fetch_node 3 sample_pair_pinned))" using b b' \<open>r = Ret ()\<close> \<open>r' = Ret ()\<close> by (simp add: eval)
qed

section \<open>Properties\<close>

text \<open>
  C39. For every list of columns with positive lengths of at most \<open>IX_MAX_COL_LEN\<close> bytes in total, the header
  that \<^verbatim>\<open>create_index\<close> writes describes a page that holds the node header and one entry more than the
  order allows; the order is always greater than 2, so the assertion never fails. Longer keys are refused.
\<close>

theorem index_page_layout:
  assumes "cols' \<noteq> []" "\<forall>c \<in> set cols'. 0 < col_len c" "int (length cols') < 2 ^ 20"
  shows "if sum_list (map col_len cols') > IX_MAX_COL_LEN
    then new_index_hdr cols' = Throw (InvalidColLengthError (sum_list (map col_len cols')))
    else \<exists>h. new_index_hdr cols' = Ret h \<and> hdr_ok h \<and> hdr_wf h \<and> 2 < btree_order h \<and>
      key_len h = sum_list (map col_len cols')"
proof (cases "sum_list (map col_len cols') > IX_MAX_COL_LEN")
  case True
  then show ?thesis by (simp add: new_index_hdr_def Let_def)
next
  case False
  let ?t = "sum_list (map col_len cols')" and ?n = "int (length cols')"
  let ?o = "(4096 - 24) div (?t + 8) - 1 :: int"
  have pos: "0 < ?t" using assms(1,2) by (cases cols') (auto intro!: add_pos_nonneg sum_list_nonneg simp: less_imp_le)
  have t: "?t \<le> 512" using False by (simp add: IX_MAX_COL_LEN_def)
  have le: "0 < col_len c \<and> col_len c \<le> 512" if "c \<in> set cols'" for c
  proof -
    have "col_len c \<le> ?t" by (rule member_le_sum_list) (use assms(2) that in \<open>auto simp: less_imp_le\<close>)
    then show ?thesis using assms(2) that t by simp
  qed
  then have le: "- 2147483648 \<le> col_len c" "col_len c < 2147483648" if "c \<in> set cols'" for c using that by force+
  have q: "(4072 :: int) div (?t + 8) * (?t + 8) \<le> 4072" using pos by (simp add: minus_mod_eq_div_mult [symmetric])
  have "4072 div 520 \<le> 4072 div (?t + 8)" by (rule zdiv_mono2) (use pos t in auto)
  then have o: "6 \<le> ?o" by simp
  have "4072 div (?t + 8) \<le> 4072 div 1" by (rule zdiv_mono2) (use pos in auto)
  then have o2: "?o \<le> 4071" by simp
  have ks: "(?o + 1) * ?t \<le> 4072" using q pos by (simp add: algebra_simps) (smt (verit) zero_le_mult_iff o)
  obtain h where h: "new_index_hdr cols' = Ret h"
      "h = update_tot_len ((new_IxFileHdr IX_NO_PAGE IX_INIT_NUM_PAGES IX_INIT_ROOT_PAGE ?n ?t ?o ((?o + 1) * ?t) IX_INIT_ROOT_PAGE IX_INIT_ROOT_PAGE)
         \<lparr>col_types := map col_type cols', col_lens := map col_len cols'\<rparr>)"
    using False o by (simp add: new_index_hdr_def Let_def PAGE_SIZE_def sizeof_IxPageHdr_def)
  have "hdr_ok h"
    using o q pos by (simp add: h hdr_ok_def update_tot_len_def new_IxFileHdr_def PAGE_SIZE_def sizeof_IxPageHdr_def)
  moreover have "in_i32 (coltype_code t)" for t by (cases t) (simp_all add: in_i32_def)
  then have "hdr_wf h"
    using le assms(3) o o2 ks pos t
    by (auto simp: h hdr_wf_def hdr_words_def update_tot_len_def new_IxFileHdr_def in_i32_def IX_NO_PAGE_def
        IX_INIT_NUM_PAGES_def IX_INIT_ROOT_PAGE_def zero_le_mult_iff intro: order_trans [of _ 0])
  ultimately show ?thesis using False h o by (simp add: update_tot_len_def new_IxFileHdr_def)
qed

theorem index_page_layout_witness:
  "\<exists>h. new_index_hdr [\<lparr>col_tab_name = ''t'', col_name = ''a'', col_type = TYPE_INT, col_len = 4, col_offset = 0, col_index = True\<rparr>] = Ret h \<and>
    hdr_ok h \<and> hdr_wf h"
  using index_page_layout [of "[\<lparr>col_tab_name = ''t'', col_name = ''a'', col_type = TYPE_INT, col_len = 4, col_offset = 0, col_index = True\<rparr>]"]
  by (auto simp: IX_MAX_COL_LEN_def)









end
