(* ===== verification/Txn_Manager.thy ===== *)
theory Txn_Manager
  imports Mvcc Lock_Manager Table_Rows Index_Tree
begin

text \<open>
  The transaction manager on the whole system: \<^verbatim>\<open>begin\<close>, \<^verbatim>\<open>commit\<close>, \<^verbatim>\<open>abort\<close>, \<^verbatim>\<open>release_transaction\<close>,
  \<^verbatim>\<open>GarbageCollection\<close> and \<^verbatim>\<open>MvccInsertWithPhysical\<close> of \<^verbatim>\<open>src/src/transaction/transaction_manager.cpp\<close>.

  The state holds every component: the catalog with the open file and index handles, the record files with the
  buffer pool, disk and log below them, the lock manager, the version store, and the transaction objects, which are
  addressed by number because the transaction table and the pool of reusable objects hold pointers. An open index is its
  descriptor and file header; its nodes are in the same buffer pool as the record pages. The log manager is the one
  the buffer pool holds, as \<^verbatim>\<open>rmdb.cpp\<close> sets it up; none means a null pointer. \<^verbatim>\<open>at\<close> on a missing key throws
  \<^verbatim>\<open>std::out_of_range\<close>, here an \<open>InternalError\<close>. \<open>ndebug\<close> says whether assertions are compiled out.
\<close>

section \<open>The system\<close>

record Database =
  sm_db :: DbMeta
  fhs :: "(string \<times> nat) list"
  ihs :: "(string \<times> (int \<times> IxFileHdr)) list"
  rm :: RmSystem
  lock_mgr :: LockManager
  tmgr :: TransactionManager
  txn_objs :: "nat \<Rightarrow> Transaction"
  next_obj :: nat
  txn_map :: "(txn_id_t \<times> nat) list"
  reusable_txns :: "nat \<Rightarrow> nat list"
  next_txn_id :: txn_id_t

type_synonym 'a db_op = "(Database, 'a) op"

definition on_rm :: "'a rm_op \<Rightarrow> 'a db_op" where
  "on_rm c s = (case c (rm s) of (r, x) \<Rightarrow> (r, s\<lparr>rm := x\<rparr>))"

definition out_of_range :: rmdb_error where "out_of_range = InternalError ''map::at''"

definition at_map :: "'k \<Rightarrow> ('k \<times> 'v) list \<Rightarrow> 'v result" where
  "at_map k m = (case map_of m k of None \<Rightarrow> Throw out_of_range | Some v \<Rightarrow> Ret v)"

definition on_index :: "string \<Rightarrow> 'a ix_op \<Rightarrow> 'a db_op" where
  "on_index name c s =
     (case at_map name (ihs s) of
        Inl e \<Rightarrow> (Throw e, s)
      | Inr (fd, h) \<Rightarrow>
          (case c \<lparr>ix_fd = fd, ix_hdr = h, ix_pool = bpm (rm s)\<rparr> of (r, x) \<Rightarrow>
             (r, s\<lparr>ihs := AList.update name (ix_fd x, ix_hdr x) (ihs s), rm := (rm s)\<lparr>bpm := ix_pool x\<rparr>\<rparr>)))"

definition on_store :: "(TransactionManager, 'a) op \<Rightarrow> 'a db_op" where
  "on_store c s = (case c (tmgr s) of (r, m) \<Rightarrow> (r, s\<lparr>tmgr := m\<rparr>))"

definition on_txn :: "nat \<Rightarrow> 'a txn_op \<Rightarrow> 'a db_op" where
  "on_txn a c s = (case c (txn_objs s a, tmgr s) of (r, t, m) \<Rightarrow> (r, s\<lparr>txn_objs := (txn_objs s)(a := t), tmgr := m\<rparr>))"

definition upd_txn :: "nat \<Rightarrow> (Transaction \<Rightarrow> Transaction) \<Rightarrow> Database \<Rightarrow> Database" where
  "upd_txn a f s = s\<lparr>txn_objs := (txn_objs s)(a := f (txn_objs s a))\<rparr>"

definition unlock_db :: "nat \<Rightarrow> LockDataId \<Rightarrow> unit db_op" where
  "unlock_db a lid s =
     (case unlock (txn_objs s a) lid (lock_mgr s) of (_, t, l) \<Rightarrow> (Ret (), s\<lparr>txn_objs := (txn_objs s)(a := t), lock_mgr := l\<rparr>))"

definition file_of :: "string \<Rightarrow> nat db_op" where
  "file_of tab s = (at_map tab (fhs s), s)"

definition fds_of :: "Database \<Rightarrow> string \<Rightarrow> int option" where
  "fds_of s tab = map_option (\<lambda>h. fd_of h (rm s)) (map_of (fhs s) tab)"

text \<open>A record appended to the log on behalf of a transaction; the transaction remembers its number.\<close>

definition has_log :: "Database \<Rightarrow> bool" where
  "has_log s \<longleftrightarrow> log_manager (bpm (rm s)) \<noteq> None"

definition on_log :: "(log_state \<Rightarrow> 'a result \<times> log_state) \<Rightarrow> 'a db_op" where
  "on_log c s =
     (case log_manager (bpm (rm s)) of
        None \<Rightarrow> (Throw AssertionFailure, s)
      | Some lm \<Rightarrow>
          (case c (lm, dm (bpm (rm s))) of (r, lm', d') \<Rightarrow>
             (r, s\<lparr>rm := (rm s)\<lparr>bpm := (bpm (rm s))\<lparr>log_manager := Some lm', dm := d'\<rparr>\<rparr>\<rparr>)))"

definition append_txn_log :: "nat \<Rightarrow> LogRecord \<Rightarrow> lsn_t db_op" where
  "append_txn_log a r =
     bind_op (on_log (add_log_to_buffer r)) (\<lambda>lsn.
     bind_op (modify (upd_txn a (\<lambda>t. t\<lparr>prev_lsn := lsn\<rparr>))) (\<lambda>_. ret lsn))"

section \<open>Index entries of a record\<close>

definition index_name :: "string \<Rightarrow> IndexMeta \<Rightarrow> string" where
  "index_name tab index = get_index_name tab (map col_name (ix_cols index))"

definition insert_index_entries :: "bool \<Rightarrow> string \<Rightarrow> TabMeta \<Rightarrow> bytes \<Rightarrow> Rid \<Rightarrow> unit db_op" where
  "insert_index_entries ndebug tab meta rec rid =
     mapM_op (\<lambda>index. bind_op (on_index (index_name tab index) (insert_entry ndebug (make_index_key rec index) rid)) (\<lambda>_. ret ()))
       (indexes meta)"

definition delete_index_entries :: "bool \<Rightarrow> string \<Rightarrow> TabMeta \<Rightarrow> bytes \<Rightarrow> unit db_op" where
  "delete_index_entries ndebug tab meta rec =
     mapM_op (\<lambda>index. bind_op (on_index (index_name tab index) (delete_entry ndebug (make_index_key rec index))) (\<lambda>_. ret ()))
       (indexes meta)"

section \<open>Objects\<close>

definition TXN_POOL_GRACE_SIZE :: nat where "TXN_POOL_GRACE_SIZE = 64"

definition new_txn :: "nat \<Rightarrow> IsolationLevel \<Rightarrow> bool \<Rightarrow> nat db_op" where
  "new_txn thread lvl track s =
     (let i = next_txn_id s;
          s = s\<lparr>next_txn_id := next_txn_id s + 1\<rparr>;
          (a, s) =
            (case reusable_txns s thread of
               b # rest \<Rightarrow>
                 if Suc (length rest) > TXN_POOL_GRACE_SIZE
                 then (b, upd_txn b (ResetForReuse i lvl) (s\<lparr>reusable_txns := (reusable_txns s)(thread := rest)\<rparr>))
                 else (next_obj s, upd_txn (next_obj s) (\<lambda>_. new_Transaction i lvl) (s\<lparr>next_obj := Suc (next_obj s)\<rparr>))
             | [] \<Rightarrow> (next_obj s, upd_txn (next_obj s) (\<lambda>_. new_Transaction i lvl) (s\<lparr>next_obj := Suc (next_obj s)\<rparr>)));
          s = upd_txn a (\<lambda>t. t\<lparr>mvcc_enabled := (lvl = SNAPSHOT_ISOLATION \<or> lvl = SERIALIZABLE), tracked_in_map := track,
                               txn_state := DEFAULT\<rparr>) s
      in (Ret a, if track then s\<lparr>txn_map := AList.update i a (txn_map s)\<rparr> else s))"

definition begin_txn :: "nat \<Rightarrow> nat option \<Rightarrow> IsolationLevel \<Rightarrow> bool \<Rightarrow> nat db_op" where
  "begin_txn thread txn lvl track =
     bind_op (case txn of None \<Rightarrow> new_txn thread lvl track | Some a \<Rightarrow> ret a) (\<lambda>a.
     bind_op (modify (upd_txn a (\<lambda>t. t\<lparr>txn_state := GROWING\<rparr>))) (\<lambda>_.
     bind_op (modify (\<lambda>s.
       if txn = None
       then (case start_snapshot (txn_objs s a) (tmgr s) of (t, m) \<Rightarrow> s\<lparr>txn_objs := (txn_objs s)(a := t), tmgr := m\<rparr>)
       else s)) (\<lambda>_. ret a)))"

text \<open>Deleting an object only frees its memory: nothing refers to it any more.\<close>

definition release_transaction :: "nat \<Rightarrow> nat option \<Rightarrow> Database \<Rightarrow> Database" where
  "release_transaction thread txn s =
     (case txn of
        None \<Rightarrow> s
      | Some a \<Rightarrow>
          let t = txn_objs s a in
          if txn_state t \<noteq> COMMITTED \<and> txn_state t \<noteq> ABORTED then s
          else if lock_set t \<noteq> [] \<or> index_latch_pages t \<noteq> [] \<or> index_deleted_pages t \<noteq> [] then s
          else
            let can_reuse = (\<not> txn_mode t \<and> \<not> mvcc_enabled t \<and> \<not> has_writes t \<and> write_set t = [] \<and> mvcc_write_keys t = [])
            in
            if \<not> tracked_in_map t \<and> \<not> can_reuse then s
            else if tracked_in_map t \<and> map_of (txn_map s) (txn_id t) \<noteq> Some a then s
            else
              let s = (if tracked_in_map t then s\<lparr>txn_map := AList.delete (txn_id t) (txn_map s)\<rparr> else s)
              in
              if can_reuse
              then (upd_txn a ClearCompletedState s)\<lparr>reusable_txns := (reusable_txns s)(thread := reusable_txns s thread @ [a])\<rparr>
              else s)"

section \<open>Collection\<close>

text \<open>Removing one entry: the row of a deleted one leaves the file first; errors of the file are ignored.\<close>

definition collect_entry :: "string \<Rightarrow> unit db_op" where
  "collect_entry key s =
     (case map_of (mvcc_versions (tmgr s)) key of
        None \<Rightarrow> (Ret (), s)
      | Some entry \<Rightarrow>
          let (r, s) =
                (case map_of (fhs s) (e_tab_name entry) of
                   Some h \<Rightarrow>
                     if e_exists entry \<and> e_is_deleted entry
                     then on_rm (bind_op (is_record h (e_rid entry)) (\<lambda>b. if b then delete_record h (e_rid entry) else ret ())) s
                     else (Ret (), s)
                 | None \<Rightarrow> (Ret (), s))
          in
          (case r of
             Inl e \<Rightarrow> if catchable e then (Ret (), s\<lparr>tmgr := gc_erase key (tmgr s)\<rparr>) else (Throw e, s)
           | Inr _ \<Rightarrow> (Ret (), s\<lparr>tmgr := gc_erase key (tmgr s)\<rparr>)))"

definition GarbageCollection :: "unit db_op" where
  "GarbageCollection s =
     (case gc_scan (tmgr s) of (keys, m) \<Rightarrow>
        bind_op (mapM_op collect_entry keys) (\<lambda>_. modify (\<lambda>s. s\<lparr>tmgr := CleanupSerializableStateLocked (tmgr s)\<rparr>)) (s\<lparr>tmgr := m\<rparr>))"

section \<open>Commit\<close>

definition unregister_write :: "nat \<Rightarrow> WriteRecord \<Rightarrow> unit db_op" where
  "unregister_write a w s =
     (if wtype w \<noteq> INSERT_TUPLE then (Ret (), s)
      else if wr_fd w \<ge> 0
      then (Ret (), s\<lparr>tmgr := UnregisterPhysicalInsert_fd (wr_fd w) (wr_rid w) (Some (txn_objs s a)) (tmgr s)\<rparr>)
      else on_store (UnregisterPhysicalInsert (fds_of s) (wr_tab_name w) (wr_rid w) (Some (txn_objs s a))) s)"

text \<open>The write set is emptied from its end; a record is removed once it has been handled.\<close>

definition pop_write :: "nat \<Rightarrow> unit db_op" where
  "pop_write a = modify (upd_txn a (\<lambda>t. t\<lparr>write_set := butlast (write_set t)\<rparr>))"

definition release_locks :: "nat \<Rightarrow> unit db_op" where
  "release_locks a =
     bind_op (\<lambda>s. mapM_op (unlock_db a) (lock_set (txn_objs s a)) s) (\<lambda>_. modify (upd_txn a (\<lambda>t. t\<lparr>lock_set := []\<rparr>)))"

definition end_log :: "nat \<Rightarrow> bool \<Rightarrow> (txn_id_t \<Rightarrow> lsn_t \<Rightarrow> LogRecord) \<Rightarrow> unit db_op" where
  "end_log a wrote mk s =
     (if wrote \<and> has_log s
      then bind_op (append_txn_log a (mk (txn_id (txn_objs s a)) (prev_lsn (txn_objs s a)))) (\<lambda>lsn. on_log (flush_log_to_disk lsn)) s
      else (Ret (), s))"

text \<open>The part of a commit that concerns versions, with the collection after every 1024th commit.\<close>

definition commit_store :: "nat \<Rightarrow> unit db_op" where
  "commit_store a s =
     (if mvcc_enabled (txn_objs s a) \<or> mvcc_write_keys (txn_objs s a) \<noteq> []
      then
        case commit_mvcc (txn_objs s a) (tmgr s) of (t, m) \<Rightarrow>
          let n = gc_commit_counter m;
              s = s\<lparr>txn_objs := (txn_objs s)(a := t), tmgr := m\<lparr>gc_commit_counter := n + 1\<rparr>\<rparr>
          in if n AND 1023 = 1023 then GarbageCollection s else (Ret (), s)
      else (Ret (), s))"

definition commit :: "nat option \<Rightarrow> unit db_op" where
  "commit txn =
     (case txn of
        None \<Rightarrow> ret ()
      | Some a \<Rightarrow>
          bind_op (\<lambda>s. end_log a (write_set (txn_objs s a) \<noteq> [] \<or> mvcc_write_keys (txn_objs s a) \<noteq> []) new_CommitLogRecord s) (\<lambda>_.
          bind_op (commit_store a) (\<lambda>_.
          bind_op (\<lambda>s. mapM_op (\<lambda>w. bind_op (unregister_write a w) (\<lambda>_. pop_write a)) (rev (write_set (txn_objs s a))) s) (\<lambda>_.
          bind_op (release_locks a) (\<lambda>_.
          modify (upd_txn a (\<lambda>t. t\<lparr>txn_state := COMMITTED\<rparr>)))))))"

section \<open>Abort\<close>

text \<open>Putting the row of a rolled back entry back into the file and the indexes.\<close>

definition undo_row :: "bool \<Rightarrow> nat \<Rightarrow> string \<Rightarrow> TabMeta \<Rightarrow> nat \<Rightarrow> Rid \<Rightarrow> MvccEntry \<Rightarrow> unit db_op" where
  "undo_row ndebug a tab meta h rid entry =
     (if rollback_delete_physical entry then
        bind_op (on_rm (is_record h rid)) (\<lambda>b.
          if b then
            bind_op (on_rm (get_record h rid)) (\<lambda>rec.
            bind_op (delete_index_entries ndebug tab meta rec) (\<lambda>_.
            bind_op (on_rm (delete_record h rid)) (\<lambda>_.
            bind_op (on_rm (GetFd h)) (\<lambda>fd. unlock_db a (LockDataId_record fd rid)))))
          else ret ())
      else if rollback_restore_physical entry then
        let restore_deleted = (case restore_snapshot entry of None \<Rightarrow> False | Some b \<Rightarrow> e_is_deleted b) in
        bind_op (on_rm (is_record h rid)) (\<lambda>b.
        bind_op
          (if b then
             bind_op (on_rm (get_record h rid)) (\<lambda>curr_rec.
             bind_op (delete_index_entries ndebug tab meta curr_rec) (\<lambda>_.
             on_rm (update_record h rid (rollback_record entry))))
           else on_rm (insert_record_at h rid (rollback_record entry))) (\<lambda>_.
        if restore_deleted then ret () else insert_index_entries ndebug tab meta (rollback_record entry) rid))
      else ret ())"

definition abort_write :: "bool \<Rightarrow> nat \<Rightarrow> WriteRecord \<Rightarrow> string list \<Rightarrow> string list db_op" where
  "abort_write ndebug a w processed =
     (let tab = wr_tab_name w; rid = wr_rid w; key = MvccKey tab rid;
          finish_write = (\<lambda>s. if wtype w = INSERT_TUPLE then on_store (UnregisterPhysicalInsert (fds_of s) tab rid (Some (txn_objs s a))) s
                      else (Ret (), s))
      in
      bind_op (lift (\<lambda>s. get_table (sm_db s) tab)) (\<lambda>meta.
      bind_op (file_of tab) (\<lambda>h.
        if key \<in> set processed then bind_op finish_write (\<lambda>_. ret processed)
        else
          bind_op (\<lambda>s.
            case map_of (mvcc_versions (tmgr s)) key of
              None \<Rightarrow> finish_write s
            | Some entry \<Rightarrow>
                if writer_txn entry \<noteq> txn_id (txn_objs s a) then finish_write s
                else
                  bind_op (undo_row ndebug a tab meta h rid entry) (\<lambda>_.
                  bind_op (modify (\<lambda>s. s\<lparr>tmgr := restore_entry tab key entry (tmgr s)\<rparr>)) (\<lambda>_. finish_write)) s) (\<lambda>_.
          ret (key # processed)))))"

fun abort_writes :: "bool \<Rightarrow> nat \<Rightarrow> WriteRecord list \<Rightarrow> string list \<Rightarrow> unit db_op" where
  "abort_writes ndebug a [] processed = ret ()"
| "abort_writes ndebug a (w # ws) processed =
     bind_op (abort_write ndebug a w processed) (\<lambda>processed. abort_writes ndebug a ws processed)"

text \<open>The path without versions: the inverse of each write, from the last to the first.\<close>

definition undo_write :: "bool \<Rightarrow> nat \<Rightarrow> WriteRecord \<Rightarrow> unit db_op" where
  "undo_write ndebug a w =
     (let tab = wr_tab_name w; rid = wr_rid w in
      bind_op (pop_write a) (\<lambda>_.
      bind_op (lift (\<lambda>s. get_table (sm_db s) tab)) (\<lambda>meta.
      bind_op (file_of tab) (\<lambda>h.
        case wtype w of
          INSERT_TUPLE \<Rightarrow>
            bind_op (\<lambda>s. on_store (OwnsPhysicalInsert (fds_of s) tab rid (Some (txn_objs s a))) s) (\<lambda>owns.
            bind_op
              (if owns then
                 bind_op (on_rm (get_record h rid)) (\<lambda>rec.
                 bind_op (delete_index_entries ndebug tab meta rec) (\<lambda>_.
                 bind_op (on_rm (delete_record h rid)) (\<lambda>_.
                 bind_op (on_rm (GetFd h)) (\<lambda>fd. unlock_db a (LockDataId_record fd rid)))))
               else ret ()) (\<lambda>_ s.
            on_store (UnregisterPhysicalInsert (fds_of s) tab rid (Some (txn_objs s a))) s))
        | DELETE_TUPLE \<Rightarrow>
            bind_op (on_rm (insert_record_at h rid (wr_record w))) (\<lambda>_.
            insert_index_entries ndebug tab meta (wr_record w) rid)
        | UPDATE_TUPLE \<Rightarrow>
            bind_op (on_rm (get_record h rid)) (\<lambda>curr_rec.
            bind_op (delete_index_entries ndebug tab meta curr_rec) (\<lambda>_.
            bind_op (on_rm (update_record h rid (wr_record w))) (\<lambda>_.
            insert_index_entries ndebug tab meta (wr_record w) rid)))))))"

definition abort :: "bool \<Rightarrow> nat option \<Rightarrow> unit db_op" where
  "abort ndebug txn =
     (case txn of
        None \<Rightarrow> ret ()
      | Some a \<Rightarrow>
          (\<lambda>s.
            let t = txn_objs s a; ws = rev (write_set t) in
            if mvcc_enabled t \<or> mvcc_write_keys t \<noteq> [] then
              bind_op (modify (upd_txn a (\<lambda>t. t\<lparr>write_set := []\<rparr>))) (\<lambda>_.
              bind_op (abort_writes ndebug a ws []) (\<lambda>_.
              bind_op (modify (\<lambda>s. s\<lparr>tmgr := abort_mvcc (txn_objs s a) (tmgr s)\<rparr>)) (\<lambda>_.
              bind_op (release_locks a) (\<lambda>_.
              bind_op (modify (upd_txn a (\<lambda>t. t\<lparr>txn_state := ABORTED\<rparr>))) (\<lambda>_.
              end_log a (ws \<noteq> [] \<or> mvcc_write_keys t \<noteq> []) new_AbortLogRecord))))) s
            else
              bind_op (mapM_op (undo_write ndebug a) ws) (\<lambda>_.
              bind_op (release_locks a) (\<lambda>_.
              bind_op (modify (upd_txn a (\<lambda>t. t\<lparr>txn_state := ABORTED\<rparr>))) (\<lambda>_.
              end_log a (ws \<noteq> []) new_AbortLogRecord))) s))"

section \<open>Inserting with a version\<close>

text \<open>\<open>h\<close> is the file handle of the caller's two functions: insert the record, delete it again.\<close>

definition MvccInsertWithPhysical :: "nat \<Rightarrow> string \<Rightarrow> bytes \<Rightarrow> nat option \<Rightarrow> Rid db_op" where
  "MvccInsertWithPhysical h tab new_rec txn s =
     (if \<not> ShouldVersionWrites (map_option (txn_objs s) txn) (tmgr s) then on_rm (insert_record h new_rec) s
      else
        bind_op (on_rm (insert_record h new_rec)) (\<lambda>rid s.
          case on_txn (the txn) (MvccInsertLocked tab rid new_rec) s of
            (Inl e, s) \<Rightarrow> if catchable e then bind_op (on_rm (delete_record h rid)) (\<lambda>_. throw e) s else (Throw e, s)
          | (Inr _, s) \<Rightarrow> (Ret rid, s)) s)"

section \<open>Rows of the tables\<close>

definition db_row :: "Database \<Rightarrow> string \<Rightarrow> Rid \<Rightarrow> bytes option" where
  "db_row s tab rid = (case map_of (fhs s) tab of None \<Rightarrow> None | Some h \<Rightarrow> row (rm s) h rid)"

definition db_row_size :: "Database \<Rightarrow> string \<Rightarrow> nat" where
  "db_row_size s tab = (case map_of (fhs s) tab of None \<Rightarrow> 0 | Some h \<Rightarrow> row_size (rm s) h)"

text \<open>Tables are files of their own, and their rows have the record size of the file.\<close>

definition files_ok :: "Database \<Rightarrow> bool" where
  "files_ok s \<longleftrightarrow>
     (\<forall>t t' h h'. map_of (fhs s) t = Some h \<longrightarrow> map_of (fhs s) t' = Some h' \<longrightarrow>
        same_file (rm s) h h' \<or> fd_of h (rm s) = fd_of h' (rm s) \<longrightarrow> t = t') \<and>
     (\<forall>tab rid rec. db_row s tab rid = Some rec \<longrightarrow> length rec = db_row_size s tab)"

text \<open>A step that keeps the catalog, the open files, the record sizes and the name of the transaction.\<close>

definition db_same :: "nat \<Rightarrow> Database \<Rightarrow> Database \<Rightarrow> bool" where
  "db_same a s s' \<longleftrightarrow> fhs s' = fhs s \<and> sm_db s' = sm_db s \<and> same_handles (rm s) (rm s') \<and>
     (\<forall>h. row_size (rm s') h = row_size (rm s) h) \<and> txn_id (txn_objs s' a) = txn_id (txn_objs s a)"

definition quiet_db :: "nat \<Rightarrow> Database \<Rightarrow> Database \<Rightarrow> bool" where
  "quiet_db a s s' \<longleftrightarrow> db_same a s s' \<and> no_edit (rm s) (rm s') \<and> tmgr s' = tmgr s"

lemma db_same_refl [simp]: "db_same a s s"
  by (simp add: db_same_def)

lemma db_same_trans: "db_same a s t \<Longrightarrow> db_same a t u \<Longrightarrow> db_same a s u"
  by (auto simp: db_same_def intro: same_handles_trans)

lemma quiet_db_refl [simp]: "quiet_db a s s"
  by (simp add: quiet_db_def)

lemma quiet_db_trans: "quiet_db a s t \<Longrightarrow> quiet_db a t u \<Longrightarrow> quiet_db a s u"
  by (auto simp: quiet_db_def intro: db_same_trans no_edit_trans)

lemma quiet_db_row: "quiet_db a s s' \<Longrightarrow> db_row s' tab rid = db_row s tab rid"
  by (simp add: quiet_db_def db_same_def no_edit_def db_row_def split: option.split)

lemma mapM_op_trans:
  assumes "\<And>s. Q s s" and tr: "\<And>s t u. Q s t \<Longrightarrow> Q t u \<Longrightarrow> Q s u"
    and step: "\<And>x s r s'. f x s = (r, s') \<Longrightarrow> Q s s'" and run: "mapM_op f xs s = (r, s')"
  shows "Q s s'"
  using run
proof (induction xs arbitrary: s)
  case Nil
  then show ?case using assms(1) by simp
next
  case (Cons x xs)
  from Cons.prems have "bind_op (f x) (\<lambda>_. mapM_op f xs) s = (r, s')" by simp
  then show ?case
    by (cases rule: bind_op_cases) (use step tr Cons.IH in blast)+
qed

lemma quiet_on_index: "on_index name c s = (r, s') \<Longrightarrow> quiet_db a s s'"
  by (auto simp: on_index_def quiet_db_def db_same_def same_handles_def no_edit_def row_def row_size_def
      split: sum.splits prod.splits)

lemma quiet_discard: "bind_op c (\<lambda>_. ret ()) s = (r, s') \<Longrightarrow> (\<And>r1. c s = (r1, s') \<Longrightarrow> quiet_db a s s') \<Longrightarrow> quiet_db a s s'"
  by (erule bind_op_cases) auto

lemma quiet_delete_index: "delete_index_entries ndebug tab meta rec s = (r, s') \<Longrightarrow> quiet_db a s s'"
  unfolding delete_index_entries_def
  by (rule mapM_op_trans [where Q = "quiet_db a"]) (auto intro: quiet_db_trans elim!: quiet_discard quiet_on_index)

lemma quiet_insert_index: "insert_index_entries ndebug tab meta rec rid s = (r, s') \<Longrightarrow> quiet_db a s s'"
  unfolding insert_index_entries_def
  by (rule mapM_op_trans [where Q = "quiet_db a"]) (auto intro: quiet_db_trans elim!: quiet_discard quiet_on_index)

lemma quiet_pop_write: "pop_write a s = (r, s') \<Longrightarrow> quiet_db a s s'"
  by (auto simp: pop_write_def upd_txn_def quiet_db_def db_same_def)

lemma quiet_unlock: "unlock_db a lid s = (r, s') \<Longrightarrow> quiet_db a s s'"
  by (auto simp: unlock_db_def unlock_def start_shrinking_def lock_set_erase_def quiet_db_def db_same_def Let_def
      split: prod.splits option.splits if_splits)

lemma quiet_on_log: "on_log c s = (r, s') \<Longrightarrow> quiet_db a s s'"
  by (auto simp: on_log_def quiet_db_def db_same_def same_handles_def no_edit_def row_def row_size_def
      split: option.splits prod.splits)

lemma quiet_end_log: "end_log a wrote mk s = (r, s') \<Longrightarrow> quiet_db a s s'"
  unfolding end_log_def append_txn_log_def
  by (auto split: if_splits elim!: bind_op_cases dest!: quiet_on_log [where a = a] intro: quiet_db_trans
      simp: upd_txn_def quiet_db_def db_same_def no_edit_def same_handles_def)

lemma quiet_release_locks: "release_locks a s = (r, s') \<Longrightarrow> quiet_db a s s'"
  unfolding release_locks_def
  by (auto elim!: bind_op_cases dest!: mapM_op_trans [where Q = "quiet_db a", rotated 3] intro: quiet_db_trans quiet_unlock
      simp: upd_txn_def) (auto simp: quiet_db_def db_same_def)

section \<open>Undoing one write\<close>

type_synonym place = "string \<times> int"

definition place :: "WriteRecord \<Rightarrow> place" where
  "place w = (wr_tab_name w, memory_key (wr_rid w))"

text \<open>The row as it was before the write.\<close>

definition before_image :: "WriteRecord \<Rightarrow> bytes option" where
  "before_image w = (if wtype w = INSERT_TUPLE then None else Some (wr_record w))"

definition owned :: "Database \<Rightarrow> nat \<Rightarrow> WriteRecord \<Rightarrow> bool" where
  "owned s a w \<longleftrightarrow>
     (case fds_of s (wr_tab_name w) of
        None \<Rightarrow> False
      | Some fd \<Rightarrow> OwnsPhysicalInsert_fd fd (wr_rid w) (Some (txn_objs s a)) (tmgr s))"

definition db_sets :: "nat \<Rightarrow> place \<Rightarrow> bytes option \<Rightarrow> Database \<Rightarrow> Database \<Rightarrow> bool" where
  "db_sets a p v s s' \<longleftrightarrow> db_same a s s' \<and> tmgr s' = tmgr s \<and>
     (\<forall>tab rid. db_row s' tab rid = (if (tab, memory_key rid) = p then v else db_row s tab rid))"

lemma db_sets_quiet: "db_sets a p v s t \<Longrightarrow> quiet_db a t u \<Longrightarrow> db_sets a p v s u"
  by (auto simp: db_sets_def quiet_db_row dest: db_same_trans) (auto simp: quiet_db_def dest: db_same_trans)

lemma quiet_db_sets: "quiet_db a s t \<Longrightarrow> db_sets a p v t u \<Longrightarrow> db_sets a p v s u"
  by (auto simp: db_sets_def quiet_db_row) (auto simp: quiet_db_def dest: db_same_trans)

lemma files_ok_quiet: "quiet_db a s t \<Longrightarrow> files_ok t = files_ok s"
  unfolding files_ok_def by (simp add: quiet_db_row) (auto simp: quiet_db_def db_same_def same_handles_file db_row_size_def split: option.splits)

lemma on_rm_sets:
  assumes "on_rm c s = (Ret x, s')" and h: "map_of (fhs s) tab = Some h" and ok: "files_ok s"
    and eff: "\<And>t. c (rm s) = (Ret x, t) \<Longrightarrow> sets_row h rid v (rm s) t"
  shows "db_sets a (tab, memory_key rid) v s s'"
proof -
  obtain t where t: "c (rm s) = (Ret x, t)" "s' = s\<lparr>rm := t\<rparr>" using assms(1) by (auto simp: on_rm_def split: prod.splits)
  note e = eff [OF t(1)]
  have "same_file (rm s) h' h \<longleftrightarrow> tab' = tab" if "map_of (fhs s) tab' = Some h'" for tab' h'
    using ok that h unfolding files_ok_def by (metis option.inject same_file_def)
  then show ?thesis
    using e h t(2) by (auto simp: db_sets_def db_same_def sets_row_def db_row_def split: option.split)
qed

lemma on_rm_get:
  assumes "on_rm (get_record h rid) s = (Ret rec, s')" shows "s' = s" "row (rm s) h rid = Some rec"
  using assms get_record_rows [of h rid "rm s"] by (auto simp: on_rm_def split: prod.splits)

lemma on_rm_GetFd:
  assumes "on_rm (GetFd h) s = (Ret fd, s')" shows "s' = s"
  using assms GetFd_rows [of h "rm s"] by (auto simp: on_rm_def split: prod.splits)

lemma on_store_owns:
  assumes "on_store (OwnsPhysicalInsert (fds_of s) (wr_tab_name w) (wr_rid w) (Some (txn_objs s a))) s = (Ret b, s')"
  shows "s' = s" "b = owned s a w"
  using assms by (auto simp: on_store_def OwnsPhysicalInsert_def MakePhysicalInsertKey_def MakePhysicalInsertKey_fd_def owned_def
      split: option.splits prod.splits sum.splits)

definition insert_key :: "Database \<Rightarrow> WriteRecord \<Rightarrow> PhysicalInsertKey option" where
  "insert_key s w = map_option (\<lambda>fd. MakePhysicalInsertKey_fd fd (wr_rid w)) (fds_of s (wr_tab_name w))"

lemma owned_key:
  "owned s a w \<longleftrightarrow> (\<exists>k. insert_key s w = Some k \<and> map_of (physical_insert_owners (tmgr s)) k = Some (txn_id (txn_objs s a)))"
  by (simp add: owned_def insert_key_def OwnsPhysicalInsert_fd_def split: option.split)

text \<open>What undoing a write does to the rows and to the register of inserted rows.\<close>

definition undone :: "nat \<Rightarrow> WriteRecord \<Rightarrow> Database \<Rightarrow> Database \<Rightarrow> bool" where
  "undone a w s s' \<longleftrightarrow> db_same a s s' \<and>
     (\<forall>tab rid. db_row s' tab rid =
        (if (tab, memory_key rid) = place w \<and> (wtype w = INSERT_TUPLE \<longrightarrow> owned s a w) then before_image w else db_row s tab rid)) \<and>
     (\<forall>k. map_of (physical_insert_owners (tmgr s')) k =
        (if wtype w = INSERT_TUPLE \<and> owned s a w \<and> insert_key s w = Some k then None
         else map_of (physical_insert_owners (tmgr s)) k))"

lemma on_store_unregister:
  assumes "on_store (UnregisterPhysicalInsert (fds_of s) (wr_tab_name w) (wr_rid w) (Some (txn_objs s a))) s = (Ret x, s')"
  shows "db_same a s s'" "rm s' = rm s" "map_of (physical_insert_owners (tmgr s')) k =
    (if owned s a w \<and> insert_key s w = Some k then None else map_of (physical_insert_owners (tmgr s)) k)"
  using assms
  by (auto simp: on_store_def UnregisterPhysicalInsert_def UnregisterPhysicalInsert_fd_def MakePhysicalInsertKey_def
      MakePhysicalInsertKey_fd_def owned_key insert_key_def delete_conv' db_same_def Let_def split: option.splits prod.splits if_splits)

lemma fds_of_same: "db_same a s s' \<Longrightarrow> fds_of s' = fds_of s"
  by (auto simp: db_same_def fds_of_def same_handles_def fun_eq_iff map_option_case split: option.split)

lemma insert_key_same: "db_same a s s' \<Longrightarrow> insert_key s' w = insert_key s w"
  by (simp add: insert_key_def fds_of_same)

lemma owned_same: "db_same a s s' \<Longrightarrow> tmgr s' = tmgr s \<Longrightarrow> owned s' a w = owned s a w"
  by (simp add: owned_key insert_key_same) (simp add: db_same_def)

lemma db_row_size_same: "db_same a s s' \<Longrightarrow> db_row_size s' tab = db_row_size s tab"
  by (auto simp: db_same_def db_row_size_def split: option.split)

lemma db_sets_undone:
  assumes "db_sets a (place w) (before_image w) s s'" and "wtype w \<noteq> INSERT_TUPLE"
  shows "undone a w s s'"
  using assms by (auto simp: db_sets_def undone_def)

lemma files_ok_undone:
  assumes u: "undone a w s s'" and ok: "files_ok s"
    and len: "wtype w \<noteq> INSERT_TUPLE \<Longrightarrow> length (wr_record w) = db_row_size s (wr_tab_name w)"
  shows "files_ok s'"
proof -
  have d: "db_same a s s'" using u by (simp add: undone_def)
  have "length rec = db_row_size s' tab" if "db_row s' tab rid = Some rec" for tab rid rec
    using that u ok len
    by (auto simp: undone_def files_ok_def db_row_size_same [OF d] place_def before_image_def split: if_splits)
  moreover have "fhs s' = fhs s" "same_handles (rm s) (rm s')" using d by (simp_all add: db_same_def)
  ultimately show ?thesis using ok unfolding files_ok_def by (auto simp: same_handles_file)
qed

lemma undo_insert:
  assumes ok: "files_ok s" and h: "map_of (fhs s) (wr_tab_name w) = Some h" and w: "wtype w = INSERT_TUPLE"
    and own: "on_store (OwnsPhysicalInsert (fds_of s) (wr_tab_name w) (wr_rid w) (Some (txn_objs s a))) s = (Ret owns, s1)"
    and del: "(if owns then
                 bind_op (on_rm (get_record h (wr_rid w))) (\<lambda>rec.
                 bind_op (delete_index_entries ndebug (wr_tab_name w) meta rec) (\<lambda>_.
                 bind_op (on_rm (delete_record h (wr_rid w))) (\<lambda>_.
                 bind_op (on_rm (GetFd h)) (\<lambda>fd. unlock_db a (LockDataId_record fd (wr_rid w))))))
               else ret ()) s1 = (Ret u, s2)"
    and unreg: "on_store (UnregisterPhysicalInsert (fds_of s2) (wr_tab_name w) (wr_rid w) (Some (txn_objs s2 a))) s2 = (Ret x, s')"
  shows "undone a w s s'"
proof -
  note o = on_store_owns [OF own]
  have s2: "db_same a s s2" "tmgr s2 = tmgr s"
      "\<And>tab rid. db_row s2 tab rid = (if (tab, memory_key rid) = place w \<and> owned s a w then None else db_row s tab rid)"
  proof -
    have "(if owns then db_sets a (place w) None s s2 else s2 = s)"
    proof (cases owns)
      case True
      then obtain rec t1 v t2 t3 fd where st: "on_rm (get_record h (wr_rid w)) s = (Ret rec, t1)"
          "delete_index_entries ndebug (wr_tab_name w) meta rec t1 = (Ret (), t2)"
          "on_rm (delete_record h (wr_rid w)) t2 = (Ret v, t3)" "\<exists>t4. on_rm (GetFd h) t3 = (Ret fd, t4) \<and>
            unlock_db a (LockDataId_record fd (wr_rid w)) t4 = (Ret u, s2)"
        using del o by (auto simp: bind_op_eq_Ret)
      have t1: "t1 = s" using on_rm_get [OF st(1)] by simp
      have q: "quiet_db a s t2" using quiet_delete_index [OF st(2)] t1 by simp
      have h2: "map_of (fhs t2) (wr_tab_name w) = Some h" using h q by (simp add: quiet_db_def db_same_def)
      have "db_sets a (wr_tab_name w, memory_key (wr_rid w)) None t2 t3"
        by (rule on_rm_sets [OF st(3) h2]) (use ok files_ok_quiet [OF q] delete_record_rows in fastforce)+
      moreover have "quiet_db a t3 s2" using st(4) on_rm_GetFd quiet_unlock by blast
      ultimately have "db_sets a (place w) None s s2"
        using quiet_db_sets [OF q] db_sets_quiet unfolding place_def by blast
      then show ?thesis using True by simp
    qed (use del o in simp)
    then show "db_same a s s2" "tmgr s2 = tmgr s"
        "\<And>tab rid. db_row s2 tab rid = (if (tab, memory_key rid) = place w \<and> owned s a w then None else db_row s tab rid)"
      using o by (auto simp: db_sets_def split: if_splits)
  qed
  note U = on_store_unregister [OF unreg]
  have "db_row s' tab rid = db_row s2 tab rid" for tab rid
    using U(1,2) by (simp add: db_same_def db_row_def split: option.split)
  then show ?thesis
    using s2 U(3) db_same_trans [OF s2(1) U(1)] w
    by (simp add: undone_def before_image_def owned_same [OF s2(1,2)] insert_key_same [OF s2(1)])
qed

lemma undo_write_undone:
  assumes u: "undo_write ndebug a w s = (Ret (), s')" and ok: "files_ok s"
    and len: "wtype w \<noteq> INSERT_TUPLE \<Longrightarrow> length (wr_record w) = db_row_size s (wr_tab_name w)"
  shows "undone a w s s'"
proof -
  let ?tab = "wr_tab_name w" and ?rid = "wr_rid w"
  obtain t where t: "pop_write a s = (Ret (), t)" by (simp add: pop_write_def)
  note q = quiet_pop_write [OF t]
  obtain meta h where mh: "get_table (sm_db t) ?tab = Ret meta" "map_of (fhs t) ?tab = Some h"
    using u t by (auto simp: undo_write_def Let_def bind_op_eq_Ret file_of_def at_map_def split: option.splits)
  have okt: "files_ok t" using ok files_ok_quiet [OF q] by simp
  have lent: "wtype w \<noteq> INSERT_TUPLE \<Longrightarrow> length (wr_record w) = row_size (rm t) h"
    using len q mh(2) by (auto simp: quiet_db_def db_same_def db_row_size_def split: option.splits)
  have st: "lift (\<lambda>s. get_table (sm_db s) ?tab) t = (Ret meta, t)" "file_of ?tab t = (Ret h, t)"
    using mh by (simp_all add: file_of_def at_map_def)
  note body = u [unfolded undo_write_def Let_def bind_op_Ret [where m = "pop_write a", OF t]
      bind_op_Ret [where m = "lift _", OF st(1)] bind_op_Ret [where m = "file_of _", OF st(2)]]
  have undo: "undone a w t s'"
  proof (cases "wtype w")
    case INSERT_TUPLE
    have "\<exists>owns s1 x s2. on_store (OwnsPhysicalInsert (fds_of t) ?tab ?rid (Some (txn_objs t a))) t = (Ret owns, s1) \<and>
        (if owns then
           bind_op (on_rm (get_record h ?rid)) (\<lambda>rec.
           bind_op (delete_index_entries ndebug ?tab meta rec) (\<lambda>_.
           bind_op (on_rm (delete_record h ?rid)) (\<lambda>_.
           bind_op (on_rm (GetFd h)) (\<lambda>fd. unlock_db a (LockDataId_record fd ?rid)))))
         else ret ()) s1 = (Ret x, s2) \<and>
        on_store (UnregisterPhysicalInsert (fds_of s2) ?tab ?rid (Some (txn_objs s2 a))) s2 = (Ret (), s')"
      using body INSERT_TUPLE by (simp only: WType.case bind_op_eq_Ret ex_simps)
    then show ?thesis using undo_insert [OF okt mh(2) INSERT_TUPLE] by blast
  next
    case DELETE_TUPLE
    then obtain x t1 where st: "on_rm (insert_record_at h ?rid (wr_record w)) t = (Ret x, t1)"
        "insert_index_entries ndebug ?tab meta (wr_record w) ?rid t1 = (Ret (), s')"
      using body by (auto simp: bind_op_eq_Ret)
    have "db_sets a (?tab, memory_key ?rid) (Some (wr_record w)) t t1"
      by (rule on_rm_sets [OF st(1) mh(2) okt]) (use insert_record_at_rows lent DELETE_TUPLE in fastforce)
    then show ?thesis
      using db_sets_quiet [OF _ quiet_insert_index [OF st(2)]] DELETE_TUPLE
      by (intro db_sets_undone) (simp_all add: place_def before_image_def)
  next
    case UPDATE_TUPLE
    then obtain rec t0 t1 x t2 where st: "on_rm (get_record h ?rid) t = (Ret rec, t0)"
        "delete_index_entries ndebug ?tab meta rec t0 = (Ret (), t1)"
        "on_rm (update_record h ?rid (wr_record w)) t1 = (Ret x, t2)"
        "insert_index_entries ndebug ?tab meta (wr_record w) ?rid t2 = (Ret (), s')"
      using body by (auto simp: bind_op_eq_Ret)
    have r: "t0 = t" "row (rm t) h ?rid = Some rec" using on_rm_get [OF st(1)] by simp_all
    have q1: "quiet_db a t t1" using quiet_delete_index [OF st(2)] r(1) by simp
    have h1: "map_of (fhs t1) ?tab = Some h" "row (rm t1) h ?rid = Some rec" "files_ok t1"
      using mh(2) q1 r(2) okt files_ok_quiet [OF q1] by (auto simp: quiet_db_def db_same_def no_edit_def)
    have "length rec = row_size (rm t) h"
      using okt mh(2) r(2) unfolding files_ok_def db_row_def db_row_size_def by (metis option.simps(5))
    then have l: "take (length rec) (wr_record w) = wr_record w" using lent UPDATE_TUPLE by simp
    have "db_sets a (?tab, memory_key ?rid) (Some (wr_record w)) t1 t2"
      by (rule on_rm_sets [OF st(3) h1(1,3)]) (use update_record_rows h1(2) l in fastforce)
    then show ?thesis
      using quiet_db_sets [OF q1 db_sets_quiet [OF _ quiet_insert_index [OF st(4)]]] UPDATE_TUPLE
      by (intro db_sets_undone) (simp_all add: place_def before_image_def)
  qed
  have d: "db_same a s t" "tmgr t = tmgr s" using q by (simp_all add: quiet_db_def)
  show ?thesis
    using undo db_same_trans [OF d(1)] by (auto simp: undone_def owned_same [OF d] insert_key_same [OF d(1)] quiet_db_row [OF q] d(2))
qed

section \<open>Undoing a write set\<close>

text \<open>The row as it was before the first write of the list to it.\<close>

fun before :: "WriteRecord list \<Rightarrow> place \<Rightarrow> bytes option option" where
  "before [] p = None"
| "before (w # ws) p = (if place w = p then Some (before_image w) else before ws p)"

abbreviation inserts :: "WriteRecord list \<Rightarrow> WriteRecord list" where
  "inserts ws \<equiv> filter (\<lambda>w. wtype w = INSERT_TUPLE) ws"

lemma mapM_op_append: "mapM_op f (xs @ ys) s = bind_op (mapM_op f xs) (\<lambda>_. mapM_op f ys) s"
  by (induction xs arbitrary: s) (auto simp: bind_op_def split: prod.split sum.split)

lemma insert_key_place:
  assumes "files_ok s" and "insert_key s w = Some k" and "insert_key s w' = Some k"
  shows "place w = place w'"
  using assms unfolding files_ok_def
  by (auto simp: insert_key_def fds_of_def MakePhysicalInsertKey_fd_def place_def memory_key_def)

lemma undo_writes_undone:
  assumes "mapM_op (undo_write ndebug a) (rev ws) s = (Ret (), s')" and "files_ok s"
    and "\<forall>w\<in>set ws. if wtype w = INSERT_TUPLE then owned s a w else length (wr_record w) = db_row_size s (wr_tab_name w)"
    and "distinct (map place (inserts ws))"
  shows "db_same a s s' \<and> files_ok s' \<and>
    (\<forall>tab rid. db_row s' tab rid = (case before ws (tab, memory_key rid) of None \<Rightarrow> db_row s tab rid | Some v \<Rightarrow> v)) \<and>
    (\<forall>k. map_of (physical_insert_owners (tmgr s')) k =
      (if \<exists>w\<in>set (inserts ws). insert_key s w = Some k then None else map_of (physical_insert_owners (tmgr s)) k))"
  using assms
proof (induction ws arbitrary: s')
  case Nil
  then show ?case by simp
next
  case (Cons w ws)
  obtain t where t: "mapM_op (undo_write ndebug a) (rev ws) s = (Ret (), t)" "undo_write ndebug a w t = (Ret (), s')"
    using Cons.prems(1) by (auto simp: mapM_op_append bind_op_eq_Ret)
  have "distinct (map place (inserts ws))" using Cons.prems(4) by (auto split: if_splits)
  then have I: "db_same a s t" "files_ok t"
      "\<And>tab rid. db_row t tab rid = (case before ws (tab, memory_key rid) of None \<Rightarrow> db_row s tab rid | Some v \<Rightarrow> v)"
      "\<And>k. map_of (physical_insert_owners (tmgr t)) k =
        (if \<exists>w\<in>set (inserts ws). insert_key s w = Some k then None else map_of (physical_insert_owners (tmgr s)) k)"
    using Cons.IH [OF t(1) Cons.prems(2)] Cons.prems(3) by simp_all
  have len: "wtype w \<noteq> INSERT_TUPLE \<Longrightarrow> length (wr_record w) = db_row_size t (wr_tab_name w)"
    using Cons.prems(3) by (simp add: db_row_size_same [OF I(1)])
  have own: "owned t a w" if "wtype w = INSERT_TUPLE"
  proof -
    have o: "owned s a w" using that Cons.prems(3) by simp
    then obtain k where k: "insert_key s w = Some k" by (auto simp: owned_key)
    have "insert_key s w' \<noteq> Some k" if "w' \<in> set (inserts ws)" for w'
      using insert_key_place [OF Cons.prems(2) k] Cons.prems(4) that \<open>wtype w = INSERT_TUPLE\<close> by force
    then show ?thesis
      using o k I(1,4) by (auto simp: owned_key insert_key_same [OF I(1)] db_same_def)
  qed
  note u = undo_write_undone [OF t(2) I(2) len]
  have "files_ok s'" by (rule files_ok_undone [OF u I(2) len])
  moreover have "db_same a s s'" using u db_same_trans [OF I(1)] by (simp add: undone_def)
  moreover have "db_row s' tab rid = (case before (w # ws) (tab, memory_key rid) of None \<Rightarrow> db_row s tab rid | Some v \<Rightarrow> v)"
    for tab rid using u own I(3) by (simp add: undone_def)
  moreover have "map_of (physical_insert_owners (tmgr s')) k =
      (if \<exists>w\<in>set (inserts (w # ws)). insert_key s w = Some k then None else map_of (physical_insert_owners (tmgr s)) k)" for k
    using u own I(4) by (auto simp: undone_def insert_key_same [OF I(1)])
  ultimately show ?case by blast
qed

lemma release_locks_state:
  assumes "release_locks a s = (Ret (), s')"
  shows "lock_set (txn_objs s' a) = []"
  using assms by (auto simp: release_locks_def upd_txn_def bind_op_eq_Ret)

lemma end_log_lock_set: "end_log a wrote mk s = (r, s') \<Longrightarrow>
    lock_set (txn_objs s' a) = lock_set (txn_objs s a) \<and> txn_state (txn_objs s' a) = txn_state (txn_objs s a)"
  by (auto simp: end_log_def append_txn_log_def on_log_def upd_txn_def split: if_splits prod.splits option.splits elim!: bind_op_cases)

section \<open>Logging the end of a transaction\<close>

lemma flush_buffer_no_fault:
  assumes "no_fault (snd s)" and "flush_buffer_locked s = (r, s')"
  shows "no_fault (snd s')"
proof -
  obtain lm d where a: "await_flush s = (lm, d)" by fastforce
  have "no_fault d" using flush_finish_no_fault [OF assms(1)] a assms(1) by (auto simp: await_flush_def split: if_splits)
  then obtain s1 where "flush_finish (flush_start lm, d) = (Ret (), s1)" "no_fault (snd s1)"
    using flush_finish_no_fault [of "(flush_start lm, d)"] by auto
  then show ?thesis using assms(2) \<open>no_fault d\<close> by (auto simp: flush_buffer_locked_def a split: if_splits)
qed

lemma add_log_no_fault: "no_fault (snd s) \<Longrightarrow> add_log_to_buffer r s = (x, s') \<Longrightarrow> no_fault (snd s')"
proof (induction r s rule: add_log_to_buffer.induct)
  case (1 r s)
  obtain r1 s1 where f: "flush_buffer_locked s = (r1, s1)" by (rule prod.exhaust)
  show ?case
    using "1.prems" "1.IH" f flush_buffer_no_fault [OF "1.prems"(1) f]
    by (subst (asm) add_log_to_buffer.simps) (auto split: if_splits sum.splits prod.splits)
qed

text \<open>The records of a system whose log started empty at \<open>d0\<close> and never lost a write.\<close>

definition db_log :: "DiskManager \<Rightarrow> LogRecord list \<Rightarrow> Database \<Rightarrow> bool" where
  "db_log d0 rs s \<longleftrightarrow> log_ready d0 \<and>
     (\<exists>lm. log_manager (bpm (rm s)) = Some lm \<and> log_run (new_LogManager, d0) rs True (lm, dm (bpm (rm s))))"

definition log_on_disk :: "Database \<Rightarrow> bytes" where
  "log_on_disk s = log_content (dm (bpm (rm s)))"

lemma end_log_durable:
  assumes log: "db_log d0 rs s" and nf: "no_fault (dm (bpm (rm s)))" and n: "Suc (length rs) < 2 ^ 31"
    and mk: "\<And>i l. log_tot_len (mk i l) \<le> int LOG_BUFFER_SIZE"
  shows "\<exists>s'. end_log a True mk s = (Ret (), s') \<and>
    log_on_disk s' = log_content d0 @ concat (map serialize (rs @ [set_lsn (int (length rs)) (mk (txn_id (txn_objs s a)) (prev_lsn (txn_objs s a)))])) \<and>
    log_ready (dm (bpm (rm s'))) \<and> tmgr s' = tmgr s \<and> fhs s' = fhs s \<and> lock_mgr s' = lock_mgr s \<and> fds_of s' = fds_of s \<and>
    txn_objs s' = (txn_objs s)(a := (txn_objs s a)\<lparr>prev_lsn := int (length rs)\<rparr>)"
proof -
  let ?r = "mk (txn_id (txn_objs s a)) (prev_lsn (txn_objs s a))"
  obtain lm where lm: "log_ready d0" "log_manager (bpm (rm s)) = Some lm"
      "log_run (new_LogManager, d0) rs True (lm, dm (bpm (rm s)))"
    using log by (auto simp: db_log_def)
  obtain lsn lm1 d1 where add: "add_log_to_buffer ?r (lm, dm (bpm (rm s))) = (Ret lsn, lm1, d1)"
      "log_run (new_LogManager, d0) (rs @ [set_lsn lsn ?r]) True (lm1, d1)"
    using add_log_run [OF lm(3), of ?r] mk nf by auto
  have nf1: "no_fault (snd (lm1, d1))" using add_log_no_fault [OF _ add(1)] nf by simp
  obtain x y where i1: "log_inv (log_content d0) (rs @ [set_lsn lsn ?r]) x y (lm1, d1)"
    using log_run_inv [OF add(2) refl lm(1)] n by auto
  then have "log_lsn ((rs @ [set_lsn lsn ?r]) ! length rs) = int (length rs)" by (auto simp: log_inv_def)
  then have lsn: "lsn = int (length rs)" by simp
  then have nlsn: "lsn \<noteq> INVALID_LSN" by (simp add: INVALID_LSN_def)
  obtain lm2 d2 where fl: "flush_log_to_disk lsn (lm1, d1) = (Ret (), lm2, d2)"
      "log_run (new_LogManager, d0) (rs @ [set_lsn lsn ?r]) True (lm2, d2)"
      "lsn \<le> persist_lsn lm2 \<or> (log_buffer lm2 = [] \<and> \<not> flush_in_progress lm2)"
    using flush_loop_run [OF add(2) nf1, of lsn] nlsn by (auto simp: flush_log_to_disk_def)
  obtain x' y' where i2: "log_inv (log_content d0) (rs @ [set_lsn lsn ?r]) x' y' (lm2, d2)"
    using log_run_inv [OF fl(2) refl lm(1)] n by auto
  have "x' = Suc (length rs)"
    using fl(3) i2 lsn by (auto simp: log_inv_def)
  then have c: "log_content d2 = log_content d0 @ concat (map serialize (rs @ [set_lsn lsn ?r]))" "log_ready d2"
    using i2 by (auto simp: log_inv_def)
  show ?thesis
    using add(1) fl(1) c lm(2) lsn
    by (simp add: end_log_def has_log_def append_txn_log_def on_log_def bind_op_def upd_txn_def log_on_disk_def fds_of_def fun_eq_iff)
qed

lemma mapM_op_total:
  assumes "\<And>x s. x \<in> set xs \<Longrightarrow> I s \<Longrightarrow> \<exists>s'. f x s = (Ret (), s') \<and> I s'" and "I s"
  shows "\<exists>s'. mapM_op f xs s = (Ret (), s') \<and> I s'"
  using assms
proof (induction xs arbitrary: s)
  case (Cons x xs)
  obtain s1 where s1: "f x s = (Ret (), s1)" "I s1" using Cons.prems by fastforce
  then obtain s' where "mapM_op f xs s1 = (Ret (), s')" "I s'" using Cons.IH [of s1] Cons.prems by auto
  then show ?case using s1 by (auto simp: bind_op_def)
qed simp

lemma release_locks_total:
  "\<exists>s'. release_locks a s = (Ret (), s') \<and> rm s' = rm s \<and> lock_set (txn_objs s' a) = []"
proof -
  have "\<exists>s'. unlock_db a lid u = (Ret (), s') \<and> rm s' = rm s" if "rm u = rm s" for lid u
    using that by (auto simp: unlock_db_def split: prod.split)
  then obtain s1 where "mapM_op (unlock_db a) (lock_set (txn_objs s a)) s = (Ret (), s1)" "rm s1 = rm s"
    using mapM_op_total [where I = "\<lambda>u. rm u = rm s" and f = "unlock_db a"] by blast
  then show ?thesis by (simp add: release_locks_def bind_op_def upd_txn_def)
qed

lemma forget_txn_counter: "gc_commit_counter (fold forget_txn is tm) = gc_commit_counter tm"
  by (induction "is" arbitrary: tm) (simp_all add: forget_txn_def Let_def)

lemma stamp_key_counter: "gc_commit_counter (fold (stamp_key i ts) ks tm) = gc_commit_counter tm"
  by (induction ks arbitrary: tm) (simp_all add: stamp_key_def upd_entry_def split: option.split)

lemma commit_mvcc_fields:
  assumes "commit_mvcc t tm = (t', tm')"
  shows "gc_commit_counter tm' = gc_commit_counter tm" "write_set t' = write_set t" "txn_id t' = txn_id t"
  using assms
  by (auto simp: commit_mvcc_def commit_versions_def end_snapshot_def CleanupSerializableStateLocked_def forget_txn_counter stamp_key_counter
      Let_def split: if_splits)

lemma commit_after_log:
  assumes log: "end_log a (write_set (txn_objs s a) \<noteq> [] \<or> mvcc_write_keys (txn_objs s a) \<noteq> []) new_CommitLogRecord s = (Ret (), s1)"
    and gc: "gc_commit_counter (tmgr s1) AND 1023 \<noteq> 1023"
    and reg: "\<forall>w\<in>set (write_set (txn_objs s1 a)). 0 \<le> wr_fd w \<or> fds_of s1 (wr_tab_name w) \<noteq> None"
  shows "\<exists>s'. commit (Some a) s = (Ret (), s') \<and> rm s' = rm s1 \<and> lock_set (txn_objs s' a) = [] \<and> txn_state (txn_objs s' a) = COMMITTED"
proof -
  let ?I = "\<lambda>u. rm u = rm s1 \<and> fhs u = fhs s1"
  obtain t m where tm: "commit_mvcc (txn_objs s1 a) (tmgr s1) = (t, m)" by (rule prod.exhaust)
  have "\<exists>s2. commit_store a s1 = (Ret (), s2) \<and> ?I s2 \<and> write_set (txn_objs s2 a) = write_set (txn_objs s1 a)"
    using gc commit_mvcc_fields [OF tm] by (simp add: commit_store_def tm Let_def)
  then obtain s2 where s2: "commit_store a s1 = (Ret (), s2)" "?I s2" "write_set (txn_objs s2 a) = write_set (txn_objs s1 a)"
    by blast
  have "\<exists>s'. bind_op (unregister_write a w) (\<lambda>_. pop_write a) u = (Ret (), s') \<and> ?I s'"
    if "w \<in> set (rev (write_set (txn_objs s2 a)))" "?I u" for w u
    using that reg s2(3)
    by (auto simp: bind_op_def unregister_write_def pop_write_def upd_txn_def on_store_def UnregisterPhysicalInsert_def
        MakePhysicalInsertKey_def fds_of_def split: option.splits)
  then obtain s3 where s3: "mapM_op (\<lambda>w. bind_op (unregister_write a w) (\<lambda>_. pop_write a)) (rev (write_set (txn_objs s2 a))) s2 = (Ret (), s3)" "?I s3"
    using mapM_op_total [where I = ?I and f = "\<lambda>w. bind_op (unregister_write a w) (\<lambda>_. pop_write a)"] s2(2) by blast
  obtain s4 where s4: "release_locks a s3 = (Ret (), s4)" "rm s4 = rm s3" "lock_set (txn_objs s4 a) = []"
    using release_locks_total by blast
  have "commit (Some a) s = (Ret (), upd_txn a (\<lambda>t. t\<lparr>txn_state := COMMITTED\<rparr>) s4)"
    using log s2(1) s3(1) s4(1) by (simp add: commit_def bind_op_def)
  then show ?thesis using s3(2) s4 by (auto simp: upd_txn_def)
qed

section \<open>Properties\<close>


text \<open>A table with one row, inserted by the running transaction 5.\<close>

definition sample_hdr :: RmFileHdr where
  "sample_hdr = (new_file_hdr 1)\<lparr>num_pages := 2, first_free_page_no := 1\<rparr>"

definition sample_page :: bytes where
  "sample_page = put_row sample_hdr 0 [7] (replicate PAGE_SIZE 0)"

definition sample_rm :: RmSystem where
  "sample_rm = (new_RmSystem
     \<lparr>shard_count = 1, pages = [\<lparr>page_id = PageId 3 1, data = sample_page, is_dirty = True, pin_count = 0\<rparr>],
      shards = [\<lparr>page_table = [(PageId 3 1, 0)], free_list = [], replacer = new_LRUReplacer 1\<rparr>], log_manager = None,
      dm = new_DiskManager \<lparr>files = Map.empty, dirs = [], fds = [], write_fault = None, last_errno = None\<rparr>\<rparr>)
     \<lparr>handles := (\<lambda>_. \<lparr>fh_fd = 3, file_hdr = sample_hdr, file_name = ''t'', closed = False, shared_state = 0\<rparr>),
      states := (\<lambda>_. \<lparr>ss_file_hdr = sample_hdr, header_loaded = True, records_loaded = True, active_handles = 1,
                       records = [(memory_key (Rid 1 0), [7])]\<rparr>)\<rparr>"

definition sample_insert :: WriteRecord where
  "sample_insert = \<lparr>wtype = INSERT_TUPLE, wr_tab_name = ''t'', wr_fd = 3, wr_rid = Rid 1 0, wr_record = [7]\<rparr>"

definition sample_db :: Database where
  "sample_db =
     \<lparr>sm_db = \<lparr>db_name = ''db'', tabs = [(''t'', \<lparr>tab_name = ''t'', cols = [], indexes = []\<rparr>)]\<rparr>, fhs = [(''t'', 0)], ihs = [],
      rm = sample_rm, lock_mgr = new_LockManager,
      tmgr = new_TransactionManager\<lparr>physical_insert_owners := [(PhysicalInsertKey 3 1 0, 5)]\<rparr>,
      txn_objs = (\<lambda>_. (new_Transaction 5 READ_COMMITTED)\<lparr>txn_state := GROWING, write_set := [sample_insert]\<rparr>), next_obj = 1,
      txn_map = [(5, 0)], reusable_txns = (\<lambda>_. []), next_txn_id = 6\<rparr>"

lemma sample_page_set: "is_set (bitmap sample_hdr sample_page) 0" "0 < num_records_per_page sample_hdr"
proof -
  have l: "layout_ok sample_hdr" using layout_new_file_hdr [of 1] by (simp add: sample_hdr_def layout_ok_def rm_consts)
  then show n: "0 < num_records_per_page sample_hdr" by (simp add: layout_ok_def)
  have "page_rows sample_hdr sample_page 0 = Some [7]"
    unfolding sample_page_def using l n by (subst page_rows_put) (simp_all add: sample_hdr_def new_file_hdr_def Let_def)
  then show "is_set (bitmap sample_hdr sample_page) 0" by (simp add: page_rows_def split: if_splits)
qed

lemma sample_rm_facts [simp]:
  "map_of (records (state_of 0 sample_rm)) (memory_key (Rid 1 0)) = Some [7]" "\<not> closed (handles sample_rm h)" "fd_of h sample_rm = 3"
  by (simp_all add: sample_rm_def)

lemma log_manager_kept:
  "log_manager (bpm (upd_page f g s)) = log_manager (bpm s)" "log_manager (bpm (upd_state h k s)) = log_manager (bpm s)"
  "log_manager (bpm (release_page_handle h f s)) = log_manager (bpm s)"
  "log_manager (bpm (done_dirty f s)) = log_manager (bpm s)"
  by (simp_all add: upd_page_def upd_bpm_def upd_state_def release_page_handle_def upd_hdr_def done_dirty_def unpin_frame_def
      unpin_page_def mark_dirty_def set_page_def set_shard_def Let_def split: option.split)

lemma sample_delete: "\<exists>t. delete_record 0 (Rid 1 0) sample_rm = (Ret (), t) \<and> log_manager (bpm t) = None"
  using sample_page_set
  by (simp add: sample_rm_def delete_record_def start_op_def ensure_open_locked_def bind_op_def new_RmSystem_def
      fetch_page_handle_unlocked_def pool_def fetch_page_def shard_index_def record_exists_on_page_def upd_hdr_def Let_def
      rm_consts page_bytes_def pin_frame_def set_shard_def set_page_def sample_hdr_def log_manager_kept)

lemma no_queue: "find_queue lid new_LockManager = None"
  by (simp add: find_queue_def new_LockManager_def lock_shard_def LOCK_TABLE_SHARD_COUNT_def)

lemma sample_abort: "\<exists>s'. abort False (Some 0) sample_db = (Ret (), s')"
proof -
  obtain t where t: "delete_record 0 (Rid 1 0) sample_rm = (Ret (), t)" "log_manager (bpm t) = None" using sample_delete by blast
  have "same_handles sample_rm t" using delete_record_rows [OF t(1)] by (simp add: sets_row_def)
  then have h: "\<not> closed (handles t 0)" "fd_of 0 t = 3" by (simp_all add: same_handles_def)
  show ?thesis
    using t h
    by (simp add: abort_def sample_db_def sample_insert_def new_Transaction_def undo_write_def Let_def pop_write_def upd_txn_def
        bind_op_def file_of_def at_map_def get_table_def on_store_def OwnsPhysicalInsert_def MakePhysicalInsertKey_def
        MakePhysicalInsertKey_fd_def OwnsPhysicalInsert_fd_def fds_of_def on_rm_def get_record_def ensure_open_locked_def
        delete_index_entries_def GetFd_def unlock_db_def unlock_def no_queue UnregisterPhysicalInsert_def
        UnregisterPhysicalInsert_fd_def release_locks_def end_log_def has_log_def LockDataId_record_def lock_shard_def)
qed


text \<open>
  The restriction to one insertion per slot is needed: the register of inserted slots has one entry per slot, which
  the first undone insertion removes. A row that was inserted, deleted and whose slot was then inserted
  into again comes back with the undone deletion and stays.
\<close>

lemma reinserted_row_survives_abort:
  assumes "abort ndebug (Some a) s = (Ret (), s')" and "\<not> mvcc_enabled (txn_objs s a)" and "mvcc_write_keys (txn_objs s a) = []"
    and ok: "files_ok s" and ws: "write_set (txn_objs s a) = [w1, w2, w3]"
    and ty: "wtype w1 = INSERT_TUPLE" "wtype w2 = DELETE_TUPLE" "wtype w3 = INSERT_TUPLE"
    and same: "wr_tab_name w1 = tab" "wr_tab_name w2 = tab" "wr_tab_name w3 = tab" "wr_rid w1 = rid" "wr_rid w2 = rid" "wr_rid w3 = rid"
    and own: "owned s a w3" and len: "length (wr_record w2) = db_row_size s tab"
  shows "db_row s' tab rid = Some (wr_record w2)"
proof -
  obtain t1 t2 s1 s2 where st: "undo_write ndebug a w3 s = (Ret (), t1)" "undo_write ndebug a w2 t1 = (Ret (), t2)"
      "undo_write ndebug a w1 t2 = (Ret (), s1)" "release_locks a s1 = (Ret (), s2)"
      "end_log a True new_AbortLogRecord (upd_txn a (\<lambda>t. t\<lparr>txn_state := ABORTED\<rparr>) s2) = (Ret (), s')"
    using assms(1-3) ws by (auto simp: abort_def bind_op_eq_Ret Let_def)
  have u1: "undone a w3 s t1" by (rule undo_write_undone [OF st(1) ok]) (simp add: ty)
  then have d1: "db_same a s t1" by (simp add: undone_def)
  have ok1: "files_ok t1" by (rule files_ok_undone [OF u1 ok]) (simp add: ty)
  have u2: "undone a w2 t1 t2" by (rule undo_write_undone [OF st(2) ok1]) (simp add: same len db_row_size_same [OF d1])
  then have d2: "db_same a t1 t2" by (simp add: undone_def)
  have ok2: "files_ok t2" by (rule files_ok_undone [OF u2 ok1]) (simp add: same len db_row_size_same [OF d1])
  have u3: "undone a w1 t2 s1" by (rule undo_write_undone [OF st(3) ok2]) (simp add: ty)
  have "insert_key s w1 = insert_key s w3" by (simp add: insert_key_def same)
  then have "\<not> owned t2 a w1"
    using u1 u2 own ty by (auto simp: undone_def owned_key insert_key_same [OF d1] insert_key_same [OF d2])
  then have "db_row s1 tab rid = Some (wr_record w2)"
    using u2 u3 ty same by (simp add: undone_def place_def before_image_def)
  moreover have "quiet_db a s2 (upd_txn a (\<lambda>t. t\<lparr>txn_state := ABORTED\<rparr>) s2)"
    by (simp add: quiet_db_def db_same_def upd_txn_def)
  ultimately show ?thesis
    using quiet_db_row [OF quiet_db_trans [OF quiet_release_locks [OF st(4)] quiet_db_trans [OF _ quiet_end_log [OF st(5)]]]] by simp
qed

end
