(* ===== verification/Recovery.thy ===== *)
theory Recovery
  imports Txn_Manager
begin

text \<open>
  Recovery after a crash, \<^verbatim>\<open>src/src/recovery/log_recovery.{h,cpp}\<close>: reading the log file back, the analysis of
  finished and unfinished transactions, redo of the committed ones and undo of the others.

  A \<^verbatim>\<open>catch (...)\<close> block catches every exception but not a failed assertion. The restart file is read as text; a file that
  cannot be opened or does not start with a number leaves the offset at 0.
\<close>

record RecoveryManager =
  logs :: "LogRecord list"
  committed_txns :: "txn_id_t set"
  active_txns :: "txn_id_t set"
  undo_logs :: "LogRecord list"

section \<open>Reading the log\<close>

definition RESTART_FILE_NAME :: string where "RESTART_FILE_NAME = ''db.restart''"

definition checkpoint_offset :: "Database \<Rightarrow> nat" where
  "checkpoint_offset s =
     (case files (os (dm (bpm (rm s)))) (db_name (sm_db s) @ ''/'' @ RESTART_FILE_NAME) of
        None \<Rightarrow> 0
      | Some c \<Rightarrow> (case read_int (bytes_str c) of None \<Rightarrow> 0 | Some (n, _) \<Rightarrow> nat (max 0 n)))"

text \<open>The size of the file that \<^verbatim>\<open>read_log\<close> reads, which reading does not change.\<close>

definition log_size :: "DiskManager \<Rightarrow> int" where
  "log_size d =
     (case open_log d of
        (Inl _, _) \<Rightarrow> 0
      | (Inr lfd, d1) \<Rightarrow> get_file_size (case fd2path d1 lfd of Some p \<Rightarrow> p | None \<Rightarrow> LOG_FILE_NAME) d1)"

lemma open_log_again: "open_log d = (Ret lfd, d1) \<Longrightarrow> open_log d1 = (Ret lfd, d1)"
  by (auto simp: open_log_def open_file_def split: if_splits option.splits prod.splits)

lemma read_log_size:
  assumes "read_log n off d = (Ret (Some b), d')"
  shows "log_size d' = log_size d" "b \<noteq> [] \<Longrightarrow> int (off + length b) \<le> log_size d"
proof -
  obtain lfd where o: "open_log d = (Ret lfd, d')" using assms by (auto simp: read_log_def Let_def split: prod.splits sum.splits if_splits option.splits)
  show "log_size d' = log_size d" by (simp add: log_size_def o open_log_again [OF o])
  show "int (off + length b) \<le> log_size d" if "b \<noteq> []"
    using assms that by (auto simp: read_log_def log_size_def o Let_def split: if_splits option.splits)
qed

function load_loop :: "nat \<Rightarrow> DiskManager \<Rightarrow> LogRecord list result \<times> DiskManager" where
  "load_loop off d =
     (case read_log LOG_HEADER_SIZE off d of
        (Inl e, d1) \<Rightarrow> (Throw e, d1)
      | (Inr None, d1) \<Rightarrow> (Ret [], d1)
      | (Inr (Some header), d1) \<Rightarrow>
          if length header < LOG_HEADER_SIZE then (Ret [], d1)
          else
            let total_len = nat (le_uint (get_bytes header OFFSET_LOG_TOT_LEN 4)) in
            if total_len < LOG_HEADER_SIZE \<or> total_len > LOG_BUFFER_SIZE then (Ret [], d1)
            else
              (case read_log total_len off d1 of
                 (Inl e, d2) \<Rightarrow> (Throw e, d2)
               | (Inr None, d2) \<Rightarrow> (Ret [], d2)
               | (Inr (Some x), d2) \<Rightarrow>
                   if length x \<noteq> total_len then (Ret [], d2)
                   else
                     (case deserialize_log_record x (int (length x)) of
                        None \<Rightarrow> (Throw AssertionFailure, d2)
                      | Some None \<Rightarrow> (Ret [], d2)
                      | Some (Some r) \<Rightarrow>
                          (case load_loop (off + total_len) d2 of
                             (Inl e, d3) \<Rightarrow> (Throw e, d3)
                           | (Inr rs, d3) \<Rightarrow> (Ret (r # rs), d3)))))"
  by pat_completeness auto
termination
proof (relation "measure (\<lambda>(off, d). nat (log_size d) - off)", goal_cases)
  case (2 off d r d1 y header total_len r2 d2 z x)
  have h: "read_log LOG_HEADER_SIZE off d = (Ret (Some header), d1)" using 2 by auto
  have x: "read_log total_len off d1 = (Ret (Some x), d2)" using 2 by auto
  have "0 < total_len" "length x = total_len" using 2 by (auto simp: log_offsets)
  then have "int (off + total_len) \<le> log_size d" "log_size d2 = log_size d"
    using read_log_size [OF x] read_log_size [OF h] by auto
  then show ?case using \<open>0 < total_len\<close> by simp
qed simp

declare load_loop.simps [simp del]

definition load_logs :: "LogRecord list db_op" where
  "load_logs s = on_rm (on_disk (load_loop (checkpoint_offset s))) s"

section \<open>Analysis\<close>

definition is_change :: "LogRecord \<Rightarrow> bool" where
  "is_change r \<longleftrightarrow> log_type r = INSERT \<or> log_type r = DELETE \<or> log_type r = UPDATE"

definition analyze_record :: "LogRecord \<Rightarrow> txn_id_t set \<times> txn_id_t set \<Rightarrow> txn_id_t set \<times> txn_id_t set" where
  "analyze_record r st =
     (case st of (committed, active) \<Rightarrow>
        (case log_type r of
           BEGIN \<Rightarrow> (committed, insert (log_tid r) active)
         | COMMIT \<Rightarrow> (insert (log_tid r) committed, active - {log_tid r})
         | ABORT \<Rightarrow> (committed, insert (log_tid r) active)
         | CHECKPOINT \<Rightarrow> (committed, active)
         | _ \<Rightarrow> (committed, if log_tid r \<in> committed then active else insert (log_tid r) active)))"

definition analyze_logs :: "LogRecord list \<Rightarrow> RecoveryManager" where
  "analyze_logs rs =
     (case fold analyze_record rs ({}, {}) of (committed, active) \<Rightarrow>
        \<lparr>logs = rs, committed_txns = committed, active_txns = active,
         undo_logs = filter (\<lambda>r. is_change r \<and> log_tid r \<in> active) (rev rs)\<rparr>)"

definition analyze :: "RecoveryManager db_op" where
  "analyze = bind_op load_logs (\<lambda>rs. ret (analyze_logs rs))"

section \<open>Redo and undo of one record\<close>

definition catch_all :: "'a \<Rightarrow> 'a db_op \<Rightarrow> 'a db_op" where
  "catch_all x c s = (case c s of (Inl e, s') \<Rightarrow> if catchable e then (Ret x, s') else (Throw e, s') | (Inr y, s') \<Rightarrow> (Ret y, s'))"

definition record_exists :: "nat \<Rightarrow> Rid \<Rightarrow> bool db_op" where
  "record_exists h rid = catch_all False (on_rm (is_record h rid))"

definition page_has_log :: "string \<Rightarrow> Rid \<Rightarrow> lsn_t \<Rightarrow> bool db_op" where
  "page_has_log tab rid lsn =
     bind_op (file_of tab) (\<lambda>h.
     bind_op (on_rm (get_file_hdr h)) (\<lambda>fhdr.
       if page_no rid < RM_FIRST_RECORD_PAGE \<or> page_no rid \<ge> num_pages fhdr then ret False
       else
         catch_all False
           (on_rm
             (bind_op (fetch_page_handle h (page_no rid)) (\<lambda>f s.
                let page_lsn = get_page_lsn (page_bytes f s)
                in (Ret (page_lsn \<noteq> INVALID_LSN \<and> page_lsn \<ge> lsn), unpin_frame f False s))))))"

lemma get_file_hdr_Ret: "get_file_hdr h s = (Ret fhdr, s') \<longleftrightarrow> \<not> closed (handles s h) \<and> s' = s \<and> fhdr = ss_file_hdr (state_of h s)"
  by (auto simp: get_file_hdr_def ensure_open_locked_def bind_op_def)

lemma create_new_page_handle_pages:
  assumes "create_new_page_handle h s = (Ret f, s')"
  shows "num_pages (ss_file_hdr (state_of h s')) = num_pages (ss_file_hdr (state_of h s)) + 1"
  using assms
  by (auto simp: create_new_page_handle_def create_new_page_handle_unlocked_def start_op_def ensure_open_locked_def bind_op_def pool_def
      upd_hdr_def upd_state_def upd_page_def upd_bpm_def Let_def split: if_splits prod.splits sum.splits option.splits)

lemma unpin_frame_state: "state_of h (unpin_frame f b s) = state_of h s"
  by (simp add: unpin_frame_def upd_bpm_def)

text \<open>Pages are added until the page of the record exists; each round adds one.\<close>

function ensure_record_slot :: "nat \<Rightarrow> Rid \<Rightarrow> unit rm_op" where
  "ensure_record_slot h rid s =
     (case get_file_hdr h s of
        (Inl e, s1) \<Rightarrow> (Throw e, s1)
      | (Inr fhdr, s1) \<Rightarrow>
          if page_no rid \<ge> num_pages fhdr
          then (case create_new_page_handle h s1 of
                  (Inl e, s2) \<Rightarrow> (Throw e, s2)
                | (Inr f, s2) \<Rightarrow> ensure_record_slot h rid (unpin_frame f True s2))
          else (Ret (), s1))"
  by pat_completeness auto
termination
proof (relation "measure (\<lambda>(h, rid, s). nat (page_no rid + 1 - num_pages (ss_file_hdr (state_of h s))))", goal_cases)
  case (2 h rid s r s1 fhdr r2 s2 f)
  then have "get_file_hdr h s = (Ret fhdr, s1)" by auto
  then have s1: "s1 = s" "fhdr = ss_file_hdr (state_of h s)" by (simp_all add: get_file_hdr_Ret)
  have c: "create_new_page_handle h s = (Ret f, s2)" using 2 s1 by auto
  show ?case using 2(3) s1 create_new_page_handle_pages [OF c] by (simp add: unpin_frame_state)
qed simp

declare ensure_record_slot.simps [simp del]

definition insert_indexes :: "bool \<Rightarrow> string \<Rightarrow> bytes \<Rightarrow> Rid \<Rightarrow> unit db_op" where
  "insert_indexes ndebug tab rec rid =
     bind_op (lift (\<lambda>s. get_table (sm_db s) tab)) (\<lambda>meta.
     mapM_op (\<lambda>index.
       bind_op (on_index (index_name tab index) (get_value (make_index_key rec index))) (\<lambda>found.
         if found = None
         then bind_op (on_index (index_name tab index) (insert_entry ndebug (make_index_key rec index) rid)) (\<lambda>_. ret ())
         else ret ())) (indexes meta))"

definition delete_indexes :: "bool \<Rightarrow> string \<Rightarrow> bytes \<Rightarrow> unit db_op" where
  "delete_indexes ndebug tab rec =
     bind_op (lift (\<lambda>s. get_table (sm_db s) tab)) (\<lambda>meta.
     mapM_op (\<lambda>index s.
       case at_map (index_name tab index) (ihs s) of
         Inl e \<Rightarrow> (Throw e, s)
       | Inr _ \<Rightarrow>
           bind_op (catch_all False (on_index (index_name tab index) (delete_entry ndebug (make_index_key rec index)))) (\<lambda>_. ret ()) s)
       (indexes meta))"

definition put_back :: "bool \<Rightarrow> nat \<Rightarrow> string \<Rightarrow> Rid \<Rightarrow> bytes \<Rightarrow> unit db_op" where
  "put_back ndebug h tab rid rec =
     bind_op (on_rm (ensure_record_slot h rid)) (\<lambda>_.
     bind_op (record_exists h rid) (\<lambda>b.
     bind_op
       (if b then
          bind_op (on_rm (get_record h rid)) (\<lambda>old.
          bind_op (delete_indexes ndebug tab old) (\<lambda>_.
          on_rm (update_record h rid rec)))
        else on_rm (insert_record_at h rid rec)) (\<lambda>_.
     insert_indexes ndebug tab rec rid)))"

definition redo_insert :: "bool \<Rightarrow> string \<Rightarrow> Rid \<Rightarrow> bytes \<Rightarrow> unit db_op" where
  "redo_insert ndebug tab rid rec = bind_op (file_of tab) (\<lambda>h. put_back ndebug h tab rid rec)"

definition redo_update :: "bool \<Rightarrow> string \<Rightarrow> Rid \<Rightarrow> bytes \<Rightarrow> bytes \<Rightarrow> unit db_op" where
  "redo_update ndebug tab rid old_rec new_rec = bind_op (file_of tab) (\<lambda>h. put_back ndebug h tab rid new_rec)"

definition redo_delete :: "bool \<Rightarrow> string \<Rightarrow> Rid \<Rightarrow> bytes \<Rightarrow> unit db_op" where
  "redo_delete ndebug tab rid rec =
     bind_op (file_of tab) (\<lambda>h.
     bind_op (record_exists h rid) (\<lambda>b.
       if \<not> b then ret ()
       else
         bind_op (on_rm (get_record h rid)) (\<lambda>old.
         bind_op (delete_indexes ndebug tab old) (\<lambda>_.
         on_rm (delete_record h rid)))))"

text \<open>The page takes the number of the record; after a deletion only if the page exists.\<close>

definition stamp_page :: "bool \<Rightarrow> string \<Rightarrow> Rid \<Rightarrow> lsn_t \<Rightarrow> unit db_op" where
  "stamp_page if_exists tab rid lsn =
     bind_op (file_of tab) (\<lambda>h.
       if if_exists
       then bind_op (on_rm (get_file_hdr h)) (\<lambda>fhdr.
              if page_no rid < num_pages fhdr then on_rm (rm_set_page_lsn h rid lsn) else ret ())
       else on_rm (rm_set_page_lsn h rid lsn))"

definition guarded :: "bool \<Rightarrow> LogRecord \<Rightarrow> unit db_op \<Rightarrow> unit db_op" where
  "guarded on_page r c =
     bind_op (page_has_log (log_table r) (log_rid r) (log_lsn r)) (\<lambda>b. if b = on_page then c else ret ())"

definition apply_redo :: "bool \<Rightarrow> LogRecord \<Rightarrow> unit db_op" where
  "apply_redo ndebug r =
     (case r of
        InsertLogRecord _ val rid tab \<Rightarrow>
          guarded False r (bind_op (redo_insert ndebug tab rid val) (\<lambda>_. stamp_page False tab rid (log_lsn r)))
      | DeleteLogRecord _ val rid tab \<Rightarrow>
          guarded False r (bind_op (redo_delete ndebug tab rid val) (\<lambda>_. stamp_page True tab rid (log_lsn r)))
      | UpdateLogRecord _ old new rid tab \<Rightarrow>
          guarded False r (bind_op (redo_update ndebug tab rid old new) (\<lambda>_. stamp_page False tab rid (log_lsn r)))
      | _ \<Rightarrow> ret ())"

definition redo :: "bool \<Rightarrow> RecoveryManager \<Rightarrow> unit db_op" where
  "redo ndebug m = mapM_op (\<lambda>r. if log_tid r \<in> committed_txns m then apply_redo ndebug r else ret ()) (logs m)"

definition apply_undo :: "bool \<Rightarrow> LogRecord \<Rightarrow> unit db_op" where
  "apply_undo ndebug r =
     (case r of
        InsertLogRecord _ val rid tab \<Rightarrow>
          guarded True r (bind_op (redo_delete ndebug tab rid val) (\<lambda>_. stamp_page True tab rid (log_lsn r)))
      | DeleteLogRecord _ val rid tab \<Rightarrow>
          guarded True r (bind_op (redo_insert ndebug tab rid val) (\<lambda>_. stamp_page False tab rid (log_lsn r)))
      | UpdateLogRecord _ old new rid tab \<Rightarrow>
          guarded True r (bind_op (redo_update ndebug tab rid new old) (\<lambda>_. stamp_page False tab rid (log_lsn r)))
      | _ \<Rightarrow> ret ())"

definition undo :: "bool \<Rightarrow> RecoveryManager \<Rightarrow> unit db_op" where
  "undo ndebug m = mapM_op (apply_undo ndebug) (undo_logs m)"

text \<open>The calls of \<^verbatim>\<open>main\<close> in \<^verbatim>\<open>rmdb.cpp\<close>.\<close>

definition recover :: "bool \<Rightarrow> unit db_op" where
  "recover ndebug = bind_op analyze (\<lambda>m. bind_op (redo ndebug m) (\<lambda>_. undo ndebug m))"

section \<open>What the reader finds\<close>

text \<open>Records that the log manager accepts, and the torn end of a log: a strict prefix of one more record.\<close>

definition log_entry :: "LogRecord \<Rightarrow> bool" where
  "log_entry r \<longleftrightarrow> log_wf r \<and> length (serialize r) \<le> LOG_BUFFER_SIZE"

definition torn :: "bytes \<Rightarrow> bool" where
  "torn t \<longleftrightarrow> (\<exists>r n. log_entry r \<and> n < length (serialize r) \<and> t = take n (serialize r))"

lemma read_log_content:
  assumes "log_ready d" and "length (log_content d) < 2 ^ 31" and "off \<le> length (log_content d)"
  shows "read_log n off d = (Ret (Some (get_bytes (log_content d) off n)), d)"
proof -
  obtain path c where d: "disk_inv d" "log_fd d \<noteq> -1" "map_of (fds (os d)) (log_fd d) = Some path"
      "files (os d) path = Some c" "log_content d = c"
    by (rule log_readyE [OF assms(1)])
  have f: "fd2path d (log_fd d) = Some path" using d(1,3) by (simp add: disk_inv_def)
  have "to_i32 (int (length c)) = int (length c)" using assms(2) d(5) by (intro to_i32_id) (simp add: in_i32_def)
  then show ?thesis
    using d f assms(3)
    by (auto simp: read_log_def open_log_def get_file_size_def sys_pread_def get_bytes_def Let_def min_def)
qed

lemma header_total_len:
  assumes "log_wf r" "24 \<le> n"
  shows "nat (le_uint (get_bytes (take n (serialize r)) OFFSET_LOG_TOT_LEN 4)) = length (serialize r)"
proof -
  have "get_bytes (take n (serialize r)) OFFSET_LOG_TOT_LEN 4 = le_bytes 4 (log_tot_len r)"
    using assms(2) by (simp add: serialize_def serialize_header_def get_bytes_def log_offsets take_drop drop_take)
  moreover have "0 \<le> log_tot_len r" "log_tot_len r < 2 ^ (8 * 4)" using assms(1) by (simp_all add: log_wf_def)
  ultimately show ?thesis using assms(1) by (simp add: le_uint_le_bytes_id log_wf_def)
qed

lemma load_loop_torn:
  assumes ready: "log_ready d" and c: "log_content d = pre @ t" "length (log_content d) < 2 ^ 31" and t: "torn t"
  shows "load_loop (length pre) d = (Ret [], d)"
proof -
  obtain r n where r: "log_entry r" "n < length (serialize r)" "t = take n (serialize r)" using t by (auto simp: torn_def)
  have rd: "read_log k (length pre) d = (Ret (Some (take k t)), d)" for k
    using read_log_content [OF ready c(2), of "length pre" k] c(1) by (simp add: get_bytes_def)
  show ?thesis
  proof (cases "n < 24")
    case True
    then show ?thesis using r by (subst load_loop.simps) (simp add: rd log_offsets)
  next
    case False
    have l: "nat (le_uint (get_bytes (take 24 t) OFFSET_LOG_TOT_LEN 4)) = length (serialize r)"
      using header_total_len [of r 24] r False by (simp add: log_entry_def min_def)
    have "LOG_HEADER_SIZE = 24" by (simp add: log_offsets)
    then show ?thesis
      using r False l length_serialize_ge [of 23 r] by (subst load_loop.simps) (simp add: rd Let_def log_entry_def)
  qed
qed

lemma load_loop_records:
  assumes "log_ready d" and "log_content d = pre @ concat (map serialize rs) @ t" and "length (log_content d) < 2 ^ 31"
    and "\<forall>r\<in>set rs. log_entry r" and "torn t"
  shows "load_loop (length pre) d = (Ret rs, d)"
  using assms(2,4)
proof (induction rs arbitrary: pre)
  case Nil
  then show ?case using load_loop_torn [OF assms(1) _ assms(3,5)] by simp
next
  case (Cons r rs)
  let ?c = "serialize r @ concat (map serialize rs) @ t"
  have r: "log_wf r" "length (serialize r) \<le> LOG_BUFFER_SIZE" using Cons.prems by (simp_all add: log_entry_def)
  have rd: "read_log k (length pre) d = (Ret (Some (take k ?c)), d)" for k
    using read_log_content [OF assms(1,3), of "length pre" k] Cons.prems(1) by (simp add: get_bytes_def)
  have l24: "24 \<le> length (serialize r)" using length_serialize_ge [of 23 r] by simp
  then have l: "nat (le_uint (get_bytes (take 24 ?c) OFFSET_LOG_TOT_LEN 4)) = length (serialize r)"
    using header_total_len [OF r(1), of 24] by simp
  have h: "LOG_HEADER_SIZE = 24" by (simp add: log_offsets)
  have de: "deserialize_log_record (serialize r) (int (length (serialize r))) = Some (Some r)"
    using deserialize_log_record_serialize [OF r(1), of "int (length (serialize r))" "[]"] r(1) by (simp add: log_wf_def)
  have "load_loop (length pre + length (serialize r)) d = (Ret rs, d)"
    using Cons.IH [of "pre @ serialize r"] Cons.prems by simp
  then show ?case
    using l24 r(2) l de h by (subst load_loop.simps) (simp add: rd Let_def)
qed

lemma load_logs_records:
  assumes "log_ready (dm (bpm (rm s)))" and "log_content (dm (bpm (rm s))) = concat (map serialize rs) @ t"
    and "length (log_content (dm (bpm (rm s)))) < 2 ^ 31" and "\<forall>r\<in>set rs. log_entry r" and "torn t" and "checkpoint_offset s = 0"
  shows "load_logs s = (Ret rs, s)"
  using load_loop_records [OF assms(1) _ assms(3-5), of "[]"] assms(2,6)
  by (simp add: load_logs_def on_rm_def on_disk_def pool_def)

section \<open>What the analysis finds\<close>

lemma analyze_fold:
  assumes "fold analyze_record rs (C, A) = (C', A')"
  shows "C' = C \<union> log_tid ` {r \<in> set rs. log_type r = COMMIT}"
    and "i \<in> A' \<Longrightarrow> i \<in> A \<or> (\<exists>r\<in>set rs. log_tid r = i \<and> log_type r \<noteq> COMMIT \<and> log_type r \<noteq> CHECKPOINT)"
proof -
  have "C' = C \<union> log_tid ` {r \<in> set rs. log_type r = COMMIT} \<and>
      (i \<in> A' \<longrightarrow> i \<in> A \<or> (\<exists>r\<in>set rs. log_tid r = i \<and> log_type r \<noteq> COMMIT \<and> log_type r \<noteq> CHECKPOINT))"
    using assms
  proof (induction rs arbitrary: C A)
    case (Cons r rs)
    obtain C1 A1 where st: "analyze_record r (C, A) = (C1, A1)" by (rule prod.exhaust)
    have 1: "C1 = C \<union> (if log_type r = COMMIT then {log_tid r} else {})"
        "i \<in> A1 \<Longrightarrow> i \<in> A \<or> (log_tid r = i \<and> log_type r \<noteq> COMMIT \<and> log_type r \<noteq> CHECKPOINT)"
      using st by (auto simp: analyze_record_def split: LogType.splits if_splits)
    show ?case using Cons.IH [of C1 A1] Cons.prems st 1 by auto
  qed simp
  then show "C' = C \<union> log_tid ` {r \<in> set rs. log_type r = COMMIT}"
    "i \<in> A' \<Longrightarrow> i \<in> A \<or> (\<exists>r\<in>set rs. log_tid r = i \<and> log_type r \<noteq> COMMIT \<and> log_type r \<noteq> CHECKPOINT)" by blast+
qed

text \<open>No record of a transaction follows its commit record.\<close>

definition commits_last :: "LogRecord list \<Rightarrow> bool" where
  "commits_last rs \<longleftrightarrow> (\<forall>i j. i < j \<and> j < length rs \<and> log_type (rs ! i) = COMMIT \<longrightarrow> log_tid (rs ! j) \<noteq> log_tid (rs ! i))"

definition commits :: "LogRecord list \<Rightarrow> txn_id_t \<Rightarrow> bool" where
  "commits rs i \<longleftrightarrow> (\<exists>r\<in>set rs. log_type r = COMMIT \<and> log_tid r = i)"

definition writes :: "LogRecord list \<Rightarrow> txn_id_t \<Rightarrow> bool" where
  "writes rs i \<longleftrightarrow> (\<exists>r\<in>set rs. log_type r \<noteq> COMMIT \<and> log_type r \<noteq> CHECKPOINT \<and> log_tid r = i)"

lemma analyze_sets:
  assumes "commits_last rs" and "fold analyze_record rs ({}, {}) = (C, A)"
  shows "i \<in> C \<longleftrightarrow> commits rs i" and "i \<in> A \<longleftrightarrow> writes rs i \<and> \<not> commits rs i"
proof -
  have "(i \<in> C \<longleftrightarrow> commits rs i) \<and> (i \<in> A \<longleftrightarrow> writes rs i \<and> \<not> commits rs i)"
    using assms
  proof (induction rs arbitrary: C A rule: rev_induct)
    case Nil
    then show ?case by (simp add: commits_def writes_def)
  next
    case (snoc r rs)
    obtain C1 A1 where st: "fold analyze_record rs ({}, {}) = (C1, A1)" by (rule prod.exhaust)
    have "log_tid (rs ! j) \<noteq> log_tid (rs ! i)" if "i < j" "j < length rs" "log_type (rs ! i) = COMMIT" for i j
      using snoc.prems(1) [unfolded commits_last_def, rule_format, of i j] that by (simp add: nth_append)
    then have "commits_last rs" by (simp add: commits_last_def)
    then have IH: "i \<in> C1 \<longleftrightarrow> commits rs i" "i \<in> A1 \<longleftrightarrow> writes rs i \<and> \<not> commits rs i"
      using snoc.IH [OF _ st] by simp_all
    have new: "\<not> commits rs (log_tid r)"
    proof
      assume "commits rs (log_tid r)"
      then obtain k where "k < length rs" "log_type (rs ! k) = COMMIT" "log_tid (rs ! k) = log_tid r"
        by (auto simp: commits_def in_set_conv_nth)
      then show False
        using snoc.prems(1) [unfolded commits_last_def, rule_format, of k "length rs"] by (simp add: nth_append)
    qed
    have "(C, A) = analyze_record r (C1, A1)" using snoc.prems(2) st by simp
    moreover have "commits (rs @ [r]) i \<longleftrightarrow> commits rs i \<or> (log_type r = COMMIT \<and> log_tid r = i)"
      "writes (rs @ [r]) i \<longleftrightarrow> writes rs i \<or> (log_type r \<noteq> COMMIT \<and> log_type r \<noteq> CHECKPOINT \<and> log_tid r = i)"
      by (auto simp: commits_def writes_def)
    ultimately show ?case
      using IH new by (cases "log_type r") (auto simp: analyze_record_def)
  qed
  then show "i \<in> C \<longleftrightarrow> commits rs i" "i \<in> A \<longleftrightarrow> writes rs i \<and> \<not> commits rs i" by blast+
qed

section \<open>Redo and undo on rows\<close>

text \<open>Operations that change no row, closed under the ways the code combines them.\<close>

named_theorems quiet_ops

definition quiet_op :: "nat \<Rightarrow> 'a db_op \<Rightarrow> bool" where
  "quiet_op a c \<longleftrightarrow> (\<forall>s r s'. c s = (r, s') \<longrightarrow> quiet_db a s s')"

lemma quiet_opD: "quiet_op a c \<Longrightarrow> c s = (r, s') \<Longrightarrow> quiet_db a s s'"
  by (simp add: quiet_op_def)

lemma quiet_op_pure [quiet_ops]: "quiet_op a (ret x)" "quiet_op a (lift f)" "quiet_op a (file_of tab)"
  by (auto simp: quiet_op_def file_of_def)

lemma quiet_op_bind [quiet_ops]:
  assumes "quiet_op a c" and "\<And>x. quiet_op a (f x)"
  shows "quiet_op a (bind_op c f)"
  unfolding quiet_op_def
proof (intro allI impI)
  fix s r s'
  assume "bind_op c f s = (r, s')"
  then show "quiet_db a s s'"
  proof (cases rule: bind_op_cases)
    case (fails e)
    then show ?thesis using quiet_opD [OF assms(1)] by blast
  next
    case (goes x s1)
    show ?thesis by (rule quiet_db_trans [OF quiet_opD [OF assms(1) goes(1)] quiet_opD [OF assms(2) goes(2)]])
  qed
qed

lemma quiet_op_if [quiet_ops]: "quiet_op a c \<Longrightarrow> quiet_op a c' \<Longrightarrow> quiet_op a (if b then c else c')"
  by simp

lemma quiet_op_mapM [quiet_ops]: "(\<And>x. quiet_op a (f x)) \<Longrightarrow> quiet_op a (mapM_op f xs)"
  by (induction xs) (simp_all add: quiet_op_pure quiet_op_bind)

lemma quiet_op_catch [quiet_ops]: "quiet_op a c \<Longrightarrow> quiet_op a (catch_all x c)"
  by (auto simp: quiet_op_def catch_all_def split: prod.splits sum.splits if_splits)

lemma quiet_op_index [quiet_ops]: "quiet_op a (on_index name c)"
  by (simp add: quiet_op_def quiet_on_index)

lemma quiet_op_rm [quiet_ops]: "(\<And>s r s'. c s = (r, s') \<Longrightarrow> no_edit s s') \<Longrightarrow> quiet_op a (on_rm c)"
  by (auto simp: quiet_op_def on_rm_def quiet_db_def db_same_def no_edit_def split: prod.splits)

lemma no_edit_get_file_hdr: "get_file_hdr h s = (r, s') \<Longrightarrow> no_edit s s'"
  by (auto simp: get_file_hdr_def ensure_open_locked_def bind_op_def split: if_splits)

lemma no_edit_page_lsn:
  assumes "bind_op (fetch_page_handle h pno) (\<lambda>f s. let page_lsn = get_page_lsn (page_bytes f s) in (Ret (P page_lsn), unpin_frame f False s)) s = (r, s')"
  shows "no_edit s s'"
  using assms
  by (elim bind_op_cases)
    (auto simp: fetch_page_handle_def ensure_open_locked_def bind_op_def Let_def split: if_splits prod.splits sum.splits
      dest!: quiet_fetch intro: quiet_no_edit quiet_no_edit [OF quiet_trans [OF _ quiet_frames(2)]])

lemma no_edit_create_new:
  assumes "create_new_page_handle h s = (r, s')"
  shows "no_edit s s'"
  using assms unfolding create_new_page_handle_def
proof (cases rule: bind_op_cases)
  case (fails e)
  from fails(1) show ?thesis by (cases rule: start_op_cases) simp_all
next
  case (goes x t)
  from goes(1) have b: "begun h s t" by (cases rule: start_op_cases) simp_all
  from goes(2) show ?thesis
  proof (cases rule: bind_op_cases)
    case (fails e)
    then show ?thesis using begun_no_edit [OF begun_quiet [OF b quiet_create_new]] by blast
  next
    case (goes f u)
    have "begun h s u" by (rule begun_quiet [OF b quiet_create_new [OF goes(1)]])
    from publish_edits [OF this, of "\<lambda>x. x"] goes(2) have e: "edits h (\<lambda>x. x) s s'" by simp
    show ?thesis
      using edits_row [OF e] edits_same_handles [OF e] by (auto simp: no_edit_def row_def same_file_def)
  qed
qed

lemma no_edit_ensure_slot: "ensure_record_slot h rid s = (r, s') \<Longrightarrow> no_edit s s'"
proof (induction h rid s rule: ensure_record_slot.induct)
  case (1 h rid s)
  obtain r1 s1 where g: "get_file_hdr h s = (r1, s1)" by (rule prod.exhaust)
  obtain r2 s2 where c: "create_new_page_handle h s1 = (r2, s2)" by (rule prod.exhaust)
  have n: "no_edit s s1" "no_edit s s2"
    using no_edit_get_file_hdr [OF g] no_edit_create_new [OF c] by (auto intro: no_edit_trans)
  have p: "no_edit s (unpin_frame f True s2)" for f
    by (rule no_edit_trans [OF n(2) quiet_no_edit [OF quiet_frames(2)]])
  show ?case
  proof (cases "\<exists>fhdr f. r1 = Ret fhdr \<and> r2 = Ret f \<and> num_pages fhdr \<le> page_no rid")
    case True
    then obtain fhdr f where f: "r1 = Ret fhdr" "r2 = Ret f" "num_pages fhdr \<le> page_no rid" by blast
    have "ensure_record_slot h rid (unpin_frame f True s2) = (r, s')"
      using "1.prems" g c f unfolding ensure_record_slot.simps [of h rid s] by simp
    from "1.IH" [OF g [symmetric] f(1) f(3) c [symmetric] f(2) this] show ?thesis by (rule no_edit_trans [OF p])
  next
    case False
    then show ?thesis
      using "1.prems" g c n unfolding ensure_record_slot.simps [of h rid s] by (auto split: sum.splits if_splits)
  qed
qed

lemma quiet_page_has_log [quiet_ops]: "quiet_op a (page_has_log tab rid lsn)"
  unfolding page_has_log_def by (intro quiet_ops) (erule no_edit_get_file_hdr no_edit_page_lsn)+

lemma quiet_record_exists [quiet_ops]: "quiet_op a (record_exists h rid)"
  unfolding record_exists_def by (intro quiet_ops) (auto dest: is_record_rows)

lemma record_exists_Ret:
  assumes "record_exists h rid s = (Ret True, s')" shows "row (rm s) h rid \<noteq> None"
  using assms is_record_rows [of h rid "rm s"]
  by (auto simp: record_exists_def catch_all_def on_rm_def split: prod.splits sum.splits if_splits)

lemma record_exists_False:
  assumes "record_exists h rid s = (Ret False, s')" and "\<not> closed (handles (rm s) h)" shows "row (rm s) h rid = None"
  using assms
  by (auto simp: record_exists_def catch_all_def on_rm_def is_record_def ensure_open_locked_def bind_op_def row_def)

lemma quiet_delete_indexes [quiet_ops]: "quiet_op a (delete_indexes ndebug tab rec)"
proof -
  have step: "quiet_op a (\<lambda>s. case at_map (index_name tab index) (ihs s) of Inl e \<Rightarrow> (Throw e, s)
      | Inr _ \<Rightarrow> bind_op (catch_all False (on_index (index_name tab index) (delete_entry ndebug (make_index_key rec index)))) (\<lambda>_. ret ()) s)"
    for index
  proof -
    have "quiet_op a (bind_op (catch_all False (on_index (index_name tab index) (delete_entry ndebug (make_index_key rec index)))) (\<lambda>_. ret ()))"
      by (intro quiet_ops)
    then show ?thesis by (auto simp: quiet_op_def split: sum.splits)
  qed
  show ?thesis unfolding delete_indexes_def by (intro quiet_ops step)
qed

lemma quiet_insert_indexes [quiet_ops]: "quiet_op a (insert_indexes ndebug tab rec rid)"
  unfolding insert_indexes_def by (intro quiet_ops)

lemma quiet_stamp_page [quiet_ops]: "quiet_op a (stamp_page b tab rid lsn)"
  unfolding stamp_page_def by (intro quiet_ops) (erule no_edit_get_file_hdr set_page_lsn_rows)+

text \<open>The row a logged change concerns, and its content before and after the change.\<close>

fun log_place :: "LogRecord \<Rightarrow> place option" where
  "log_place (InsertLogRecord _ _ rid tab) = Some (tab, memory_key rid)"
| "log_place (DeleteLogRecord _ _ rid tab) = Some (tab, memory_key rid)"
| "log_place (UpdateLogRecord _ _ _ rid tab) = Some (tab, memory_key rid)"
| "log_place _ = None"

fun old_image :: "LogRecord \<Rightarrow> bytes option" where
  "old_image (DeleteLogRecord _ val _ _) = Some val"
| "old_image (UpdateLogRecord _ old _ _ _) = Some old"
| "old_image _ = None"

fun new_image :: "LogRecord \<Rightarrow> bytes option" where
  "new_image (InsertLogRecord _ val _ _) = Some val"
| "new_image (UpdateLogRecord _ _ new _ _) = Some new"
| "new_image _ = None"

text \<open>The images have the record size of their table.\<close>

definition sized :: "Database \<Rightarrow> string \<Rightarrow> bytes option \<Rightarrow> bool" where
  "sized s tab v \<longleftrightarrow> (case v of None \<Rightarrow> True | Some x \<Rightarrow> length x = db_row_size s tab)"

definition log_sized :: "Database \<Rightarrow> LogRecord \<Rightarrow> bool" where
  "log_sized s r \<longleftrightarrow> (case log_place r of None \<Rightarrow> True | Some (tab, _) \<Rightarrow> sized s tab (old_image r) \<and> sized s tab (new_image r))"

lemma quiet_db_row_size: "quiet_db a s s' \<Longrightarrow> db_row_size s' tab = db_row_size s tab"
  by (auto simp: quiet_db_def dest: db_row_size_same)

lemma update_full:
  assumes ok: "files_ok s" and h: "map_of (fhs s) tab = Some h" and len: "length rec = db_row_size s tab"
    and u: "on_rm (update_record h rid rec) s = (Ret x, s')"
  shows "db_sets a (tab, memory_key rid) (Some rec) s s'"
proof (rule on_rm_sets [OF u h ok])
  fix t
  assume t: "update_record h rid rec (rm s) = (Ret x, t)"
  have "take (case row (rm s) h rid of None \<Rightarrow> row_size (rm s) h | Some old \<Rightarrow> length old) rec = rec"
  proof (cases "row (rm s) h rid")
    case None
    then show ?thesis using len h by (simp add: db_row_size_def)
  next
    case (Some old)
    then have "db_row s tab rid = Some old" using h by (simp add: db_row_def)
    then have "length old = db_row_size s tab" using ok by (simp add: files_ok_def)
    then show ?thesis using Some len by simp
  qed
  then show "sets_row h rid (Some rec) (rm s) t" using update_record_rows [OF t] by simp
qed

lemma insert_at_full:
  assumes ok: "files_ok s" and h: "map_of (fhs s) tab = Some h" and len: "length rec = db_row_size s tab"
    and u: "on_rm (insert_record_at h rid rec) s = (Ret x, s')"
  shows "db_sets a (tab, memory_key rid) (Some rec) s s'"
proof (rule on_rm_sets [OF u h ok])
  fix t
  assume t: "insert_record_at h rid rec (rm s) = (Ret x, t)"
  then show "sets_row h rid (Some rec) (rm s) t"
    using insert_record_at_rows [OF t] len h by (simp add: db_row_size_def)
qed

lemma put_back_sets:
  assumes run: "put_back ndebug h tab rid rec s = (Ret (), s')" and ok: "files_ok s" and h: "map_of (fhs s) tab = Some h"
    and len: "length rec = db_row_size s tab"
  shows "db_sets a (tab, memory_key rid) (Some rec) s s'"
proof -
  obtain x1 s1 b s2 x3 s3 where st: "on_rm (ensure_record_slot h rid) s = (Ret x1, s1)" "record_exists h rid s1 = (Ret b, s2)"
      "(if b then bind_op (on_rm (get_record h rid)) (\<lambda>old. bind_op (delete_indexes ndebug tab old) (\<lambda>_. on_rm (update_record h rid rec)))
        else on_rm (insert_record_at h rid rec)) s2 = (Ret x3, s3)" "insert_indexes ndebug tab rec rid s3 = (Ret (), s')"
    using run unfolding put_back_def by (auto simp only: bind_op_eq_Ret)
  have q: "quiet_db a s s2"
    using quiet_db_trans [OF quiet_opD [OF quiet_op_rm st(1)] quiet_opD [OF quiet_record_exists st(2)]] no_edit_ensure_slot by blast
  have set3: "db_sets a (tab, memory_key rid) (Some rec) s2 s3"
  proof (cases b)
    case True
    then obtain old t1 t2 where st2: "on_rm (get_record h rid) s2 = (Ret old, t1)" "delete_indexes ndebug tab old t1 = (Ret (), t2)"
        "on_rm (update_record h rid rec) t2 = (Ret (), s3)"
      using st(3) by (auto simp: bind_op_eq_Ret)
    have q2: "quiet_db a s2 t2" using quiet_opD [OF quiet_delete_indexes st2(2)] on_rm_get [OF st2(1)] by simp
    note q3 = quiet_db_trans [OF q q2]
    show ?thesis
      by (rule quiet_db_sets [OF q2 update_full [OF _ _ _ st2(3)]])
        (use ok h len q3 files_ok_quiet [OF q3] quiet_db_row_size [OF q3] in \<open>auto simp: quiet_db_def db_same_def\<close>)
  next
    case False
    show ?thesis
      by (rule insert_at_full)
        (use False st(3) ok h len q files_ok_quiet [OF q] quiet_db_row_size [OF q] in \<open>auto simp: quiet_db_def db_same_def\<close>)
  qed
  show ?thesis
    by (rule quiet_db_sets [OF q db_sets_quiet [OF set3 quiet_opD [OF quiet_insert_indexes st(4)]]])
qed

lemma redo_delete_sets:
  assumes run: "redo_delete ndebug tab rid rec s = (Ret (), s')" and ok: "files_ok s"
    and opened: "\<And>h. map_of (fhs s) tab = Some h \<Longrightarrow> \<not> closed (handles (rm s) h)"
  shows "db_sets a (tab, memory_key rid) None s s'"
proof -
  obtain h b s2 where st: "map_of (fhs s) tab = Some h" "record_exists h rid s = (Ret b, s2)"
      "(if \<not> b then ret () else
         bind_op (on_rm (get_record h rid)) (\<lambda>old. bind_op (delete_indexes ndebug tab old) (\<lambda>_. on_rm (delete_record h rid)))) s2 = (Ret (), s')"
    using run unfolding redo_delete_def
    by (auto simp only: bind_op_eq_Ret file_of_def at_map_def split: option.splits)
  have q: "quiet_db a s s2" by (rule quiet_opD [OF quiet_record_exists st(2)])
  show ?thesis
  proof (cases b)
    case False
    then have n: "row (rm s) h rid = None" using record_exists_False st(1,2) opened by simp
    have "s' = s2" using st(3) False by simp
    moreover have "row (rm s) h rid' = None" if "memory_key rid' = memory_key rid" for rid' using n that by (simp add: row_def)
    ultimately show ?thesis
      using q st(1) quiet_db_row [OF q] by (auto simp: db_sets_def quiet_db_def db_row_def)
  next
    case True
    then obtain old t1 t2 where st2: "on_rm (get_record h rid) s2 = (Ret old, t1)" "delete_indexes ndebug tab old t1 = (Ret (), t2)"
        "on_rm (delete_record h rid) t2 = (Ret (), s')"
      using st(3) by (auto simp: bind_op_eq_Ret)
    have q2: "quiet_db a s t2"
      using quiet_db_trans [OF q] quiet_opD [OF quiet_delete_indexes st2(2)] on_rm_get [OF st2(1)] by simp
    have h2: "map_of (fhs t2) tab = Some h" using st(1) q2 by (simp add: quiet_db_def db_same_def)
    show ?thesis
      by (rule quiet_db_sets [OF q2 on_rm_sets [OF st2(3) h2]]) (use ok files_ok_quiet [OF q2] delete_record_rows in fastforce)+
  qed
qed

section \<open>Replaying the log\<close>

definition files_open :: "Database \<Rightarrow> bool" where
  "files_open s \<longleftrightarrow> (\<forall>tab h. map_of (fhs s) tab = Some h \<longrightarrow> \<not> closed (handles (rm s) h))"

definition recoverable :: "Database \<Rightarrow> LogRecord list \<Rightarrow> bool" where
  "recoverable s rs \<longleftrightarrow> files_ok s \<and> files_open s \<and> (\<forall>r\<in>set rs. log_sized s r)"

text \<open>
  The specification of redo and undo: for each record in turn, the number on its page decides whether the row takes the
  image or nothing changes.
\<close>

fun replays :: "nat \<Rightarrow> bool \<Rightarrow> (LogRecord \<Rightarrow> bytes option) \<Rightarrow> LogRecord list \<Rightarrow> Database \<Rightarrow> Database \<Rightarrow> bool" where
  "replays a want img [] s s' \<longleftrightarrow> quiet_db a s s'"
| "replays a want img (r # rs) s s' \<longleftrightarrow>
     (\<exists>b s1 t. page_has_log (log_table r) (log_rid r) (log_lsn r) s = (Ret b, s1) \<and>
        (if b = want then db_sets a (log_table r, memory_key (log_rid r)) (img r) s t else quiet_db a s t) \<and>
        replays a want img rs t s')"

lemma files_open_same: "db_same a s t \<Longrightarrow> files_open s \<Longrightarrow> files_open t"
  by (simp add: files_open_def db_same_def same_handles_def)

lemma log_sized_same: "db_same a s t \<Longrightarrow> log_sized t r = log_sized s r"
  by (simp add: log_sized_def sized_def db_row_size_same split: option.split)

lemma recoverable_quiet: "recoverable s rs \<Longrightarrow> quiet_db a s t \<Longrightarrow> recoverable t rs"
  unfolding recoverable_def
  by (metis files_ok_quiet files_open_same log_sized_same quiet_db_def)

lemma recoverable_sets:
  assumes r: "recoverable s rs" and st: "db_sets a (tab, k) v s t" and v: "sized s tab v"
  shows "recoverable t rs"
proof -
  have d: "db_same a s t" using st by (simp add: db_sets_def)
  have "length rec = db_row_size t tab'" if "db_row t tab' rid = Some rec" for tab' rid rec
    using that st v r
    by (auto simp: db_sets_def recoverable_def files_ok_def db_row_size_same [OF d] sized_def split: if_splits)
  moreover have "fhs t = fhs s" "same_handles (rm s) (rm t)" using d by (simp_all add: db_same_def)
  ultimately have "files_ok t" using r unfolding recoverable_def files_ok_def by (auto simp: same_handles_file)
  then show ?thesis
    using r files_open_same [OF d] log_sized_same [OF d] by (simp add: recoverable_def)
qed

lemma change_cases:
  assumes "is_change r"
  obtains (ins) h val rid tab where "r = InsertLogRecord h val rid tab"
    | (del) h val rid tab where "r = DeleteLogRecord h val rid tab"
    | (upd) h old new rid tab where "r = UpdateLogRecord h old new rid tab"
  using assms by (cases r) (auto simp: is_change_def)

lemma guarded_Ret:
  assumes "guarded want r c s = (Ret (), s')"
  obtains b s1 where "page_has_log (log_table r) (log_rid r) (log_lsn r) s = (Ret b, s1)" "quiet_db a s s1"
    "(if b = want then c s1 = (Ret (), s') else s' = s1)"
proof -
  obtain b s1 where g: "page_has_log (log_table r) (log_rid r) (log_lsn r) s = (Ret b, s1)" "(if b = want then c else ret ()) s1 = (Ret (), s')"
    using assms unfolding guarded_def by (auto simp only: bind_op_eq_Ret)
  show thesis by (rule that [OF g(1) quiet_opD [OF quiet_page_has_log g(1)]]) (use g(2) in \<open>auto split: if_splits\<close>)
qed

text \<open>The two ways to give a row an image, followed by the stamp on its page.\<close>

definition put_image :: "bool \<Rightarrow> LogRecord \<Rightarrow> bytes option \<Rightarrow> unit db_op \<Rightarrow> bool" where
  "put_image ndebug r v c \<longleftrightarrow>
     (\<exists>x. v = Some x \<and> c = bind_op (bind_op (file_of (log_table r)) (\<lambda>h. put_back ndebug h (log_table r) (log_rid r) x))
            (\<lambda>_. stamp_page False (log_table r) (log_rid r) (log_lsn r))) \<or>
     (\<exists>x. v = None \<and> c = bind_op (redo_delete ndebug (log_table r) (log_rid r) x)
            (\<lambda>_. stamp_page True (log_table r) (log_rid r) (log_lsn r)))"

lemma put_image_sets:
  assumes p: "put_image ndebug r v c" and run: "c s = (Ret (), s')" and ok: "recoverable s rs" and v: "sized s (log_table r) v"
  shows "db_sets a (log_table r, memory_key (log_rid r)) v s s'"
  using p unfolding put_image_def
proof (elim disjE exE conjE)
  fix x
  assume vx: "v = Some x" and c: "c = bind_op (bind_op (file_of (log_table r)) (\<lambda>h. put_back ndebug h (log_table r) (log_rid r) x))
            (\<lambda>_. stamp_page False (log_table r) (log_rid r) (log_lsn r))"
  obtain h s1 where h: "map_of (fhs s) (log_table r) = Some h" "put_back ndebug h (log_table r) (log_rid r) x s = (Ret (), s1)"
      "stamp_page False (log_table r) (log_rid r) (log_lsn r) s1 = (Ret (), s')"
    using run unfolding c by (auto simp: bind_op_eq_Ret file_of_def at_map_def split: option.splits)
  have "db_sets a (log_table r, memory_key (log_rid r)) (Some x) s s1"
    by (rule put_back_sets [OF h(2) _ h(1)]) (use ok v vx in \<open>simp_all add: recoverable_def sized_def\<close>)
  then show ?thesis using db_sets_quiet [OF _ quiet_opD [OF quiet_stamp_page h(3)]] vx by blast
next
  fix x
  assume vx: "v = None" and c: "c = bind_op (redo_delete ndebug (log_table r) (log_rid r) x)
            (\<lambda>_. stamp_page True (log_table r) (log_rid r) (log_lsn r))"
  obtain s1 where h: "redo_delete ndebug (log_table r) (log_rid r) x s = (Ret (), s1)"
      "stamp_page True (log_table r) (log_rid r) (log_lsn r) s1 = (Ret (), s')"
    using run unfolding c by (auto simp: bind_op_eq_Ret)
  have "db_sets a (log_table r, memory_key (log_rid r)) None s s1"
    by (rule redo_delete_sets [OF h(1)]) (use ok in \<open>auto simp: recoverable_def files_open_def\<close>)
  then show ?thesis using db_sets_quiet [OF _ quiet_opD [OF quiet_stamp_page h(2)]] vx by blast
qed

lemma apply_redo_image:
  assumes "is_change r" obtains c where "apply_redo ndebug r = guarded False r c" "put_image ndebug r (new_image r) c"
  using assms by (cases rule: change_cases) (auto simp: apply_redo_def put_image_def redo_insert_def redo_update_def)

lemma apply_undo_image:
  assumes "is_change r" obtains c where "apply_undo ndebug r = guarded True r c" "put_image ndebug r (old_image r) c"
  using assms by (cases rule: change_cases) (auto simp: apply_undo_def put_image_def redo_insert_def redo_update_def)

lemma mapM_replays:
  assumes step: "\<And>r. r \<in> set rs \<Longrightarrow> \<exists>c. f r = guarded want r c \<and> put_image ndebug r (img r) c"
    and sz: "\<And>r t. r \<in> set rs \<Longrightarrow> recoverable t ls \<Longrightarrow> sized t (log_table r) (img r)"
    and run: "mapM_op f rs s = (Ret (), s')" and ok: "recoverable s ls"
  shows "replays a want img rs s s' \<and> recoverable s' ls"
  using step sz run ok
proof (induction rs arbitrary: s)
  case (Cons r rs)
  obtain c where c: "f r = guarded want r c" "put_image ndebug r (img r) c" using Cons.prems(1) [of r] by auto
  obtain t where t: "guarded want r c s = (Ret (), t)" "mapM_op f rs t = (Ret (), s')"
    using Cons.prems(3) c(1) by (auto simp: bind_op_eq_Ret)
  obtain b s1 where g: "page_has_log (log_table r) (log_rid r) (log_lsn r) s = (Ret b, s1)" "quiet_db a s s1"
      "(if b = want then c s1 = (Ret (), t) else t = s1)"
    using guarded_Ret [OF t(1)] by blast
  have ok1: "recoverable s1 ls" by (rule recoverable_quiet [OF Cons.prems(4) g(2)])
  have eff: "(if b = want then db_sets a (log_table r, memory_key (log_rid r)) (img r) s t else quiet_db a s t)"
    using g(3) quiet_db_sets [OF g(2) put_image_sets [OF c(2) _ ok1 Cons.prems(2) [OF _ ok1]]] g(2) by (auto split: if_splits)
  then have "recoverable t ls"
    using recoverable_sets [OF Cons.prems(4)] recoverable_quiet [OF Cons.prems(4)] Cons.prems(2) [OF _ Cons.prems(4), of r]
    by (auto split: if_splits)
  then have "replays a want img rs t s' \<and> recoverable s' ls"
    using Cons.IH [of t] Cons.prems(1,2) t(2) by simp
  then show ?case using g(1) eff by auto
qed simp

lemma mapM_op_filter:
  "mapM_op (\<lambda>x. if P x then f x else ret ()) xs s = mapM_op f (filter P xs) s"
proof (induction xs arbitrary: s)
  case (Cons x xs)
  then show ?case by (auto simp: bind_op_def split: prod.split sum.split)
qed simp

lemma apply_redo_other: "\<not> is_change r \<Longrightarrow> apply_redo ndebug r = ret ()"
  by (cases r) (simp_all add: apply_redo_def is_change_def)

lemma log_sized_images:
  "is_change r \<Longrightarrow> log_sized s r \<Longrightarrow> sized s (log_table r) (old_image r) \<and> sized s (log_table r) (new_image r)"
  by (erule change_cases) (auto simp: log_sized_def sized_def)

lemma recoverable_images:
  "recoverable s rs \<Longrightarrow> r \<in> set rs \<Longrightarrow> is_change r \<Longrightarrow> sized s (log_table r) (old_image r)"
  "recoverable s rs \<Longrightarrow> r \<in> set rs \<Longrightarrow> is_change r \<Longrightarrow> sized s (log_table r) (new_image r)"
  using log_sized_images by (auto simp: recoverable_def)

lemma redo_replays:
  assumes run: "redo ndebug m s = (Ret (), s')" and ok: "recoverable s (logs m)"
  shows "replays a False new_image (filter (\<lambda>r. is_change r \<and> log_tid r \<in> committed_txns m) (logs m)) s s'"
    and "recoverable s' (logs m)"
proof -
  let ?rs = "filter (\<lambda>r. is_change r \<and> log_tid r \<in> committed_txns m) (logs m)"
  have "(\<lambda>r. if log_tid r \<in> committed_txns m then apply_redo ndebug r else ret ()) =
      (\<lambda>r. if is_change r \<and> log_tid r \<in> committed_txns m then apply_redo ndebug r else ret ())"
    by (auto simp: fun_eq_iff apply_redo_other)
  then have go: "mapM_op (apply_redo ndebug) ?rs s = (Ret (), s')" using run by (simp add: redo_def mapM_op_filter)
  have "replays a False new_image ?rs s s' \<and> recoverable s' (logs m)"
    by (rule mapM_replays [OF _ _ go ok]) (auto elim: apply_redo_image simp: recoverable_images)
  then show "replays a False new_image ?rs s s'" "recoverable s' (logs m)" by blast+
qed

lemma undo_replays:
  assumes run: "undo ndebug m s = (Ret (), s')" and ok: "recoverable s (logs m)"
    and u: "\<forall>r\<in>set (undo_logs m). r \<in> set (logs m) \<and> is_change r"
  shows "replays a True old_image (undo_logs m) s s'"
proof -
  have "replays a True old_image (undo_logs m) s s' \<and> recoverable s' (logs m)"
    by (rule mapM_replays [OF _ _ run [unfolded undo_def] ok]) (use u in \<open>auto elim: apply_undo_image simp: recoverable_images\<close>)
  then show ?thesis by blast
qed

text \<open>
  An aborted transaction has already been rolled back when its abort record is written, and its locks are released; yet
  the analysis keeps it among the active ones. Its changes are therefore undone a second time, after the redo of
  a later committed change of the same row, which is lost if the page number is at least that of the aborted change.
\<close>

lemma aborted_change_undone_again:
  fixes old v w :: bytes and rid :: Rid and tab :: string
  defines "u1 \<equiv> set_lsn 0 (new_UpdateLogRecord 1 (-1) old v rid tab)" and "u2 \<equiv> set_lsn 2 (new_UpdateLogRecord 2 (-1) old w rid tab)"
  defines "rs \<equiv> [u1, set_lsn 1 (new_AbortLogRecord 1 0), u2, set_lsn 3 (new_CommitLogRecord 2 2)]"
  shows "committed_txns (analyze_logs rs) = {2} \<and> undo_logs (analyze_logs rs) = [u1] \<and>
    (recoverable s rs \<and> redo ndebug (analyze_logs rs) s = (Ret (), s1) \<and> undo ndebug (analyze_logs rs) s1 = (Ret (), s') \<and>
     page_has_log tab rid 0 s1 = (Ret True, t) \<longrightarrow> db_row s' tab rid = Some old)"
proof -
  have m: "committed_txns (analyze_logs rs) = {2}" "undo_logs (analyze_logs rs) = [u1]" "logs (analyze_logs rs) = rs" "is_change u1"
    by (simp_all add: rs_def u1_def u2_def analyze_logs_def analyze_record_def is_change_def new_UpdateLogRecord_def new_AbortLogRecord_def
        new_CommitLogRecord_def new_header_def set_lsn_def)
  have u: "log_table u1 = tab" "log_rid u1 = rid" "log_lsn u1 = 0" "old_image u1 = Some old"
    by (simp_all add: u1_def new_UpdateLogRecord_def new_header_def set_lsn_def)
  have "db_row s' tab rid = Some old"
    if r: "recoverable s rs" "redo ndebug (analyze_logs rs) s = (Ret (), s1)" "undo ndebug (analyze_logs rs) s1 = (Ret (), s')"
      and p: "page_has_log tab rid 0 s1 = (Ret True, t)"
  proof -
    have "recoverable s1 (logs (analyze_logs rs))" by (rule redo_replays(2) [OF r(2)]) (use r(1) m(3) in simp)
    then have "replays 0 True old_image [u1] s1 s'"
      using undo_replays [OF r(3), of 0] m by (simp add: rs_def del: replays.simps)
    then obtain x where "db_sets 0 (tab, memory_key rid) (Some old) s1 x" "quiet_db 0 x s'"
      using p u by auto
    then show ?thesis using quiet_db_row [of 0 x s'] by (simp add: db_sets_def)
  qed
  then show ?thesis using m by blast
qed

section \<open>Properties\<close>


text \<open>
  A system after a crash: its log file holds what \<open>s\<close> had written, possibly more records and the torn beginning of
  one, and recovery reads it from the start.
\<close>

definition crash_image :: "Database \<Rightarrow> LogRecord list \<Rightarrow> bytes \<Rightarrow> Database \<Rightarrow> bool" where
  "crash_image s later tail t \<longleftrightarrow> log_ready (dm (bpm (rm t))) \<and>
     log_content (dm (bpm (rm t))) = log_on_disk s @ concat (map serialize later) @ tail \<and>
     length (log_content (dm (bpm (rm t)))) < 2 ^ 31 \<and> (\<forall>r\<in>set later. log_entry r) \<and> torn tail \<and> checkpoint_offset t = 0"

text \<open>
  C1. A committed transaction survives a crash: on a device that accepts writes, \<^verbatim>\<open>commit\<close> of a transaction with writes
  returns, all its locks are released, and whatever records follow and however the log is torn by a later crash, recovery
  reads the log up to the tear and counts the transaction as committed. The commit is not one that also collects
  versions (every 1024th does), and the tables of its insertions are open.
\<close>

theorem commit_is_durable:
  assumes "db_log d0 rs s" and "log_content d0 = concat (map serialize old)" and "\<forall>r\<in>set old \<union> set rs. log_entry r"
    and "no_fault (dm (bpm (rm s)))" and "Suc (length rs) < 2 ^ 31" and "write_set (txn_objs s a) \<noteq> []"
    and "in_i64 (txn_id (txn_objs s a))" and "in_i32 (prev_lsn (txn_objs s a))"
    and "gc_commit_counter (tmgr s) AND 1023 \<noteq> 1023"
    and "\<forall>w\<in>set (write_set (txn_objs s a)). 0 \<le> wr_fd w \<or> fds_of s (wr_tab_name w) \<noteq> None"
  shows "\<exists>s'. commit (Some a) s = (Ret (), s') \<and> txn_state (txn_objs s' a) = COMMITTED \<and> lock_set (txn_objs s' a) = [] \<and>
    (\<forall>later tail t. crash_image s' later tail t \<longrightarrow>
       (\<exists>m. analyze t = (Ret m, t) \<and> txn_id (txn_objs s a) \<in> committed_txns m))"
proof -
  let ?c = "set_lsn (int (length rs)) (new_CommitLogRecord (txn_id (txn_objs s a)) (prev_lsn (txn_objs s a)))"
  have small: "log_tot_len (new_CommitLogRecord i l) \<le> int LOG_BUFFER_SIZE" for i l
    by (simp add: new_CommitLogRecord_def new_header_def layout_simps)
  obtain s1 where s1: "end_log a True new_CommitLogRecord s = (Ret (), s1)"
      "log_on_disk s1 = log_content d0 @ concat (map serialize (rs @ [?c]))" "tmgr s1 = tmgr s" "fds_of s1 = fds_of s"
      "txn_objs s1 = (txn_objs s)(a := (txn_objs s a)\<lparr>prev_lsn := int (length rs)\<rparr>)"
    using end_log_durable [where a = a and mk = new_CommitLogRecord, OF assms(1,4,5) small] by blast
  obtain s' where s': "commit (Some a) s = (Ret (), s')" "rm s' = rm s1" "lock_set (txn_objs s' a) = []"
      "txn_state (txn_objs s' a) = COMMITTED"
    using commit_after_log [of a s s1] s1 assms(6,9,10) by auto
  have c: "log_entry ?c" "log_type ?c = COMMIT" "log_tid ?c = txn_id (txn_objs s a)"
    using assms(5,7,8)
    by (auto simp: log_entry_def log_wf_def new_CommitLogRecord_def new_header_def set_lsn_def serialize_def layout_simps in_i32_def)
  have "\<exists>m. analyze t = (Ret m, t) \<and> txn_id (txn_objs s a) \<in> committed_txns m" if cr: "crash_image s' later tail t" for later tail t
  proof -
    let ?all = "old @ rs @ [?c] @ later"
    obtain C A where f: "fold analyze_record ?all ({}, {}) = (C, A)" by (rule prod.exhaust)
    have l: "load_logs t = (Ret ?all, t)"
      by (rule load_logs_records [where t = tail])
        (use cr c(1) assms(2,3) s1(2) s'(2) in \<open>auto simp: crash_image_def log_on_disk_def\<close>)
    moreover have "txn_id (txn_objs s a) \<in> C"
      unfolding analyze_fold(1) [OF f] using c(2,3) by (intro UnI2 image_eqI [of _ _ ?c]) simp_all
    moreover have "committed_txns (analyze_logs ?all) = C" unfolding analyze_logs_def f by simp
    ultimately show ?thesis by (auto simp: analyze_def bind_op_def simp del: append.simps append_assoc)
  qed
  then show ?thesis using s' by blast
qed

text \<open>A crash after the insertion of the sample row: the page on disk already has the change.\<close>

definition sample_records :: "LogRecord list" where
  "sample_records = [set_lsn 0 (new_InsertLogRecord 5 [7] (Rid 1 0) ''t''), set_lsn 1 (new_CommitLogRecord 5 0)]"

definition sample_log_file :: "bytes \<Rightarrow> DiskManager" where
  "sample_log_file c = sample_log_disk\<lparr>os := (os sample_log_disk)\<lparr>files := [LOG_FILE_NAME \<mapsto> c]\<rparr>\<rparr>"

definition sample_crash :: Database where
  "sample_crash = sample_db\<lparr>rm := sample_rm\<lparr>bpm := (bpm sample_rm)\<lparr>dm := sample_log_file (concat (map serialize sample_records))\<rparr>\<rparr>\<rparr>"

lemma sample_log_file_facts:
  "log_ready (sample_log_file c)" "log_content (sample_log_file c) = c"
proof -
  have "disk_inv (sample_log_file c)"
    by (simp add: sample_log_file_def sample_log_disk_eq disk_inv_def)
  then show "log_ready (sample_log_file c)" "log_content (sample_log_file c) = c"
    by (simp_all add: log_ready_def log_content_def) (simp_all add: sample_log_file_def sample_log_disk_eq)
qed

lemma sample_entries: "\<forall>r\<in>set sample_records. log_entry r"
  by (simp add: sample_records_def log_entry_def log_wf_def new_InsertLogRecord_def new_CommitLogRecord_def new_header_def set_lsn_def
      serialize_def layout_simps in_i32_def in_i64_def rid_ok_def)

lemma torn_Nil: "torn []"
  using sample_entries length_serialize_ge [of 0] unfolding torn_def sample_records_def by fastforce

lemma sample_load: "load_logs sample_crash = (Ret sample_records, sample_crash)"
proof -
  have "length (concat (map serialize sample_records)) < 2 ^ 31"
    by (simp add: sample_records_def new_InsertLogRecord_def new_CommitLogRecord_def new_header_def set_lsn_def serialize_def layout_simps)
  moreover have "checkpoint_offset sample_crash = 0"
    by (simp add: checkpoint_offset_def sample_crash_def sample_db_def sample_log_file_def RESTART_FILE_NAME_def LOG_FILE_NAME_def)
  ultimately show ?thesis
    using sample_entries torn_Nil sample_log_file_facts
    by (intro load_logs_records [where t = "[]"]) (simp_all add: sample_crash_def)
qed

lemma page_lsn_put:
  assumes "4 \<le> off" "4 \<le> length d"
  shows "get_page_lsn (put_bytes d off x) = get_page_lsn d" "4 \<le> length (put_bytes d off x)"
  using assms by (simp_all add: get_page_lsn_def get_i32_def get_bytes_def put_bytes_def min_def)

lemma page_lsn_put_row:
  assumes "4 \<le> length d" shows "get_page_lsn (put_row h k buf d) = get_page_lsn d"
  using assms by (simp add: put_row_def write_slot_def set_num_records_def set_bitmap_def put_i32_def Let_def page_lsn_put
      get_slot_def OFFSET_BITMAP_def OFFSET_PAGE_HDR_def)

lemma sample_page_lsn: "get_page_lsn sample_page = 0"
proof -
  have "take 4 (replicate PAGE_SIZE (0::8 word)) = [0, 0, 0, 0]" by (simp add: PAGE_SIZE_def numeral_eq_Suc)
  then have "get_page_lsn (replicate PAGE_SIZE 0) = 0"
    by (simp add: get_page_lsn_def get_i32_def get_bytes_def le_sint_def)
  then show ?thesis by (simp add: sample_page_def page_lsn_put_row PAGE_SIZE_def)
qed

lemma sample_has_log: "\<exists>t. page_has_log ''t'' (Rid 1 0) 0 sample_crash = (Ret True, t)"
  using sample_page_lsn
  by (simp add: page_has_log_def file_of_def at_map_def sample_crash_def sample_db_def on_rm_def get_file_hdr_def ensure_open_locked_def
      sample_rm_def bind_op_def rm_consts catch_all_def fetch_page_handle_def fetch_page_handle_unlocked_def pool_def fetch_page_def shard_index_def
      Let_def page_bytes_def pin_frame_def set_shard_def set_page_def sample_hdr_def new_RmSystem_def INVALID_LSN_def)

lemma sample_recover: "\<exists>s'. recover False sample_crash = (Ret (), s')"
proof -
  obtain t where t: "page_has_log ''t'' (Rid 1 0) 0 sample_crash = (Ret True, t)" using sample_has_log by blast
  have "analyze sample_crash = (Ret \<lparr>logs = sample_records, committed_txns = {5}, active_txns = {}, undo_logs = []\<rparr>, sample_crash)"
    using sample_load
    by (simp add: analyze_def bind_op_def analyze_logs_def)
      (simp add: sample_records_def analyze_record_def new_InsertLogRecord_def new_CommitLogRecord_def new_header_def set_lsn_def)
  then show ?thesis
    using t by (simp add: recover_def bind_op_def redo_def undo_def)
      (simp add: sample_records_def new_InsertLogRecord_def new_CommitLogRecord_def new_header_def set_lsn_def apply_redo_def guarded_def bind_op_def)
qed


text \<open>The system in which the sample transaction commits: one record is in the log buffer.\<close>

definition sample_running :: Database where
  "sample_running = sample_db\<lparr>rm := sample_rm\<lparr>bpm := (bpm sample_rm)\<lparr>dm := sample_log_disk, log_manager := Some sample_log_manager\<rparr>\<rparr>\<rparr>"

theorem commit_is_durable_witness:
  "\<exists>s'. commit (Some 0) sample_running = (Ret (), s') \<and> txn_state (txn_objs s' 0) = COMMITTED \<and>
     (\<forall>later tail t. crash_image s' later tail t \<longrightarrow> (\<exists>m. analyze t = (Ret m, t) \<and> 5 \<in> committed_txns m))"
proof -
  have t: "txn_objs sample_running 0 = (new_Transaction 5 READ_COMMITTED)\<lparr>txn_state := GROWING, write_set := [sample_insert]\<rparr>"
    by (simp add: sample_running_def sample_db_def)
  have l: "db_log sample_log_disk [set_lsn 0 (new_BeginLogRecord 1)] sample_running"
    using sample_log_ready sample_log_run by (simp add: db_log_def sample_running_def)
  have e: "log_entry (set_lsn 0 (new_BeginLogRecord 1))"
    by (simp add: log_entry_def log_wf_def new_BeginLogRecord_def new_header_def set_lsn_def serialize_def layout_simps in_i32_def in_i64_def)
  have c: "log_content sample_log_disk = concat (map serialize [])" by (simp add: log_content_def sample_log_disk_eq)
  have nf: "no_fault (dm (bpm (rm sample_running)))"
    using sample_log_ready by (simp add: no_fault_def sample_running_def) (simp add: sample_log_disk_eq)
  show ?thesis
    using commit_is_durable [OF l c _ nf, of 0] e
    by (auto simp: t new_Transaction_def sample_insert_def in_i64_def in_i32_def)
      (auto simp: sample_running_def sample_db_def new_TransactionManager_def)
qed

end
