(* ===== verification/Spec2Isabelle.thy ===== *)
theory Spec2Isabelle
  imports Mvcc_Ssi Recovery
begin

text \<open>
  A verification development of the storage, transaction and execution layers of RMDB
  (\<^verbatim>\<open>src/src\<close>).
\<close>

end
